(* ===== verification/Rust_Prelude.thy ===== *)
theory Rust_Prelude
  imports "HOL-Library.Word" "HOL-Library.FSet" "HOL-Library.Product_Lexorder"
begin

text \<open>
  The shared vocabulary of the development: Rust's machine integers, the values a Rust
  function returns in a build with debug assertions and overflow checks (the profile of
  \<^verbatim>\<open>cargo build\<close> and \<^verbatim>\<open>cargo test\<close>), the checked operations the
  code uses, and the generic lemmas the component theories share.

  A function that may panic returns a value of type \<open>'a res\<close>: \<open>Inl p\<close> for the panic
  \<open>p\<close>, \<open>Inr v\<close> for a normal return. \<open>Diverges\<close> is the value of a loop that never
  returns, so that \<open>f x = Inr y\<close> states both termination and the absence of panics.
  In a release build the \<open>DebugAssert\<close> branches are absent and \<open>ArithOverflow\<close> branches
  wrap around; every theorem that concludes \<open>Inr\<close> shows that neither kind is reached.
\<close>

section \<open>Machine integers\<close>

type_synonym u8 = "8 word"
type_synonym u16 = "16 word"
type_synonym u32 = "32 word"
type_synonym u64 = "64 word"
type_synonym u256 = "256 word"
type_synonym usize = "64 word"

section \<open>Panics and results\<close>

datatype panic =
    DebugAssert        \<comment> \<open>a failed \<^verbatim>\<open>debug_assert!\<close>\<close>
  | Assert             \<comment> \<open>a failed \<^verbatim>\<open>assert!\<close> or \<^verbatim>\<open>assert_ne!\<close>\<close>
  | ExplicitPanic      \<comment> \<open>\<^verbatim>\<open>panic!\<close>\<close>
  | UnwrapNone         \<comment> \<open>\<^verbatim>\<open>unwrap\<close> or \<^verbatim>\<open>expect\<close> on \<^verbatim>\<open>None\<close>\<close>
  | ArithOverflow      \<comment> \<open>overflow of \<^verbatim>\<open>+\<close>, \<^verbatim>\<open>-\<close> or \<^verbatim>\<open>*\<close>\<close>
  | DivByZero          \<comment> \<open>\<^verbatim>\<open>/\<close> or \<^verbatim>\<open>%\<close> by zero\<close>
  | Diverges           \<comment> \<open>the call never returns\<close>

type_synonym 'a res = "panic + 'a"

text \<open>Facts that carry the proofs about panicking code.\<close>

named_theorems res_simps
named_theorems res_elims

definition rbind :: "'a res \<Rightarrow> ('a \<Rightarrow> 'b res) \<Rightarrow> 'b res" where
  "rbind m f = (case m of Inl p \<Rightarrow> Inl p | Inr x \<Rightarrow> f x)"

definition guard :: "panic \<Rightarrow> bool \<Rightarrow> unit res" where
  "guard p b = (if b then Inr () else Inl p)"

definition unwrap :: "'a option \<Rightarrow> 'a res" where
  "unwrap x = (case x of None \<Rightarrow> Inl UnwrapNone | Some v \<Rightarrow> Inr v)"

text \<open>The value of a loop written as an optional result: no result is divergence.\<close>

definition returns :: "'a res option \<Rightarrow> 'a res" where
  "returns x = (case x of None \<Rightarrow> Inl Diverges | Some r \<Rightarrow> r)"

section \<open>Checked arithmetic\<close>

definition checked_add :: "'a::len word \<Rightarrow> 'a word \<Rightarrow> 'a word res" where
  "checked_add a b = (if unat a + unat b < 2 ^ LENGTH('a) then Inr (a + b) else Inl ArithOverflow)"

definition checked_sub :: "'a::len word \<Rightarrow> 'a word \<Rightarrow> 'a word res" where
  "checked_sub a b = (if b \<le> a then Inr (a - b) else Inl ArithOverflow)"

definition checked_mul :: "'a::len word \<Rightarrow> 'a word \<Rightarrow> 'a word res" where
  "checked_mul a b = (if unat a * unat b < 2 ^ LENGTH('a) then Inr (a * b) else Inl ArithOverflow)"

definition checked_div :: "'a::len word \<Rightarrow> 'a word \<Rightarrow> 'a word res" where
  "checked_div a b = (if b = 0 then Inl DivByZero else Inr (a div b))"

definition checked_rem :: "'a::len word \<Rightarrow> 'a word \<Rightarrow> 'a word res" where
  "checked_rem a b = (if b = 0 then Inl DivByZero else Inr (a mod b))"

definition saturating_sub :: "'a::len word \<Rightarrow> 'a word \<Rightarrow> 'a word" where
  "saturating_sub a b = (if b \<le> a then a - b else 0)"

text \<open>\<^verbatim>\<open>iter().sum()\<close> over unsigned integers, overflow checked at every step.\<close>

fun checked_sum :: "'a::len word \<Rightarrow> 'a word list \<Rightarrow> 'a word res" where
  "checked_sum acc [] = Inr acc"
| "checked_sum acc (x # xs) = rbind (checked_add acc x) (\<lambda>s. checked_sum s xs)"

text \<open>A \<^verbatim>\<open>for\<close> loop whose body updates a state and may panic.\<close>

fun rfold :: "('a \<Rightarrow> 's \<Rightarrow> 's res) \<Rightarrow> 'a list \<Rightarrow> 's \<Rightarrow> 's res" where
  "rfold f [] s = Inr s"
| "rfold f (x # xs) s = rbind (f x s) (rfold f xs)"

text \<open>\<^verbatim>\<open>iter().filter(p)\<close> with a predicate that may panic.\<close>

fun rfilter :: "('a \<Rightarrow> bool res) \<Rightarrow> 'a list \<Rightarrow> 'a list res" where
  "rfilter p [] = Inr []"
| "rfilter p (x # xs) =
     rbind (p x) (\<lambda>b. rbind (rfilter p xs) (\<lambda>ys. Inr (if b then x # ys else ys)))"

section \<open>Byte encodings\<close>

text \<open>\<^verbatim>\<open>to_le_bytes\<close> of a 32-bit and a 64-bit integer, and the bytes of a 256-bit
  digest in the order of the array (most significant first).\<close>

fun le_bytes :: "nat \<Rightarrow> 'a::len word \<Rightarrow> u8 list" where
  "le_bytes 0 w = []"
| "le_bytes (Suc n) w = ucast w # le_bytes n (drop_bit 8 w)"

definition to_le_bytes32 :: "u32 \<Rightarrow> u8 list" where
  "to_le_bytes32 w = le_bytes 4 w"

definition to_le_bytes64 :: "u64 \<Rightarrow> u8 list" where
  "to_le_bytes64 w = le_bytes 8 w"

definition digest_bytes :: "u256 \<Rightarrow> u8 list" where
  "digest_bytes d = rev (le_bytes 32 d)"

section \<open>Lemmas\<close>

subsection \<open>Results\<close>

lemma rbind_Inl [simp, res_simps]: "rbind (Inl p) f = Inl p"
  and rbind_Inr [simp, res_simps]: "rbind (Inr x) f = f x"
  by (simp_all add: rbind_def)

lemma rbind_assoc: "rbind (rbind m f) g = rbind m (\<lambda>x. rbind (f x) g)"
  by (cases m) simp_all

lemma rbind_eq_Inr [res_simps]:
  "rbind m f = Inr y \<longleftrightarrow> (\<exists>x. m = Inr x \<and> f x = Inr y)"
  by (cases m) simp_all

lemma rbind_eq_Inl [res_simps]:
  "rbind m f = Inl p \<longleftrightarrow> m = Inl p \<or> (\<exists>x. m = Inr x \<and> f x = Inl p)"
  by (cases m) simp_all

lemma rbind_cong [fundef_cong]:
  "m = m' \<Longrightarrow> (\<And>x. m' = Inr x \<Longrightarrow> f x = f' x) \<Longrightarrow> rbind m f = rbind m' f'"
  by (cases m') simp_all

lemma guard_True [simp, res_simps]: "guard p True = Inr ()"
  and guard_False [simp, res_simps]: "guard p False = Inl p"
  by (simp_all add: guard_def)

lemma guard_eq_Inr [simp, res_simps]: "guard p b = Inr u \<longleftrightarrow> b"
  and guard_eq_Inl [simp, res_simps]: "guard p b = Inl q \<longleftrightarrow> \<not> b \<and> p = q"
  by (auto simp: guard_def)

lemma unwrap_simps [simp, res_simps]:
  "unwrap None = Inl UnwrapNone" "unwrap (Some v) = Inr v"
  by (simp_all add: unwrap_def)

lemma unwrap_eq_Inr [res_simps]: "unwrap x = Inr v \<longleftrightarrow> x = Some v"
  by (cases x) simp_all

lemma returns_simps [simp]: "returns None = Inl Diverges" "returns (Some r) = r"
  by (simp_all add: returns_def)

lemma returns_eq_Inr: "returns x = Inr v \<longleftrightarrow> x = Some (Inr v)"
  by (cases x) simp_all

lemma rfold_append: "rfold f (xs @ ys) s = rbind (rfold f xs s) (rfold f ys)"
proof (induction xs arbitrary: s)
  case (Cons x xs)
  then show ?case by (cases "f x s") simp_all
qed simp

lemma map_sum_eq_Inr: "map_sum f g x = Inr y \<Longrightarrow> \<exists>z. x = Inr z \<and> g z = y"
  by (cases x) simp_all

text \<open>The invariant rule of a loop: kept by every iteration, it holds after the loop.\<close>

lemma rfold_invariant:
  assumes "rfold f xs s = Inr t" and "P s"
    and "\<And>x s s'. x \<in> set xs \<Longrightarrow> P s \<Longrightarrow> f x s = Inr s' \<Longrightarrow> P s'"
  shows "P t"
  using assms
proof (induction xs arbitrary: s)
  case (Cons x xs)
  then obtain s' where "f x s = Inr s'" and "rfold f xs s' = Inr t"
    by (auto simp: rbind_eq_Inr)
  with Cons show ?case by (metis list.set_intros)
qed simp

text \<open>The total version: every iteration from a good state returns a good state.\<close>

lemma rfold_total:
  assumes "P s" and "\<And>x s. x \<in> set xs \<Longrightarrow> P s \<Longrightarrow> \<exists>s'. f x s = Inr s' \<and> P s'"
  shows "\<exists>t. rfold f xs s = Inr t \<and> P t"
  using assms
proof (induction xs arbitrary: s)
  case (Cons x xs)
  from Cons.prems obtain s' where "f x s = Inr s'" and "P s'" by fastforce
  with Cons show ?case by simp
qed simp

lemma rfold_pure: "rfold (\<lambda>x s. Inr (g x s)) xs s = Inr (fold g xs s)"
  by (induction xs arbitrary: s) simp_all

lemma rfilter_Inr: "(\<And>x. x \<in> set xs \<Longrightarrow> p x = Inr (q x)) \<Longrightarrow> rfilter p xs = Inr (filter q xs)"
  by (induction xs) simp_all

lemma rfilter_eq_Inr:
  "rfilter p xs = Inr ys \<Longrightarrow>
     (\<forall>x \<in> set xs. \<exists>b. p x = Inr b) \<and> ys = filter (\<lambda>x. p x = Inr True) xs"
  by (induction xs arbitrary: ys) (auto simp: rbind_eq_Inr)

subsection \<open>Machine arithmetic\<close>

lemma unat_add_lt: "unat a + unat b < 2 ^ LENGTH('a) \<Longrightarrow> unat (a + b) = unat a + unat b"
  for a b :: "'a::len word"
  by (simp add: unat_word_ariths)

lemma unat_mult_lt: "unat a * unat b < 2 ^ LENGTH('a) \<Longrightarrow> unat (a * b) = unat a * unat b"
  for a b :: "'a::len word"
  by (simp add: unat_word_ariths)

lemma checked_add_eq_Inr [res_simps]:
  "checked_add a b = Inr c \<longleftrightarrow> unat a + unat b < 2 ^ LENGTH('a) \<and> c = a + b"
  for a b :: "'a::len word"
  by (auto simp: checked_add_def)

text \<open>The overflow test as the machine does it; evaluation uses this form.\<close>

lemma checked_add_code [code]:
  "checked_add a b = (if a \<le> a + b then Inr (a + b) else Inl ArithOverflow)"
  by (simp add: checked_add_def no_plus_overflow_unat_size word_size)

lemma checked_sub_eq_Inr [res_simps]: "checked_sub a b = Inr c \<longleftrightarrow> b \<le> a \<and> c = a - b"
  by (auto simp: checked_sub_def)

lemma checked_mul_eq_Inr [res_simps]:
  "checked_mul a b = Inr c \<longleftrightarrow> unat a * unat b < 2 ^ LENGTH('a) \<and> c = a * b"
  for a b :: "'a::len word"
  by (auto simp: checked_mul_def)

lemma checked_mul_code [code]:
  "checked_mul a b = (if uint a * uint b < 2 ^ LENGTH('a) then Inr (a * b) else Inl ArithOverflow)"
  for a b :: "'a::len word"
proof -
  have "int (unat a * unat b) < int (2 ^ LENGTH('a)) \<longleftrightarrow> uint a * uint b < 2 ^ LENGTH('a)"
    by simp
  then have "unat a * unat b < 2 ^ LENGTH('a) \<longleftrightarrow> uint a * uint b < 2 ^ LENGTH('a)"
    by (simp only: of_nat_less_iff)
  then show ?thesis by (simp add: checked_mul_def)
qed

lemma checked_rem_eq_Inr [res_simps]: "checked_rem a b = Inr c \<longleftrightarrow> b \<noteq> 0 \<and> c = a mod b"
  by (auto simp: checked_rem_def)

lemma checked_div_eq_Inr [res_simps]: "checked_div a b = Inr c \<longleftrightarrow> b \<noteq> 0 \<and> c = a div b"
  by (auto simp: checked_div_def)

lemma checked_succ:
  assumes "w \<noteq> (- 1 :: 'a::len word)"
  shows "checked_add w 1 = Inr (w + 1)" and "unat (w + 1) = unat w + 1"
proof -
  have "w < - 1" using assms word_order.not_eq_extremum by blast
  then have "unat w < unat (- 1 :: 'a word)" by (simp only: word_less_nat_alt)
  then have lt: "unat w + 1 < 2 ^ LENGTH('a)"
    by (simp add: unsigned_minus_1_eq_mask mask_eq_exp_minus_1)
  then show "checked_add w 1 = Inr (w + 1)" by (simp add: checked_add_def)
  show "unat (w + 1) = unat w + 1" using unat_add_lt [of w 1] lt by simp
qed

lemma less_succ: "w \<noteq> (- 1 :: 'a::len word) \<Longrightarrow> w < w + 1"
  by (simp add: word_less_nat_alt checked_succ(2))

lemma unat_saturating_sub: "unat (saturating_sub a b) = unat a - unat b"
  by (auto simp: saturating_sub_def unat_sub word_le_nat_alt)

lemma checked_sum_eq:
  "checked_sum acc xs =
     (if unat acc + (\<Sum>x\<leftarrow>xs. unat x) < 2 ^ LENGTH('a) then Inr (acc + sum_list xs)
      else Inl ArithOverflow)"
  for acc :: "'a::len word"
proof (induction xs arbitrary: acc)
  case (Cons x xs)
  show ?case
  proof (cases "unat acc + unat x < 2 ^ LENGTH('a)")
    case True
    then show ?thesis
      by (simp add: checked_add_def Cons.IH unat_add_lt add.assoc)
  next
    case False
    then show ?thesis by (simp add: checked_add_def)
  qed
qed simp

lemma unat_sum_list:
  "(\<Sum>x\<leftarrow>xs. unat x) < 2 ^ LENGTH('a) \<Longrightarrow> unat (sum_list xs) = (\<Sum>x\<leftarrow>xs. unat x)"
  for xs :: "'a::len word list"
  by (induction xs) (auto simp: unat_add_lt)

lemma word_of_nat_eqI: "unat w = n \<Longrightarrow> word_of_nat n = w"
  by auto

lemma word_of_nat_inject_lt:
  "m < 2 ^ LENGTH('a) \<Longrightarrow> n < 2 ^ LENGTH('a) \<Longrightarrow>
     (word_of_nat m :: 'a::len word) = word_of_nat n \<longleftrightarrow> m = n"
  by (metis mod_less unat_of_nat)

lemma length_le_bytes [simp]: "length (le_bytes n w) = n"
  by (induction n arbitrary: w) simp_all

subsection \<open>Lists and sums\<close>

lemma sum_fset_le:
  fixes g :: "'a \<Rightarrow> nat"
  shows "finite B \<Longrightarrow> A \<subseteq> B \<Longrightarrow> sum g A \<le> sum g B"
  by (rule sum_mono2) auto

lemma sum_Int_ge:
  fixes g :: "'a \<Rightarrow> nat"
  assumes "finite U" and "A \<subseteq> U" and "B \<subseteq> U"
  shows "sum g A + sum g B \<le> sum g U + sum g (A \<inter> B)"
proof -
  have fin: "finite A" "finite B" using assms finite_subset by auto
  have "sum g A + sum g B = sum g (A \<union> B) + sum g (A \<inter> B)"
    using sum.union_inter [OF fin, of g] by simp
  moreover have "sum g (A \<union> B) \<le> sum g U"
    using assms by (intro sum_fset_le) auto
  ultimately show ?thesis by simp
qed

end
