(* ===== verification/Ordered_Map.thy ===== *)
theory Ordered_Map
  imports Rust_Prelude "HOL-Library.Finite_Map"
begin

text \<open>
  The ordered associative containers of the standard library: \<^verbatim>\<open>BTreeMap\<close>, and
  \<^verbatim>\<open>HashMap\<close> where a map is iterated (its unspecified iteration order is fixed to the
  key order here; the operations that iterate one return results that do not depend on the
  order). A map is a finite map, so that two maps with the same lookups are equal; its entries are
  listed in strictly ascending key order. For evaluation a map is kept as an association list in
  that order.

  The locale \<open>ordered_map\<close> is the interface the component theories rely on; it is interpreted
  on the operations at the end.
\<close>

section \<open>Strictly sorted association lists\<close>

fun ins_entry :: "'k::linorder \<Rightarrow> 'v \<Rightarrow> ('k \<times> 'v) list \<Rightarrow> ('k \<times> 'v) list" where
  "ins_entry k v [] = [(k, v)]"
| "ins_entry k v ((k', v') # es) =
     (if k < k' then (k, v) # (k', v') # es
      else if k = k' then (k, v) # es
      else (k', v') # ins_entry k v es)"

abbreviation ascending :: "('k::linorder \<times> 'v) list \<Rightarrow> bool" where
  "ascending es \<equiv> sorted_wrt (<) (map fst es)"

lemma fst_ins_entry: "fst ` set (ins_entry k v es) = insert k (fst ` set es)"
  by (induction k v es rule: ins_entry.induct) auto

lemma ball_ins_entry:
  "(\<forall>e \<in> set (ins_entry k v es). P (fst e)) \<longleftrightarrow> P k \<and> (\<forall>e \<in> set es. P (fst e))"
  using fst_ins_entry [of k v es] by (metis (no_types, lifting) imageE image_eqI insert_iff)

lemma ascending_ins_entry: "ascending es \<Longrightarrow> ascending (ins_entry k v es)"
  by (induction k v es rule: ins_entry.induct) (auto simp: ball_ins_entry)

lemma map_of_ins_entry: "map_of (ins_entry k v es) = (map_of es)(k \<mapsto> v)"
  by (induction k v es rule: ins_entry.induct) (auto simp: fun_eq_iff)

lemma ascending_distinct: "ascending es \<Longrightarrow> distinct (map fst es)"
  by (simp add: strict_sorted_iff)

lemma ascending_map_of_inject:
  assumes "ascending es" and "ascending es'" and "map_of es = map_of es'"
  shows "es = es'"
proof -
  have d: "distinct (map fst es)" "distinct (map fst es')"
    using assms by (simp_all add: ascending_distinct)
  with assms(3) have eq: "set es = set es'" by (simp add: map_of_inject_set)
  moreover have "inj_on fst (set es)"
    using d(1) by (simp add: distinct_map)
  ultimately show ?thesis
    using assms d by (intro map_sorted_distinct_set_unique [where f = fst])
      (simp_all add: strict_sorted_iff)
qed

section \<open>The type of ordered maps\<close>

type_synonym ('k, 'v) omap = "('k, 'v) fmap"

definition om_empty :: "('k, 'v) omap" where
  "om_empty = fmempty"

definition om_get :: "('k, 'v) omap \<Rightarrow> 'k \<Rightarrow> 'v option" where
  "om_get m k = fmlookup m k"

definition om_insert :: "'k::linorder \<Rightarrow> 'v \<Rightarrow> ('k, 'v) omap \<Rightarrow> ('k, 'v) omap" where
  "om_insert k v m = fmupd k v m"

definition entries :: "('k::linorder, 'v) omap \<Rightarrow> ('k \<times> 'v) list" where
  "entries m = map (\<lambda>k. (k, the (fmlookup m k))) (sorted_list_of_fset (fmdom m))"

definition om_filter_keys :: "('k \<Rightarrow> bool) \<Rightarrow> ('k, 'v) omap \<Rightarrow> ('k, 'v) omap" where
  "om_filter_keys P m = fmfilter P m"

definition om_map_values :: "('k \<Rightarrow> 'v \<Rightarrow> 'w) \<Rightarrow> ('k, 'v) omap \<Rightarrow> ('k, 'w) omap" where
  "om_map_values f m = fmmap_keys f m"

definition om_remove :: "'k::linorder \<Rightarrow> ('k, 'v) omap \<Rightarrow> ('k, 'v) omap" where
  "om_remove k m = om_filter_keys (\<lambda>k'. k' \<noteq> k) m"

definition om_contains :: "('k::linorder, 'v) omap \<Rightarrow> 'k \<Rightarrow> bool" where
  "om_contains m k = (om_get m k \<noteq> None)"

definition om_keys :: "('k::linorder, 'v) omap \<Rightarrow> 'k list" where
  "om_keys m = map fst (entries m)"

definition om_values :: "('k::linorder, 'v) omap \<Rightarrow> 'v list" where
  "om_values m = map snd (entries m)"

definition om_len :: "('k::linorder, 'v) omap \<Rightarrow> nat" where
  "om_len m = length (entries m)"

text \<open>\<^verbatim>\<open>get_or d m k\<close> is the value \<^verbatim>\<open>entry(k).or_insert(d)\<close> refers to.\<close>

definition get_or :: "'v \<Rightarrow> ('k::linorder, 'v) omap \<Rightarrow> 'k \<Rightarrow> 'v" where
  "get_or d m k = (case om_get m k of None \<Rightarrow> d | Some v \<Rightarrow> v)"

definition om_collect :: "('k::linorder \<times> 'v) list \<Rightarrow> ('k, 'v) omap" where
  "om_collect kvs = fold (\<lambda>(k, v). om_insert k v) kvs om_empty"

section \<open>The interface\<close>

locale ordered_map =
  fixes emp :: "'m"
    and get :: "'m \<Rightarrow> 'k::linorder \<Rightarrow> 'v option"
    and ins :: "'k \<Rightarrow> 'v \<Rightarrow> 'm \<Rightarrow> 'm"
    and rem :: "'k \<Rightarrow> 'm \<Rightarrow> 'm"
    and ents :: "'m \<Rightarrow> ('k \<times> 'v) list"
  assumes get_emp: "get emp k = None"
    and get_ins: "get (ins k v m) k' = (if k' = k then Some v else get m k')"
    and get_rem: "get (rem k m) k' = (if k' = k then None else get m k')"
    and ents_get: "(k, v) \<in> set (ents m) \<longleftrightarrow> get m k = Some v"
    and ents_ascending: "ascending (ents m)"
    and get_ext: "(\<And>k. get m k = get m' k) \<Longrightarrow> m = m'"
begin

lemma ins_rem: "ins k v (rem k m) = ins k v m"
  by (rule get_ext) (simp add: get_ins get_rem)

lemma ins_ins: "ins k v (ins k w m) = ins k v m"
  by (rule get_ext) (simp add: get_ins)

lemma ins_same: "get m k = Some v \<Longrightarrow> ins k v m = m"
  by (rule get_ext) (simp add: get_ins)

lemma rem_absent: "get m k = None \<Longrightarrow> rem k m = m"
  by (rule get_ext) (simp add: get_rem)

lemma ents_distinct: "distinct (map fst (ents m))"
  using ents_ascending by (rule ascending_distinct)

lemma keys_ents: "k \<in> fst ` set (ents m) \<longleftrightarrow> (\<exists>v. get m k = Some v)"
  by (force simp: ents_get [symmetric])

text \<open>Inserting a list of entries, last one winning, as \<^verbatim>\<open>collect\<close> and \<^verbatim>\<open>extend\<close> do.\<close>

lemma get_fold_ins:
  "get (fold (\<lambda>(k, v). ins k v) kvs m) k =
     (case map_of (rev kvs) k of None \<Rightarrow> get m k | Some v \<Rightarrow> Some v)"
  by (induction kvs arbitrary: m) (auto simp: get_ins map_add_def split: option.splits)

lemma get_fold_ins_in:
  assumes "get (fold (\<lambda>(k, v). ins k v) kvs m) k = Some v"
  shows "(k, v) \<in> set kvs \<or> get m k = Some v"
  using assms by (auto simp: get_fold_ins dest: map_of_SomeD split: option.splits)

lemma get_fold_ins_dom:
  "(\<exists>v. get (fold (\<lambda>(k, v). ins k v) kvs m) k = Some v) \<longleftrightarrow>
     k \<in> fst ` set kvs \<or> (\<exists>v. get m k = Some v)"
  by (auto simp: get_fold_ins map_of_eq_None_iff weak_map_of_SomeI split: option.splits)
     (metis map_of_eq_None_iff fst_conv image_eqI option.distinct(1) set_rev)+

end

section \<open>The interpretation\<close>

lemma om_get_empty [simp]: "om_get om_empty k = None"
  by (simp add: om_get_def om_empty_def)

lemma om_get_insert [simp]: "om_get (om_insert k v m) k' = (if k' = k then Some v else om_get m k')"
  by (simp add: om_get_def om_insert_def)

lemma om_get_filter_keys [simp]:
  "om_get (om_filter_keys P m) k = (if P k then om_get m k else None)"
  by (simp add: om_get_def om_filter_keys_def)

lemma om_get_remove [simp]: "om_get (om_remove k m) k' = (if k' = k then None else om_get m k')"
  by (simp add: om_remove_def)

lemma om_get_map_values [simp]: "om_get (om_map_values f m) k = map_option (f k) (om_get m k)"
  by (simp add: om_get_def om_map_values_def)

lemma set_entries: "(k, v) \<in> set (entries m) \<longleftrightarrow> om_get m k = Some v"
  by (force simp: entries_def om_get_def fmlookup_dom_iff)

lemma ascending_entries: "ascending (entries m)"
  by (simp add: entries_def comp_def sorted_list_of_fset.rep_eq)

lemma om_ext: "(\<And>k. om_get m k = om_get m' k) \<Longrightarrow> m = m'"
  by (rule fmap_ext) (simp add: om_get_def)

lemma entries_unique:
  assumes "ascending es" and "map_of es = om_get m"
  shows "es = entries m"
proof (rule ascending_map_of_inject [OF assms(1) ascending_entries])
  have "map_of (entries m) k = om_get m k" for k
    using ascending_distinct [OF ascending_entries, of m] set_entries [of k _ m]
    by (cases "om_get m k") (auto simp: map_of_eq_Some_iff map_of_eq_None_iff)
  with assms(2) show "map_of es = map_of (entries m)" by auto
qed

text \<open>Evaluation on association lists.\<close>

lemma om_insert_code [code]: "om_insert k v (fmap_of_list es) = fmap_of_list (ins_entry k v es)"
  by (rule om_ext) (simp add: om_get_def om_insert_def fmlookup_of_list map_of_ins_entry)

lemma entries_code [code]: "entries (fmap_of_list es) = foldr (\<lambda>(k, v). ins_entry k v) es []"
proof (rule entries_unique [symmetric])
  show "ascending (foldr (\<lambda>(k, v). ins_entry k v) es [])"
    by (induction es) (auto intro: ascending_ins_entry)
  show "map_of (foldr (\<lambda>(k, v). ins_entry k v) es []) = om_get (fmap_of_list es)"
    by (induction es) (auto simp: map_of_ins_entry om_get_def fmlookup_of_list fun_eq_iff)
qed

interpretation om: ordered_map om_empty om_get om_insert om_remove entries
  by unfold_locales (simp_all add: set_entries ascending_entries om_ext)

lemma om_contains_iff: "om_contains m k \<longleftrightarrow> (\<exists>v. om_get m k = Some v)"
  by (simp add: om_contains_def)

lemma set_om_keys: "k \<in> set (om_keys m) \<longleftrightarrow> om_contains m k"
  by (simp add: om_keys_def om_contains_iff om.keys_ents)

lemma set_om_values: "v \<in> set (om_values m) \<longleftrightarrow> (\<exists>k. om_get m k = Some v)"
  by (force simp: om_values_def set_entries [symmetric])

lemma distinct_om_keys: "distinct (om_keys m)"
  by (simp add: om_keys_def om.ents_distinct)

lemma sorted_om_keys: "sorted_wrt (<) (om_keys m)"
  by (simp add: om_keys_def ascending_entries)

lemma entries_filter_keys: "entries (om_filter_keys P m) = filter (\<lambda>e. P (fst e)) (entries m)"
proof (rule entries_unique [symmetric])
  have "sorted_wrt (\<lambda>x y. fst x < fst y) (entries m)"
    using ascending_entries [of m] by (simp add: sorted_wrt_map)
  then show asc: "ascending (filter (\<lambda>e. P (fst e)) (entries m))"
    by (simp add: sorted_wrt_map sorted_wrt_filter)
  have "map_of (filter (\<lambda>e. P (fst e)) (entries m)) k = om_get (om_filter_keys P m) k" for k
    using ascending_distinct [OF asc] set_entries [of k _ m]
    by (cases "om_get (om_filter_keys P m) k") (auto simp: map_of_eq_Some_iff map_of_eq_None_iff split: if_splits)
  then show "map_of (filter (\<lambda>e. P (fst e)) (entries m)) = om_get (om_filter_keys P m)" by auto
qed

lemma om_contains_insert [simp]: "om_contains (om_insert k v m) k' \<longleftrightarrow> k' = k \<or> om_contains m k'"
  by (simp add: om_contains_def)

lemma om_contains_remove [simp]: "om_contains (om_remove k m) k' \<longleftrightarrow> k' \<noteq> k \<and> om_contains m k'"
  by (simp add: om_contains_def)

lemma om_contains_empty [simp]: "\<not> om_contains om_empty k"
  by (simp add: om_contains_def)

lemma get_or_simps [simp]:
  "om_get m k = None \<Longrightarrow> get_or d m k = d" "om_get m k = Some v \<Longrightarrow> get_or d m k = v"
  by (simp_all add: get_or_def)

lemma om_len_card: "om_len m = card {k. om_contains m k}"
proof -
  have "om_len m = card (set (om_keys m))"
    unfolding distinct_card [OF distinct_om_keys] by (simp add: om_len_def om_keys_def)
  also have "set (om_keys m) = {k. om_contains m k}" by (auto simp: set_om_keys)
  finally show ?thesis .
qed

lemma finite_om_contains [simp]: "finite {k. om_contains m k}"
  by (rule finite_subset [OF _ finite_set [of "om_keys m"]]) (auto simp: set_om_keys)

lemma om_len_remove: "om_contains m k \<Longrightarrow> om_len m = Suc (om_len (om_remove k m))"
proof -
  assume k: "om_contains m k"
  have "{x. om_contains (om_remove k m) x} = {x. om_contains m x} - {k}" by auto
  with card_Suc_Diff1 [OF finite_om_contains, of k m] k show ?thesis
    by (simp add: om_len_card)
qed

lemma om_len_empty [simp]: "om_len om_empty = 0"
  by (simp add: om_len_card)

lemma om_get_collect_in: "om_get (om_collect kvs) k = Some v \<Longrightarrow> (k, v) \<in> set kvs"
  unfolding om_collect_def by (drule om.get_fold_ins_in) simp

lemma om_contains_collect: "om_contains (om_collect kvs) k \<longleftrightarrow> k \<in> fst ` set kvs"
  unfolding om_collect_def om_contains_iff by (simp only: om.get_fold_ins_dom) simp

end
