(* ===== verification/Shared_Types.thy ===== *)
theory Shared_Types
  imports Ordered_Map
begin

text \<open>
  \<^verbatim>\<open>crates/shared/src/lib.rs\<close>: the types that cross crate boundaries. The primitive types come
  from \<^verbatim>\<open>revm\<close>: addresses have 160 bits, hashes, storage keys and values 256 bits. A name that
  consensus uses for its own type of a different width carries the prefix \<open>Shared\<close>. Hash maps and
  sets are only accessed by key, so ordered maps and finite sets model them.
\<close>

type_synonym Address = "160 word"
type_synonym B256 = u256
type_synonym StorageKey = u256
type_synonym StorageValue = u256

type_synonym SharedRound = u64
type_synonym SharedAuthorityIndex = u64
type_synonym TxHash = B256
type_synonym SharedBlockDigest = B256

datatype EthSignedTx = EthSignedTx (tx_raw: "u8 list")

record SharedBlockRef =
  sbr_round :: SharedRound
  sbr_author :: SharedAuthorityIndex
  sbr_digest :: SharedBlockDigest

section \<open>Consensus events\<close>

record OurVerifiedBlock =
  ovb_block_ref :: SharedBlockRef
  ovb_txs :: "EthSignedTx list"

record OurCommittedSubDag =
  osd_leader :: SharedBlockRef
  osd_blocks :: "OurVerifiedBlock list"
  osd_timestamp_ms :: u64
  osd_commit_index :: u64

datatype ConsensusEvent =
    SoftCommit SharedRound SharedBlockRef "EthSignedTx list"
  | HardCommit OurCommittedSubDag

section \<open>Scheduler, executor and state\<close>

record TxBatch =
  tb_round :: SharedRound
  tb_commit_index :: u64
  tb_txs :: "EthSignedTx list"
  tb_is_optimistic :: bool

record AccountDiff =
  ad_balance :: "u256 option"
  ad_nonce :: "u64 option"
  ad_code :: "u8 list option"
  ad_storage :: "(StorageKey, StorageValue) omap"

definition AccountDiff_default :: AccountDiff where
  "AccountDiff_default = \<lparr>ad_balance = None, ad_nonce = None, ad_code = None, ad_storage = om_empty\<rparr>"

record StateDiff =
  stdf_round :: SharedRound
  stdf_commit_index :: u64
  stdf_is_optimistic :: bool
  stdf_changes :: "(Address, AccountDiff) omap"

datatype TxExecutionResult =
    Success TxHash u64
  | Revert TxHash u64 "u8 list"
  | Invalid TxHash string

record RoundExecutionResult =
  rer_round :: SharedRound
  rer_commit_index :: u64
  rer_is_optimistic :: bool
  rer_results :: "TxExecutionResult list"
  rer_state_diff :: StateDiff
  rer_conflict_txs :: "nat list"

datatype BackpressureSignal = SlowDown | Resume

type_synonym ReadSet = "(Address \<times> StorageKey) fset"
type_synonym WriteSet = "(Address \<times> StorageKey, StorageValue) omap"

datatype ConsensusError = ConsensusError string
datatype ExecutorError = ExecutorError string
datatype CommitError = CommitError string
datatype DbError = DbError string

section \<open>Views of an event sequence\<close>

fun hard_subdag :: "ConsensusEvent \<Rightarrow> OurCommittedSubDag option" where
  "hard_subdag (HardCommit subdag) = Some subdag"
| "hard_subdag (SoftCommit _ _ _) = None"

definition hard_commits :: "ConsensusEvent list \<Rightarrow> OurCommittedSubDag list" where
  "hard_commits evs = List.map_filter hard_subdag evs"

fun is_soft :: "ConsensusEvent \<Rightarrow> bool" where
  "is_soft (SoftCommit _ _ _) = True"
| "is_soft (HardCommit _) = False"

lemma hard_commits_simps [simp]:
  "hard_commits [] = []"
  "hard_commits (evs @ evs') = hard_commits evs @ hard_commits evs'"
  "hard_commits (SoftCommit r l txs # evs) = hard_commits evs"
  "hard_commits (HardCommit s # evs) = s # hard_commits evs"
  by (simp_all add: hard_commits_def List.map_filter_def)

end
