(* ===== verification/Shadow_State.thy ===== *)
theory Shadow_State
  imports Shared_Types
begin

text \<open>
  \<^verbatim>\<open>crates/shadow-state/src/lib.rs\<close>: the multi-version shadow database. Every round has a layer
  with the versions its transactions wrote, the readers of each version and the values read; reads
  search the layers newest first and fall back to the canonical database.

  The types of \<^verbatim>\<open>revm\<close> enter with exactly what the code reads of them: an account has its
  information (a type parameter) and storage slots, a slot the answer of \<^verbatim>\<open>is_changed\<close> and its
  present value. The canonical database is a parameter: a record of the operations of
  \<^verbatim>\<open>DatabaseRef\<close> and \<^verbatim>\<open>DatabaseCommit\<close> on a type of its own. Locks and atomics make every
  operation one atomic step, so operations are functions of the state.
\<close>

section \<open>Data\<close>

type_synonym TxIndex = usize
type_synonym SlotKey = "Address \<times> StorageKey"

datatype VersionedValue = Data StorageValue | Pending | Absent

record SlotVersions =
  sv_versions :: "(TxIndex, VersionedValue) omap"
  sv_readers :: "(TxIndex, TxIndex list) omap"

definition SlotVersions_default :: SlotVersions where
  "SlotVersions_default = \<lparr>sv_versions = om_empty, sv_readers = om_empty\<rparr>"

datatype LayerStatus = Speculative | PendingCommit

record 'info ShadowAccountDiff =
  sad_info :: 'info

record 'info RoundLayer =
  rl_commit_index :: u64
  rl_status :: LayerStatus
  rl_slot_versions :: "(SlotKey, SlotVersions) omap"
  rl_account_versions :: "(Address, (TxIndex, 'info ShadowAccountDiff) omap) omap"
  rl_pending_txs :: "EthSignedTx list option"
  rl_tx_reads :: "(TxIndex, (SlotKey, StorageValue) omap) omap"

definition RoundLayer_new :: "u64 \<Rightarrow> 'info RoundLayer" where
  "RoundLayer_new commit_index =
     \<lparr>rl_commit_index = commit_index, rl_status = Speculative, rl_slot_versions = om_empty, rl_account_versions = om_empty,
      rl_pending_txs = None, rl_tx_reads = om_empty\<rparr>"

datatype ShadowCommitError = OutOfOrder | LayerNotFound

record CommitHandle =
  ch_commit_index :: u64
  ch_conflicts :: "TxIndex list"
  ch_reexec_queue :: "EthSignedTx list"

record 'changes RoundDiff =
  rd_changes :: 'changes

record ('db, 'info) ShadowDb =
  sd_canonical :: 'db
  sd_layers :: "(u64, 'info RoundLayer) omap"
  sd_current_tx :: TxIndex
  sd_current_commit_index :: u64
  sd_coinbase :: Address
  sd_last_finalized :: "u64 option"

text \<open>What the code reads of a storage slot and an account of \<^verbatim>\<open>revm\<close>.\<close>

record EvmSlot =
  slot_is_changed :: bool
  slot_present_value :: StorageValue

record 'info EvmAccount =
  acc_info :: 'info
  acc_storage :: "(StorageKey, EvmSlot) omap"

type_synonym 'info EvmState = "(Address, 'info EvmAccount) omap"

text \<open>The operations of the canonical database; \<^verbatim>\<open>db_error\<close> is the text of an error.\<close>

record ('db, 'info, 'code, 'err, 'changes) Database =
  db_storage_ref :: "'db \<Rightarrow> Address \<Rightarrow> StorageKey \<Rightarrow> 'err + StorageValue"
  db_basic_ref :: "'db \<Rightarrow> Address \<Rightarrow> 'err + 'info option"
  db_code_by_hash_ref :: "'db \<Rightarrow> B256 \<Rightarrow> 'err + 'code"
  db_block_hash_ref :: "'db \<Rightarrow> u64 \<Rightarrow> 'err + B256"
  db_commit :: "'changes \<Rightarrow> 'db \<Rightarrow> 'db"
  db_error :: "'err \<Rightarrow> string"

section \<open>Operations\<close>

definition shadow_new :: "'db \<Rightarrow> Address \<Rightarrow> ('db, 'info) ShadowDb" where
  "shadow_new canonical coinbase =
     \<lparr>sd_canonical = canonical, sd_layers = om_empty, sd_current_tx = 0, sd_current_commit_index = 0,
      sd_coinbase = coinbase, sd_last_finalized = None\<rparr>"

definition set_current_tx :: "u64 \<Rightarrow> TxIndex \<Rightarrow> ('db, 'info) ShadowDb \<Rightarrow> ('db, 'info) ShadowDb" where
  "set_current_tx commit_index tx_idx db = db\<lparr>sd_current_commit_index := commit_index, sd_current_tx := tx_idx\<rparr>"

text \<open>\<^verbatim>\<open>entry(k).or_insert(d)\<close>: the map with the entry.\<close>

definition om_or_insert :: "'v \<Rightarrow> 'k::linorder \<Rightarrow> ('k, 'v) omap \<Rightarrow> ('k, 'v) omap" where
  "om_or_insert d k m = om_insert k (get_or d m k) m"

definition ensure_layer :: "u64 \<Rightarrow> ('db, 'info) ShadowDb \<Rightarrow> ('db, 'info) ShadowDb" where
  "ensure_layer commit_index db = db\<lparr>sd_layers := om_or_insert (RoundLayer_new commit_index) commit_index (sd_layers db)\<rparr>"

subsection \<open>Recording executions\<close>

definition record_slot :: "TxIndex \<Rightarrow> Address \<Rightarrow> StorageKey \<times> EvmSlot \<Rightarrow> 'info RoundLayer \<Rightarrow> 'info RoundLayer" where
  "record_slot tx_idx addr e layer =
     (case e of (slot_key, slot) \<Rightarrow>
        if slot_is_changed slot then
          let sv = get_or SlotVersions_default (rl_slot_versions layer) (addr, slot_key);
              sv' = \<lparr>sv_versions = om_insert tx_idx (Data (slot_present_value slot)) (sv_versions sv),
                     sv_readers = om_or_insert [] tx_idx (sv_readers sv)\<rparr>
          in layer\<lparr>rl_slot_versions := om_insert (addr, slot_key) sv' (rl_slot_versions layer)\<rparr>
        else layer)"

definition record_account :: "Address \<Rightarrow> TxIndex \<Rightarrow> Address \<times> 'info EvmAccount \<Rightarrow> 'info RoundLayer \<Rightarrow> 'info RoundLayer" where
  "record_account coinbase tx_idx e layer =
     (case e of (addr, account) \<Rightarrow>
        let layer1 = (if addr \<noteq> coinbase then
              layer\<lparr>rl_account_versions := om_insert addr
                (om_insert tx_idx \<lparr>sad_info = acc_info account\<rparr> (get_or om_empty (rl_account_versions layer) addr))
                (rl_account_versions layer)\<rparr>
            else layer)
        in fold (record_slot tx_idx addr) (entries (acc_storage account)) layer1)"

definition record_state :: "Address \<Rightarrow> TxIndex \<Rightarrow> 'info EvmState \<Rightarrow> 'info RoundLayer \<Rightarrow> 'info RoundLayer" where
  "record_state coinbase tx_idx evm_state layer = fold (record_account coinbase tx_idx) (entries evm_state) layer"

definition record_tx_execution ::
  "u64 \<Rightarrow> TxIndex \<Rightarrow> 'info EvmState \<Rightarrow> ('db, 'info) ShadowDb \<Rightarrow> ('db, 'info) ShadowDb"
where
  "record_tx_execution commit_index tx_idx evm_state db =
     (let layer = get_or (RoundLayer_new commit_index) (sd_layers db) commit_index
      in db\<lparr>sd_layers := om_insert commit_index (record_state (sd_coinbase db) tx_idx evm_state layer) (sd_layers db)\<rparr>)"

definition abort_slot :: "TxIndex \<Rightarrow> SlotVersions \<Rightarrow> SlotVersions" where
  "abort_slot tx_idx sv =
     \<lparr>sv_versions = (case om_get (sv_versions sv) tx_idx of
          Some _ \<Rightarrow> om_insert tx_idx Pending (sv_versions sv) | None \<Rightarrow> sv_versions sv),
      sv_readers = (case om_get (sv_readers sv) tx_idx of
          Some _ \<Rightarrow> om_insert tx_idx [] (sv_readers sv) | None \<Rightarrow> sv_readers sv)\<rparr>"

definition slot_readers :: "TxIndex \<Rightarrow> SlotVersions \<Rightarrow> TxIndex list" where
  "slot_readers tx_idx sv = (case om_get (sv_readers sv) tx_idx of Some readers \<Rightarrow> readers | None \<Rightarrow> [])"

text \<open>\<^verbatim>\<open>sort_unstable\<close> followed by \<^verbatim>\<open>dedup\<close>.\<close>

definition sort_dedup :: "TxIndex list \<Rightarrow> TxIndex list" where
  "sort_dedup xs = remdups_adj (sort xs)"

definition abort_tx :: "u64 \<Rightarrow> TxIndex \<Rightarrow> ('db, 'info) ShadowDb \<Rightarrow> ('db, 'info) ShadowDb \<times> TxIndex list" where
  "abort_tx commit_index tx_idx db =
     (case om_get (sd_layers db) commit_index of
        None \<Rightarrow> (db, [])
      | Some layer \<Rightarrow>
          let notified = concat (map (slot_readers tx_idx) (om_values (rl_slot_versions layer)));
              layer' = layer\<lparr>rl_slot_versions := om_map_values (\<lambda>_. abort_slot tx_idx) (rl_slot_versions layer)\<rparr>
          in (db\<lparr>sd_layers := om_insert commit_index layer' (sd_layers db)\<rparr>, sort_dedup notified))"

definition clear_slot :: "TxIndex \<Rightarrow> SlotVersions \<Rightarrow> SlotVersions" where
  "clear_slot tx_idx sv = \<lparr>sv_versions = om_remove tx_idx (sv_versions sv), sv_readers = om_remove tx_idx (sv_readers sv)\<rparr>"

definition commit_tx_execution ::
  "u64 \<Rightarrow> TxIndex \<Rightarrow> 'info EvmState \<Rightarrow> ('db, 'info) ShadowDb \<Rightarrow> ('db, 'info) ShadowDb"
where
  "commit_tx_execution commit_index tx_idx evm_state db =
     (case om_get (sd_layers db) commit_index of
        None \<Rightarrow> db
      | Some layer \<Rightarrow>
          let layer1 = layer\<lparr>rl_slot_versions := om_map_values (\<lambda>_. clear_slot tx_idx) (rl_slot_versions layer),
                             rl_tx_reads := om_remove tx_idx (rl_tx_reads layer)\<rparr>
          in db\<lparr>sd_layers := om_insert commit_index (record_state (sd_coinbase db) tx_idx evm_state layer1) (sd_layers db)\<rparr>)"

subsection \<open>Validation\<close>

text \<open>The entries below an index, the last one first: \<^verbatim>\<open>range(..t).rev()\<close>.\<close>

definition below_rev :: "TxIndex \<Rightarrow> (TxIndex, 'v) omap \<Rightarrow> (TxIndex \<times> 'v) list" where
  "below_rev t m = rev (filter (\<lambda>e. fst e < t) (entries m))"

fun find_data :: "(TxIndex \<times> VersionedValue) list \<Rightarrow> (TxIndex \<times> StorageValue) option" where
  "find_data [] = None"
| "find_data ((k, Data v) # es) = Some (k, v)"
| "find_data ((k, _) # es) = find_data es"

definition readlast_in_layer :: "SlotVersions \<Rightarrow> TxIndex \<Rightarrow> StorageValue option" where
  "readlast_in_layer sv tx_idx = map_option snd (find_data (below_rev tx_idx (sv_versions sv)))"

definition stale_read :: "'info RoundLayer \<Rightarrow> TxIndex \<Rightarrow> SlotKey \<times> StorageValue \<Rightarrow> bool" where
  "stale_read layer tx_idx e =
     (case e of (key, expected_val) \<Rightarrow>
        case om_get (rl_slot_versions layer) key of
          None \<Rightarrow> False
        | Some sv \<Rightarrow> readlast_in_layer sv tx_idx \<noteq> Some expected_val)"

definition validate_round :: "u64 \<Rightarrow> ('db, 'info) ShadowDb \<Rightarrow> TxIndex list" where
  "validate_round commit_index db =
     (case om_get (sd_layers db) commit_index of
        None \<Rightarrow> []
      | Some layer \<Rightarrow>
          sort_dedup (map fst (filter (\<lambda>(tx_idx, reads). list_ex (stale_read layer tx_idx) (entries reads))
            (entries (rl_tx_reads layer)))))"

subsection \<open>Invalidation and commit\<close>

definition layer_touches :: "SlotKey fset \<Rightarrow> 'info RoundLayer \<Rightarrow> bool" where
  "layer_touches changed_slots layer =
     (list_ex (\<lambda>key. key |\<in>| changed_slots) (om_keys (rl_slot_versions layer)) \<or>
      list_ex (\<lambda>reads. list_ex (\<lambda>key. key |\<in>| changed_slots) (om_keys reads)) (om_values (rl_tx_reads layer)))"

definition must_invalidate :: "u64 \<Rightarrow> SlotKey fset \<Rightarrow> u64 \<Rightarrow> 'info RoundLayer \<Rightarrow> bool" where
  "must_invalidate base changed_slots ci layer =
     (\<not> ci \<le> base \<and> rl_status layer \<noteq> PendingCommit \<and> layer_touches changed_slots layer)"

definition clear_layer :: "'info RoundLayer \<Rightarrow> 'info RoundLayer" where
  "clear_layer layer = layer\<lparr>rl_slot_versions := om_empty, rl_account_versions := om_empty, rl_tx_reads := om_empty\<rparr>"

definition cascade_invalidate :: "u64 \<Rightarrow> SlotKey fset \<Rightarrow> ('db, 'info) ShadowDb \<Rightarrow> ('db, 'info) ShadowDb \<times> u64 list" where
  "cascade_invalidate base changed_slots db =
     (db\<lparr>sd_layers := om_map_values (\<lambda>ci layer. if must_invalidate base changed_slots ci layer then clear_layer layer else layer)
           (sd_layers db)\<rparr>,
      map fst (filter (\<lambda>(ci, layer). must_invalidate base changed_slots ci layer) (entries (sd_layers db))))"

definition stage_commit :: "u64 \<Rightarrow> TxIndex list \<Rightarrow> ('db, 'info) ShadowDb \<Rightarrow> ('db, 'info) ShadowDb \<times> CommitHandle" where
  "stage_commit commit_index final_tx_order db =
     (let conflicts = validate_round commit_index db in
      case om_get (sd_layers db) commit_index of
        Some layer \<Rightarrow>
          (db\<lparr>sd_layers := om_insert commit_index (layer\<lparr>rl_status := PendingCommit\<rparr>) (sd_layers db)\<rparr>,
           \<lparr>ch_commit_index = commit_index, ch_conflicts = conflicts,
            ch_reexec_queue = (case rl_pending_txs layer of Some txs \<Rightarrow> txs | None \<Rightarrow> [])\<rparr>)
      | None \<Rightarrow> (db, \<lparr>ch_commit_index = commit_index, ch_conflicts = conflicts, ch_reexec_queue = []\<rparr>))"

definition finalize_commit ::
  "('db, 'info, 'code, 'err, 'changes) Database \<Rightarrow> u64 \<Rightarrow> 'changes RoundDiff \<Rightarrow> ('db, 'info) ShadowDb \<Rightarrow>
   (('db, 'info) ShadowDb \<times> (ShadowCommitError + unit)) res"
where
  "finalize_commit D commit_index final_diff db =
     rbind (case sd_last_finalized db of
         Some prev \<Rightarrow> rbind (checked_add prev 1) (\<lambda>expected. Inr (commit_index \<noteq> expected))
       | None \<Rightarrow> Inr (commit_index \<noteq> 1)) (\<lambda>out_of_order.
     if out_of_order then Inr (db, Inl OutOfOrder)
     else Inr (db\<lparr>sd_canonical := db_commit D (rd_changes final_diff) (sd_canonical db),
                  sd_layers := om_filter_keys (\<lambda>ci. ci > commit_index) (sd_layers db),
                  sd_last_finalized := Some commit_index\<rparr>, Inr ()))"

subsection \<open>Reading\<close>

text \<open>The newest version of a slot below \<open>bound\<close> that is not \<open>Absent\<close>; without a bound, the
  newest of all.\<close>

definition versions_rev :: "TxIndex option \<Rightarrow> SlotVersions \<Rightarrow> (TxIndex \<times> VersionedValue) list" where
  "versions_rev bound sv = (case bound of Some t \<Rightarrow> below_rev t (sv_versions sv) | None \<Rightarrow> rev (entries (sv_versions sv)))"

text \<open>The search in one layer: \<open>None\<close> goes on to the next layer; a result is the writer's layer and
  transaction, the value, and whether the writer is pending. A pending writer without older data in
  its layer gives the sentinel value zero.\<close>

definition search_layer ::
  "SlotKey \<Rightarrow> u64 \<Rightarrow> TxIndex \<Rightarrow> u64 \<times> 'info RoundLayer \<Rightarrow> (u64 \<times> TxIndex \<times> StorageValue \<times> bool) option"
where
  "search_layer key current_ci current_tx e =
     (case e of (ci, layer) \<Rightarrow>
        case om_get (rl_slot_versions layer) key of
          None \<Rightarrow> None
        | Some sv \<Rightarrow>
            (case find (\<lambda>e. snd e \<noteq> Absent) (versions_rev (if ci = current_ci then Some current_tx else None) sv) of
               None \<Rightarrow> None
             | Some (writer_tx, Data val) \<Rightarrow> Some (ci, writer_tx, val, False)
             | Some (writer_tx, Pending) \<Rightarrow>
                 (case find_data (below_rev writer_tx (sv_versions sv)) of
                    Some (fallback_tx, val) \<Rightarrow> Some (ci, writer_tx, val, True)
                  | None \<Rightarrow> Some (ci, writer_tx, 0, True))
             | Some (writer_tx, Absent) \<Rightarrow> None))"

fun search_layers ::
  "SlotKey \<Rightarrow> u64 \<Rightarrow> TxIndex \<Rightarrow> (u64 \<times> 'info RoundLayer) list \<Rightarrow> (u64 \<times> TxIndex \<times> StorageValue \<times> bool) option"
where
  "search_layers key current_ci current_tx [] = None"
| "search_layers key current_ci current_tx (e # es) =
     (case search_layer key current_ci current_tx e of
        Some found \<Rightarrow> Some found
      | None \<Rightarrow> search_layers key current_ci current_tx es)"

definition add_reader :: "SlotKey \<Rightarrow> TxIndex \<Rightarrow> TxIndex \<Rightarrow> 'info RoundLayer \<Rightarrow> 'info RoundLayer" where
  "add_reader key writer_tx reader layer =
     (let sv = get_or SlotVersions_default (rl_slot_versions layer) key;
          sv' = sv\<lparr>sv_readers := om_insert writer_tx (get_or [] (sv_readers sv) writer_tx @ [reader]) (sv_readers sv)\<rparr>
      in layer\<lparr>rl_slot_versions := om_insert key sv' (rl_slot_versions layer)\<rparr>)"

definition add_read :: "SlotKey \<Rightarrow> TxIndex \<Rightarrow> StorageValue \<Rightarrow> 'info RoundLayer \<Rightarrow> 'info RoundLayer" where
  "add_read key reader val layer =
     layer\<lparr>rl_tx_reads := om_insert reader (om_insert key val (get_or om_empty (rl_tx_reads layer) reader)) (rl_tx_reads layer)\<rparr>"

definition readlast_storage ::
  "SlotKey \<Rightarrow> u64 \<Rightarrow> TxIndex \<Rightarrow> ('db, 'info) ShadowDb \<Rightarrow> (('db, 'info) ShadowDb \<times> StorageValue option) res"
where
  "readlast_storage key current_ci current_tx db =
     (case search_layers key current_ci current_tx (rev (entries (sd_layers db))) of
        None \<Rightarrow> Inr (db, None)
      | Some (writer_ci, writer_tx, val, was_pending) \<Rightarrow>
          (let known = (\<not> was_pending \<or> val \<noteq> 0) in
           if writer_ci = current_ci then
             rbind (unwrap (om_get (sd_layers db) current_ci)) (\<lambda>layer.
             let layer1 = add_reader key writer_tx current_tx layer;
                 layer2 = (if known then add_read key current_tx val layer1 else layer1)
             in Inr (db\<lparr>sd_layers := om_insert current_ci layer2 (sd_layers db)\<rparr>, if known then Some val else None))
           else
             rbind (unwrap (om_get (sd_layers db) writer_ci)) (\<lambda>writer_layer.
             let layers1 = om_insert writer_ci (add_reader key writer_tx current_tx writer_layer) (sd_layers db);
                 layers2 = (if known then
                     (case om_get layers1 current_ci of
                        Some current_layer \<Rightarrow> om_insert current_ci (add_read key current_tx val current_layer) layers1
                      | None \<Rightarrow> layers1)
                   else layers1)
             in Inr (db\<lparr>sd_layers := layers2\<rparr>, if known then Some val else None))))"

fun search_accounts :: "Address \<Rightarrow> u64 \<Rightarrow> TxIndex \<Rightarrow> (u64 \<times> 'info RoundLayer) list \<Rightarrow> 'info option" where
  "search_accounts addr current_ci current_tx [] = None"
| "search_accounts addr current_ci current_tx ((ci, layer) # es) =
     (case om_get (rl_account_versions layer) addr of
        None \<Rightarrow> search_accounts addr current_ci current_tx es
      | Some versions \<Rightarrow>
          (case (if ci = current_ci then below_rev current_tx versions else rev (entries versions)) of
             [] \<Rightarrow> search_accounts addr current_ci current_tx es
           | (_, diff) # _ \<Rightarrow> Some (sad_info diff)))"

definition readlast_account :: "Address \<Rightarrow> u64 \<Rightarrow> TxIndex \<Rightarrow> ('db, 'info) ShadowDb \<Rightarrow> 'info option" where
  "readlast_account addr current_ci current_tx db = search_accounts addr current_ci current_tx (rev (entries (sd_layers db)))"

datatype ShadowDbError = ShadowDbError string

definition shadow_error_display :: "ShadowDbError \<Rightarrow> string" where
  "shadow_error_display e = (case e of ShadowDbError s \<Rightarrow> ''ShadowDbError: '' @ s)"

definition map_err :: "('err \<Rightarrow> string) \<Rightarrow> 'err + 'a \<Rightarrow> ShadowDbError + 'a" where
  "map_err f r = map_sum (\<lambda>e. ShadowDbError (f e)) id r"

definition storage_ref ::
  "('db, 'info, 'code, 'err, 'changes) Database \<Rightarrow> Address \<Rightarrow> StorageKey \<Rightarrow> ('db, 'info) ShadowDb \<Rightarrow>
   (('db, 'info) ShadowDb \<times> (ShadowDbError + StorageValue)) res"
where
  "storage_ref D addr index db =
     rbind (readlast_storage (addr, index) (sd_current_commit_index db) (sd_current_tx db) db) (\<lambda>(db', found).
     case found of
       Some val \<Rightarrow> Inr (db', Inr val)
     | None \<Rightarrow> Inr (db', map_err (db_error D) (db_storage_ref D (sd_canonical db') addr index)))"

definition basic_ref ::
  "('db, 'info, 'code, 'err, 'changes) Database \<Rightarrow> Address \<Rightarrow> ('db, 'info) ShadowDb \<Rightarrow> ShadowDbError + 'info option"
where
  "basic_ref D addr db =
     (case readlast_account addr (sd_current_commit_index db) (sd_current_tx db) db of
        Some info \<Rightarrow> Inr (Some info)
      | None \<Rightarrow> map_err (db_error D) (db_basic_ref D (sd_canonical db) addr))"

definition code_by_hash_ref ::
  "('db, 'info, 'code, 'err, 'changes) Database \<Rightarrow> B256 \<Rightarrow> ('db, 'info) ShadowDb \<Rightarrow> ShadowDbError + 'code"
where
  "code_by_hash_ref D code_hash db = map_err (db_error D) (db_code_by_hash_ref D (sd_canonical db) code_hash)"

definition block_hash_ref ::
  "('db, 'info, 'code, 'err, 'changes) Database \<Rightarrow> u64 \<Rightarrow> ('db, 'info) ShadowDb \<Rightarrow> ShadowDbError + B256"
where
  "block_hash_ref D number db = map_err (db_error D) (db_block_hash_ref D (sd_canonical db) number)"

section \<open>Searching versions\<close>

text \<open>The first hit from the end of a map is the entry with the greatest key.\<close>

lemma find_rev_filter: "find Q (rev (filter P xs)) = find (\<lambda>e. P e \<and> Q e) (rev xs)"
proof -
  have "find Q (filter P ys) = find (\<lambda>e. P e \<and> Q e) ys" for ys by (induction ys) auto
  from this [of "rev xs"] show ?thesis by (simp add: rev_filter)
qed

lemma find_newest_None: "find Q (rev (entries m)) = None \<longleftrightarrow> (\<forall>k v. om_get m k = Some v \<longrightarrow> \<not> Q (k, v))"
  by (auto simp: find_None_iff set_entries)

lemma find_rev_sorted:
  assumes "sorted_wrt (\<lambda>x y. fst x < fst y) xs" and "find Q (rev xs) = Some (k, v)"
  shows "(k, v) \<in> set xs \<and> Q (k, v) \<and> (\<forall>e \<in> set xs. Q e \<longrightarrow> fst e \<le> (k::'k::linorder))"
  using assms
proof (induction xs rule: rev_induct)
  case (snoc x xs)
  show ?case
  proof (cases "Q x")
    case True
    with snoc.prems have "x = (k, v)" by simp
    with True snoc.prems(1) show ?thesis by (auto simp: sorted_wrt_append)
  next
    case False
    with snoc show ?thesis by (auto simp: sorted_wrt_append)
  qed
qed simp

lemma find_newest:
  "find Q (rev (entries m)) = Some (k, v) \<longleftrightarrow>
     om_get m k = Some v \<and> Q (k, v) \<and> (\<forall>k' v'. om_get m k' = Some v' \<and> Q (k', v') \<longrightarrow> k' \<le> k)"
proof
  assume found: "find Q (rev (entries m)) = Some (k, v)"
  have "sorted_wrt (\<lambda>x y. fst x < fst y) (entries m)" using ascending_entries [of m] by (simp add: sorted_wrt_map)
  from find_rev_sorted [OF this found] show "om_get m k = Some v \<and> Q (k, v) \<and> (\<forall>k' v'. om_get m k' = Some v' \<and> Q (k', v') \<longrightarrow> k' \<le> k)"
    by (force simp: set_entries [symmetric])
next
  assume max: "om_get m k = Some v \<and> Q (k, v) \<and> (\<forall>k' v'. om_get m k' = Some v' \<and> Q (k', v') \<longrightarrow> k' \<le> k)"
  then obtain e where e: "find Q (rev (entries m)) = Some e"
    using find_newest_None [of Q m] by (cases "find Q (rev (entries m))") auto
  have "sorted_wrt (\<lambda>x y. fst x < fst y) (entries m)" using ascending_entries [of m] by (simp add: sorted_wrt_map)
  from find_rev_sorted [OF this, of Q "fst e" "snd e"] e have *: "om_get m (fst e) = Some (snd e)" "Q e" "k \<le> fst e"
    using max by (auto simp: set_entries [symmetric])
  with max have "fst e = k" by (metis order.antisym prod.collapse)
  with * max e show "find Q (rev (entries m)) = Some (k, v)" by (metis option.inject prod.collapse)
qed

definition is_data :: "VersionedValue \<Rightarrow> bool" where
  "is_data vv \<longleftrightarrow> (\<exists>v. vv = Data v)"

lemma is_data_simps [simp]: "is_data (Data v)" "\<not> is_data Pending" "\<not> is_data Absent"
  by (simp_all add: is_data_def)

lemma find_data_find:
  "find_data es = Some (k, v) \<longleftrightarrow> find (\<lambda>e. is_data (snd e)) es = Some (k, Data v)"
  "find_data es = None \<longleftrightarrow> find (\<lambda>e. is_data (snd e)) es = None"
  by (induction es rule: find_data.induct) auto

text \<open>The newest data below an index.\<close>

lemma find_data_below:
  "find_data (below_rev t m) = Some (k, v) \<longleftrightarrow>
     om_get m k = Some (Data v) \<and> k < t \<and> (\<forall>k' v'. om_get m k' = Some (Data v') \<and> k' < t \<longrightarrow> k' \<le> k)"
  "find_data (below_rev t m) = None \<longleftrightarrow> (\<forall>k v. om_get m k = Some (Data v) \<longrightarrow> \<not> k < t)"
  unfolding find_data_find below_rev_def find_rev_filter find_newest find_newest_None
  by (auto simp: is_data_def)

text \<open>The version of a slot by a transaction of a layer, and of a layer of the database.\<close>

definition version :: "'info RoundLayer \<Rightarrow> SlotKey \<Rightarrow> TxIndex \<Rightarrow> VersionedValue option" where
  "version layer key t = (case om_get (rl_slot_versions layer) key of None \<Rightarrow> None | Some sv \<Rightarrow> om_get (sv_versions sv) t)"

definition db_version :: "('db, 'info) ShadowDb \<Rightarrow> SlotKey \<Rightarrow> u64 \<times> TxIndex \<Rightarrow> VersionedValue option" where
  "db_version db key p = (case om_get (sd_layers db) (fst p) of None \<Rightarrow> None | Some layer \<Rightarrow> version layer key (snd p))"

lemma search_layers_eq_None: "search_layers key ci t es = None \<longleftrightarrow> (\<forall>e \<in> set es. search_layer key ci t e = None)"
  by (induction es) (auto split: option.splits)

lemma search_layers_find:
  "search_layers key ci t es =
     (case find (\<lambda>e. search_layer key ci t e \<noteq> None) es of None \<Rightarrow> None | Some e \<Rightarrow> search_layer key ci t e)"
  by (induction es) (auto split: option.splits)

text \<open>Positions are ordered lexicographically: the serial order is that of the rounds, and inside a round that
  of the transaction indices.\<close>

text \<open>The reader at position \<open>(ci, t)\<close> sees a layer: its own up to its own position, others completely.\<close>

definition sees :: "u64 \<times> TxIndex \<Rightarrow> u64 \<times> TxIndex \<Rightarrow> bool" where
  "sees r p \<longleftrightarrow> (fst p = fst r \<longrightarrow> snd p < snd r)"

lemma sees_before: "fst p \<le> fst r \<Longrightarrow> sees r p \<longleftrightarrow> p < r"
  by (cases p; cases r) (auto simp: sees_def less_prod_def)

lemma find_visible:
  "find (\<lambda>e. snd e \<noteq> Absent) (versions_rev (if ci = fst r then Some (snd r) else None) sv) =
     find (\<lambda>e. sees r (ci, fst e) \<and> snd e \<noteq> Absent) (rev (entries (sv_versions sv)))"
  by (simp add: versions_rev_def below_rev_def find_rev_filter sees_def)

lemma search_layer_None:
  "search_layer key (fst r) (snd r) (ci, layer) = None \<longleftrightarrow>
     (\<forall>t vv. version layer key t = Some vv \<and> vv \<noteq> Absent \<longrightarrow> \<not> sees r (ci, t))"
proof (cases "om_get (rl_slot_versions layer) key")
  case (Some sv)
  let ?f = "find (\<lambda>e. sees r (ci, fst e) \<and> snd e \<noteq> Absent) (rev (entries (sv_versions sv)))"
  have "search_layer key (fst r) (snd r) (ci, layer) = None \<longleftrightarrow> ?f = None"
  proof (cases ?f)
    case (Some e)
    then have "snd e \<noteq> Absent" using find_newest [of _ "sv_versions sv" "fst e" "snd e"] by simp
    then show ?thesis using Some \<open>om_get (rl_slot_versions layer) key = Some sv\<close>
      by (cases e; cases "snd e") (auto simp: search_layer_def find_visible split: option.splits)
  qed (simp add: search_layer_def find_visible \<open>om_get (rl_slot_versions layer) key = Some sv\<close>)
  then show ?thesis by (auto simp: find_newest_None version_def Some)
qed (simp add: search_layer_def version_def)


lemma search_layer_Some:
  assumes "search_layer key (fst r) (snd r) (ci, layer) = Some (ci', t, v, p)"
  shows "ci' = ci" and "sees r (ci, t)"
    and "\<And>t' vv. version layer key t' = Some vv \<Longrightarrow> vv \<noteq> Absent \<Longrightarrow> sees r (ci, t') \<Longrightarrow> t' \<le> t"
    and "version layer key t = Some (Data v) \<and> \<not> p \<or> version layer key t = Some Pending \<and> p \<and>
      (v = 0 \<or> (\<exists>t' < t. version layer key t' = Some (Data v)))"
proof -
  obtain sv where sv: "om_get (rl_slot_versions layer) key = Some sv"
    using assms by (auto simp: search_layer_def split: option.splits)
  obtain e where e: "find (\<lambda>e. sees r (ci, fst e) \<and> snd e \<noteq> Absent) (rev (entries (sv_versions sv))) = Some e"
    using assms by (auto simp: search_layer_def sv find_visible split: option.splits)
  from e have e': "om_get (sv_versions sv) (fst e) = Some (snd e)" "sees r (ci, fst e)" "snd e \<noteq> Absent"
    "\<And>t' vv. om_get (sv_versions sv) t' = Some vv \<Longrightarrow> vv \<noteq> Absent \<Longrightarrow> sees r (ci, t') \<Longrightarrow> t' \<le> fst e"
    using find_newest [of _ "sv_versions sv" "fst e" "snd e"] by auto
  have res: "ci' = ci \<and> t = fst e \<and> (snd e = Data v \<and> \<not> p \<or> snd e = Pending \<and> p \<and>
      (v = 0 \<or> (\<exists>t' < t. om_get (sv_versions sv) t' = Some (Data v))))"
  proof (cases "snd e")
    case (Data w)
    then show ?thesis using assms e by (cases e) (auto simp: search_layer_def sv find_visible)
  next
    case Pending
    with assms e have "ci' = ci \<and> t = fst e \<and> p \<and> (case find_data (below_rev (fst e) (sv_versions sv)) of
        Some (_, w) \<Rightarrow> v = w | None \<Rightarrow> v = 0)"
      by (cases e) (auto simp: search_layer_def sv find_visible split: option.splits)
    with Pending show ?thesis
      using find_data_below(1) [of "fst e" "sv_versions sv" _ v] by (auto split: option.splits)
  qed (use e'(3) in simp)
  then show "ci' = ci" and "sees r (ci, t)" using e'(2) by simp_all
  show "t' \<le> t" if "version layer key t' = Some vv" "vv \<noteq> Absent" "sees r (ci, t')" for t' vv
    using e'(4) that res by (simp add: version_def sv)
  show "version layer key t = Some (Data v) \<and> \<not> p \<or> version layer key t = Some Pending \<and> p \<and>
      (v = 0 \<or> (\<exists>t' < t. version layer key t' = Some (Data v)))"
    using res e'(1) by (auto simp: version_def sv)
qed

text \<open>The search over all layers finds the newest visible version in the serial order.\<close>

lemma search_layers_Some:
  assumes "search_layers key (fst r) (snd r) (rev (entries (sd_layers db))) = Some (ci, t, v, p)"
  shows "sees r (ci, t)"
    and "\<And>q vv. db_version db key q = Some vv \<Longrightarrow> vv \<noteq> Absent \<Longrightarrow> sees r q \<Longrightarrow> q \<le> (ci, t)"
    and "db_version db key (ci, t) = Some (Data v) \<and> \<not> p \<or> db_version db key (ci, t) = Some Pending \<and> p \<and>
      (v = 0 \<or> (\<exists>t' < t. db_version db key (ci, t') = Some (Data v)))"
proof -
  obtain ci' layer where f: "find (\<lambda>e. search_layer key (fst r) (snd r) e \<noteq> None) (rev (entries (sd_layers db))) = Some (ci', layer)"
    and s: "search_layer key (fst r) (snd r) (ci', layer) = Some (ci, t, v, p)"
    using assms by (auto simp: search_layers_find split: option.splits)
  note one = search_layer_Some [OF s]
  have ci: "ci' = ci" using one(1) by simp
  have layer: "om_get (sd_layers db) ci = Some layer"
    and above: "\<And>k l. om_get (sd_layers db) k = Some l \<Longrightarrow> search_layer key (fst r) (snd r) (k, l) \<noteq> None \<Longrightarrow> k \<le> ci"
    using f unfolding find_newest ci by auto
  show "sees r (ci, t)" using one(2) ci by simp
  show "q \<le> (ci, t)" if hit: "db_version db key q = Some vv" "vv \<noteq> Absent" "sees r q" for q vv
  proof -
    obtain l where l: "om_get (sd_layers db) (fst q) = Some l" "version l key (snd q) = Some vv"
      using hit(1) by (auto simp: db_version_def split: option.splits)
    have "search_layer key (fst r) (snd r) (fst q, l) \<noteq> None" using l(2) hit(2,3) by (auto simp: search_layer_None)
    then have "fst q \<le> ci" by (rule above [OF l(1)])
    moreover have "snd q \<le> t" if "fst q = ci"
      using one(3) [of "snd q" vv] l layer that hit(2,3) ci by (cases q) auto
    ultimately show ?thesis by (cases "fst q = ci"; cases q) (auto simp: less_eq_prod_def le_less)
  qed
  show "db_version db key (ci, t) = Some (Data v) \<and> \<not> p \<or> db_version db key (ci, t) = Some Pending \<and> p \<and>
      (v = 0 \<or> (\<exists>t' < t. db_version db key (ci, t') = Some (Data v)))"
    using one(4) by (simp add: db_version_def layer)
qed

lemma search_layers_None:
  "search_layers key (fst r) (snd r) (rev (entries (sd_layers db))) = None \<longleftrightarrow>
     (\<forall>q vv. db_version db key q = Some vv \<and> vv \<noteq> Absent \<longrightarrow> \<not> sees r q)"
proof -
  have "search_layers key (fst r) (snd r) (rev (entries (sd_layers db))) = None \<longleftrightarrow>
      (\<forall>ci layer. om_get (sd_layers db) ci = Some layer \<longrightarrow> search_layer key (fst r) (snd r) (ci, layer) = None)"
    by (auto simp: search_layers_eq_None set_entries)
  then show ?thesis by (force simp: search_layer_None db_version_def split: option.splits)
qed

text \<open>Reading never panics, and changes no version.\<close>

lemma version_add_reader [simp]: "version (add_reader key w u layer) = version layer"
  by (auto simp: fun_eq_iff version_def add_reader_def Let_def get_or_def SlotVersions_default_def split: option.splits)

lemma version_add_read [simp]: "version (add_read key u v layer) = version layer"
  by (simp add: fun_eq_iff version_def add_read_def)

lemma readlast_storage_total:
  assumes r: "r = (ci, t)"
  shows "\<exists>db'. readlast_storage key ci t db = Inr (db', case search_layers key ci t (rev (entries (sd_layers db))) of
      Some (_, _, v, p) \<Rightarrow> if \<not> p \<or> v \<noteq> 0 then Some v else None | None \<Rightarrow> None) \<and>
    sd_canonical db' = sd_canonical db \<and> db_version db' = db_version db"
proof (cases "search_layers key ci t (rev (entries (sd_layers db)))")
  case (Some x)
  obtain wci wtx v p where x: "x = (wci, wtx, v, p)" by (cases x)
  have "db_version db key (wci, wtx) \<noteq> None" using search_layers_Some(3) [of key r db wci wtx v p] Some by (auto simp: r x)
  then obtain layer where layer: "om_get (sd_layers db) wci = Some layer" by (auto simp: db_version_def split: option.splits)
  show ?thesis
  proof (cases "wci = ci")
    case True
    with Some layer show ?thesis by (auto simp: readlast_storage_def x Let_def db_version_def fun_eq_iff)
  next
    case False
    with Some layer show ?thesis
      by (auto simp: readlast_storage_def x Let_def db_version_def fun_eq_iff split: option.splits)
  qed
qed (simp add: readlast_storage_def)

section \<open>Recording\<close>

text \<open>What an execution writes to a slot.\<close>

definition slot_write :: "'info EvmState \<Rightarrow> SlotKey \<Rightarrow> StorageValue option" where
  "slot_write st key = (case om_get st (fst key) of None \<Rightarrow> None | Some acc \<Rightarrow>
     (case om_get (acc_storage acc) (snd key) of None \<Rightarrow> None | Some s \<Rightarrow>
        if slot_is_changed s then Some (slot_present_value s) else None))"

definition account_write :: "(StorageKey \<times> EvmSlot) list \<Rightarrow> StorageKey \<Rightarrow> StorageValue option" where
  "account_write es k = (case map_of es k of None \<Rightarrow> None | Some s \<Rightarrow> if slot_is_changed s then Some (slot_present_value s) else None)"

lemma map_of_entries: "map_of (entries m) = om_get m"
proof
  fix k show "map_of (entries m) k = om_get m k"
    using ascending_distinct [OF ascending_entries, of m] set_entries [of k _ m]
    by (cases "om_get m k") (auto simp: map_of_eq_Some_iff map_of_eq_None_iff)
qed

text \<open>An update of the versions of a layer at one transaction.\<close>

definition overwrite :: "TxIndex \<Rightarrow> (SlotKey \<Rightarrow> StorageValue option) \<Rightarrow> (SlotKey \<Rightarrow> TxIndex \<Rightarrow> VersionedValue option) \<Rightarrow>
    SlotKey \<Rightarrow> TxIndex \<Rightarrow> VersionedValue option" where
  "overwrite t w f key u = (case w key of Some v \<Rightarrow> if u = t then Some (Data v) else f key u | None \<Rightarrow> f key u)"

lemma version_record_slot:
  "version (record_slot t a e layer) =
     overwrite t (\<lambda>key. if key = (a, fst e) \<and> slot_is_changed (snd e) then Some (slot_present_value (snd e)) else None) (version layer)"
  by (auto simp: fun_eq_iff overwrite_def version_def record_slot_def Let_def get_or_def SlotVersions_default_def
      split: option.splits prod.splits)

lemma version_record_slots:
  "distinct (map fst es) \<Longrightarrow> version (fold (record_slot t a) es layer) =
     overwrite t (\<lambda>key. if fst key = a then account_write es (snd key) else None) (version layer)"
proof (induction es arbitrary: layer)
  case (Cons e es)
  have "map_of es (fst e) = None" using Cons.prems by (simp add: map_of_eq_None_iff)
  with Cons show ?case
    by (auto simp: fun_eq_iff version_record_slot overwrite_def account_write_def split: option.splits)
qed (simp add: overwrite_def account_write_def fun_eq_iff)

lemma version_record_account:
  "version (record_account cb t e layer) =
     overwrite t (\<lambda>key. if fst key = fst e then account_write (entries (acc_storage (snd e))) (snd key) else None) (version layer)"
proof -
  have "version (layer\<lparr>rl_account_versions := x\<rparr>) = version layer" for x by (simp add: fun_eq_iff version_def)
  moreover obtain a acc where e: "e = (a, acc)" by (cases e)
  ultimately show ?thesis
    unfolding e fst_conv snd_conv by (simp add: record_account_def Let_def version_record_slots om.ents_distinct)
qed

lemma version_record_accounts:
  "distinct (map fst es) \<Longrightarrow> version (fold (record_account cb t) es layer) =
     overwrite t (\<lambda>key. case map_of es (fst key) of Some acc \<Rightarrow> account_write (entries (acc_storage acc)) (snd key) | None \<Rightarrow> None)
       (version layer)"
proof (induction es arbitrary: layer)
  case (Cons e es)
  have "map_of es (fst e) = None" using Cons.prems by (simp add: map_of_eq_None_iff)
  with Cons show ?case
    by (auto simp: fun_eq_iff version_record_account overwrite_def split: option.splits)
qed (simp add: overwrite_def fun_eq_iff)

text \<open>Recording an execution sets the versions of exactly the slots the execution changed.\<close>

lemma version_record_state: "version (record_state cb t st layer) = overwrite t (slot_write st) (version layer)"
proof -
  have "(case om_get st (fst key) of Some acc \<Rightarrow> account_write (entries (acc_storage acc)) (snd key) | None \<Rightarrow> None) = slot_write st key" for key
    by (simp add: slot_write_def account_write_def map_of_entries split: option.splits)
  then show ?thesis
    by (simp add: record_state_def version_record_accounts om.ents_distinct map_of_entries)
qed

lemma version_new [simp]: "version (RoundLayer_new ci) key t = None"
  by (simp add: version_def RoundLayer_new_def)

lemma db_version_record:
  "db_version (record_tx_execution ci t st db) key q =
     (if q = (ci, t) then (case slot_write st key of Some v \<Rightarrow> Some (Data v) | None \<Rightarrow> db_version db key q) else db_version db key q)"
  by (cases q) (auto simp: db_version_def record_tx_execution_def Let_def version_record_state overwrite_def get_or_def
      split: option.splits)

section \<open>Reads against the serial order\<close>

text \<open>The specification: memory is a function, the executions that come before the reader are applied to it one
  after the other in the serial order.\<close>

type_synonym 'info history = "((u64 \<times> TxIndex) \<times> 'info EvmState) list"

definition apply_writes :: "'info EvmState \<Rightarrow> (SlotKey \<Rightarrow> StorageValue option) \<Rightarrow> SlotKey \<Rightarrow> StorageValue option" where
  "apply_writes st mem = (\<lambda>key. case slot_write st key of Some v \<Rightarrow> Some v | None \<Rightarrow> mem key)"

definition serial_memory :: "'info history \<Rightarrow> u64 \<times> TxIndex \<Rightarrow> SlotKey \<Rightarrow> StorageValue option" where
  "serial_memory hist r = fold apply_writes (map snd (sort_key fst (filter (\<lambda>x. fst x < r) hist))) (\<lambda>_. None)"

definition record_all :: "'info history \<Rightarrow> ('db, 'info) ShadowDb \<Rightarrow> ('db, 'info) ShadowDb" where
  "record_all hist db = fold (\<lambda>((ci, t), st). record_tx_execution ci t st) hist db"

lemma record_all_frame:
  "sd_canonical (record_all hist db) = sd_canonical db" "sd_coinbase (record_all hist db) = sd_coinbase db"
  by (induction hist arbitrary: db) (auto simp: record_all_def record_tx_execution_def Let_def)

lemma db_version_record_all:
  assumes "distinct (map fst hist)"
  shows "db_version (record_all hist db) key q =
    (case map_of hist q of Some st \<Rightarrow> (case slot_write st key of Some v \<Rightarrow> Some (Data v) | None \<Rightarrow> db_version db key q)
     | None \<Rightarrow> db_version db key q)"
  using assms
proof (induction hist arbitrary: db)
  case (Cons x hist)
  obtain ci t st where x: "x = ((ci, t), st)" by (metis prod.collapse)
  have "map_of hist (ci, t) = None" using Cons.prems by (simp add: x map_of_eq_None_iff)
  with Cons show ?case
    by (auto simp: x record_all_def db_version_record split: option.splits)
qed (simp add: record_all_def)

lemma db_version_new [simp]: "db_version (shadow_new canon cb) key q = None"
  by (simp add: db_version_def shadow_new_def)

text \<open>The value of the serial memory is that of the last writer.\<close>

lemma fold_writes_last:
  assumes "sorted_wrt (\<lambda>x y. fst x < fst y) xs"
  shows "fold apply_writes (map snd xs) mem key =
    (case find (\<lambda>x. slot_write (snd x) key \<noteq> None) (rev xs) of None \<Rightarrow> mem key | Some x \<Rightarrow> slot_write (snd x) key)"
  by (induction xs rule: rev_induct) (auto simp: apply_writes_def split: option.splits)

lemma sorted_history:
  assumes "distinct (map fst hist)"
  shows "sorted_wrt (\<lambda>x y. fst x < fst y) (sort_key fst (filter (\<lambda>x. fst x < r) hist))"
proof -
  let ?xs = "sort_key fst (filter (\<lambda>x. fst x < r) hist)"
  have "distinct (map fst (filter (\<lambda>x. fst x < r) hist))" using assms by (rule distinct_map_filter)
  then have "distinct (map fst ?xs)" by (simp add: distinct_map)
  moreover have "sorted (map fst ?xs)" by (rule sorted_sort_key)
  ultimately have "sorted_wrt (<) (map fst ?xs)" by (simp add: strict_sorted_iff)
  then show ?thesis by (simp add: sorted_wrt_map)
qed

lemma serial_memory_Some:
  assumes d: "distinct (map fst hist)" and v: "serial_memory hist r key = Some v"
  shows "\<exists>q st. (q, st) \<in> set hist \<and> q < r \<and> slot_write st key = Some v \<and>
    (\<forall>q' st'. (q', st') \<in> set hist \<and> q' < r \<and> slot_write st' key \<noteq> None \<longrightarrow> q' \<le> q)"
proof -
  let ?xs = "sort_key fst (filter (\<lambda>x. fst x < r) hist)"
  note sorted = sorted_history [OF d, of r]
  obtain q st where f: "find (\<lambda>x. slot_write (snd x) key \<noteq> None) (rev ?xs) = Some (q, st)" and w: "slot_write st key = Some v"
    using v unfolding serial_memory_def fold_writes_last [OF sorted] by (auto split: option.splits)
  from find_rev_sorted [OF sorted f] have q: "(q, st) \<in> set ?xs"
    "\<forall>e \<in> set ?xs. slot_write (snd e) key \<noteq> None \<longrightarrow> fst e \<le> q" by blast+
  have "q' \<le> q" if "(q', st') \<in> set hist" "q' < r" "slot_write st' key \<noteq> None" for q' st'
    using bspec [OF q(2), of "(q', st')"] that by simp
  moreover have "(q, st) \<in> set hist" "q < r" using q(1) by simp_all
  ultimately show ?thesis using w by blast
qed

lemma serial_memory_None:
  assumes d: "distinct (map fst hist)" and v: "serial_memory hist r key = None"
  shows "\<forall>q st. (q, st) \<in> set hist \<and> q < r \<longrightarrow> slot_write st key = None"
proof -
  let ?xs = "sort_key fst (filter (\<lambda>x. fst x < r) hist)"
  note sorted = sorted_history [OF d, of r]
  have "find (\<lambda>x. slot_write (snd x) key \<noteq> None) (rev ?xs) = None"
  proof (rule ccontr)
    assume "\<not> ?thesis"
    then obtain x where x: "find (\<lambda>x. slot_write (snd x) key \<noteq> None) (rev ?xs) = Some x" by blast
    with find_rev_sorted [OF sorted, of "\<lambda>x. slot_write (snd x) key \<noteq> None" "fst x" "snd x"] have "slot_write (snd x) key \<noteq> None" by simp
    then show False using v x unfolding serial_memory_def fold_writes_last [OF sorted] by simp
  qed
  then show ?thesis by (auto simp: find_None_iff)
qed

lemma storage_ref_result:
  "\<exists>db'. storage_ref D a k db = Inr (db', case search_layers (a, k) (sd_current_commit_index db) (sd_current_tx db)
        (rev (entries (sd_layers db))) of
      Some (_, _, v, p) \<Rightarrow> if \<not> p \<or> v \<noteq> 0 then Inr v else map_err (db_error D) (db_storage_ref D (sd_canonical db) a k)
    | None \<Rightarrow> map_err (db_error D) (db_storage_ref D (sd_canonical db) a k)) \<and>
   sd_canonical db' = sd_canonical db \<and> db_version db' = db_version db"
proof -
  obtain db' where "readlast_storage (a, k) (sd_current_commit_index db) (sd_current_tx db) db =
      Inr (db', case search_layers (a, k) (sd_current_commit_index db) (sd_current_tx db) (rev (entries (sd_layers db))) of
        Some (_, _, v, p) \<Rightarrow> if \<not> p \<or> v \<noteq> 0 then Some v else None | None \<Rightarrow> None)"
    "sd_canonical db' = sd_canonical db" "db_version db' = db_version db"
    using readlast_storage_total [OF refl] by blast
  then show ?thesis by (auto simp: storage_ref_def split: option.splits prod.splits)
qed

lemma storage_ref_newest:
  assumes data: "\<And>q vv. db_version db (a, k) q = Some vv \<Longrightarrow> is_data vv"
    and r: "r = (sd_current_commit_index db, sd_current_tx db)"
    and newest: "\<And>q vv. db_version db (a, k) q = Some vv \<Longrightarrow> fst q \<le> fst r"
  shows "(\<exists>db'. storage_ref D a k db = Inr (db', map_err (db_error D) (db_storage_ref D (sd_canonical db) a k))) \<and>
      (\<forall>q < r. db_version db (a, k) q = None) \<or>
    (\<exists>db' q v. storage_ref D a k db = Inr (db', Inr v) \<and> q < r \<and> db_version db (a, k) q = Some (Data v) \<and>
      (\<forall>q' < r. db_version db (a, k) q' \<noteq> None \<longrightarrow> q' \<le> q))"
proof (cases "search_layers (a, k) (fst r) (snd r) (rev (entries (sd_layers db)))")
  case None
  have "db_version db (a, k) q = None" if "q < r" for q
  proof (rule ccontr)
    assume "db_version db (a, k) q \<noteq> None"
    then obtain vv where vv: "db_version db (a, k) q = Some vv" by blast
    have "sees r q" using sees_before [OF newest [OF vv]] that by simp
    moreover have "vv \<noteq> Absent" using data [OF vv] by auto
    ultimately show False using None vv unfolding search_layers_None by blast
  qed
  with storage_ref_result [of D a k db] None show ?thesis by (auto simp: r)
next
  case (Some x)
  obtain ci t v p where x: "x = (ci, t, v, p)" by (cases x)
  note s = search_layers_Some [OF Some [unfolded x]]
  have dv: "db_version db (a, k) (ci, t) = Some (Data v)" "\<not> p" using s(3) data by force+
  have "(ci, t) < r" using s(1) sees_before newest [OF dv(1)] by blast
  moreover have "q' \<le> (ci, t)" if hit: "q' < r" "db_version db (a, k) q' \<noteq> None" for q'
  proof -
    obtain vv where vv: "db_version db (a, k) q' = Some vv" using hit(2) by blast
    show ?thesis using s(2) [OF vv] data [OF vv] sees_before [OF newest [OF vv]] hit(1) by (auto simp: is_data_def)
  qed
  moreover obtain db' where "storage_ref D a k db = Inr (db', Inr v)"
    using storage_ref_result [of D a k db] Some dv by (auto simp: r x)
  ultimately show ?thesis using dv(1) by blast
qed

lemma recorded_version:
  assumes "distinct (map fst hist)"
  shows "db_version (set_current_tx ci t (record_all hist (shadow_new canon cb))) key q =
    (case map_of hist q of Some st \<Rightarrow> map_option Data (slot_write st key) | None \<Rightarrow> None)"
proof -
  have "db_version (set_current_tx ci t (record_all hist (shadow_new canon cb))) key q =
      db_version (record_all hist (shadow_new canon cb)) key q" by (simp add: db_version_def set_current_tx_def)
  then show ?thesis unfolding db_version_record_all [OF assms] by (simp split: option.splits)
qed

text \<open>
  \<^bold>\<open>C4\<close> Multi-version reads are serial, up to three restrictions: each position is recorded once,
  none of the recorded transactions has been aborted, and no round after the reader's has been recorded.
  Let transactions of rounds up to \<open>ci\<close> have been executed and recorded in whatever order under these
  restrictions. A transaction that reads at position \<open>(ci, t)\<close> gets the value it would get if the transactions before it had run
  one after the other on a plain memory; a slot they do not write is read from the canonical database.
\<close>

theorem multi_version_read_is_serial:
  assumes once: "distinct (map fst hist)" and newest: "\<forall>x \<in> set hist. fst (fst x) \<le> ci"
  shows "\<exists>db'. storage_ref D a k (set_current_tx ci t (record_all hist (shadow_new canon cb))) =
    Inr (db', case serial_memory hist (ci, t) (a, k) of
        Some v \<Rightarrow> Inr v | None \<Rightarrow> map_err (db_error D) (db_storage_ref D canon a k))"
proof -
  let ?db = "set_current_tx ci t (record_all hist (shadow_new canon cb))"
  note ver = recorded_version [OF once, of ci t canon cb]
  have hist: "(q, st) \<in> set hist \<longleftrightarrow> map_of hist q = Some st" for q st using once by simp
  have pos: "(ci, t) = (sd_current_commit_index ?db, sd_current_tx ?db)" by (simp add: set_current_tx_def)
  have canon: "sd_canonical ?db = canon" by (simp add: set_current_tx_def record_all_frame shadow_new_def)
  have data: "is_data vv" and new: "fst q \<le> fst (ci, t)" if "db_version ?db (a, k) q = Some vv" for q vv
    using that newest by (auto simp: ver hist [symmetric] split: option.splits)
  note alt = storage_ref_newest [of ?db a k, OF data pos new, where D = D, unfolded canon]
  show ?thesis
  proof (cases "serial_memory hist (ci, t) (a, k)")
    case None
    have none: "db_version ?db (a, k) q = None" if "q < (ci, t)" for q
      using serial_memory_None [OF once None, rule_format, of q] that by (cases "map_of hist q") (simp_all add: ver hist)
    from alt show ?thesis
    proof
      assume "\<exists>db' q v. storage_ref D a k ?db = Inr (db', Inr v) \<and> q < (ci, t) \<and> db_version ?db (a, k) q = Some (Data v) \<and>
          (\<forall>q' < (ci, t). db_version ?db (a, k) q' \<noteq> None \<longrightarrow> q' \<le> q)"
      then obtain q v where "q < (ci, t)" "db_version ?db (a, k) q = Some (Data v)" by blast
      with none show ?thesis by simp
    qed (use None in auto)
  next
    case (Some v)
    from serial_memory_Some [OF once this] obtain q st where q: "map_of hist q = Some st" "q < (ci, t)" "slot_write st (a, k) = Some v"
      "\<And>q' st'. map_of hist q' = Some st' \<Longrightarrow> q' < (ci, t) \<Longrightarrow> slot_write st' (a, k) \<noteq> None \<Longrightarrow> q' \<le> q" unfolding hist by blast
    have dq: "db_version ?db (a, k) q = Some (Data v)" using q(1,3) by (simp add: ver)
    from alt show ?thesis
    proof
      assume "\<exists>db' q v. storage_ref D a k ?db = Inr (db', Inr v) \<and> q < (ci, t) \<and> db_version ?db (a, k) q = Some (Data v) \<and>
          (\<forall>q' < (ci, t). db_version ?db (a, k) q' \<noteq> None \<longrightarrow> q' \<le> q)"
      then obtain db' q' v' where r: "storage_ref D a k ?db = Inr (db', Inr v')" "q' < (ci, t)"
        "db_version ?db (a, k) q' = Some (Data v')" "\<forall>x < (ci, t). db_version ?db (a, k) x \<noteq> None \<longrightarrow> x \<le> q'" by blast
      obtain st' where st': "map_of hist q' = Some st'" "slot_write st' (a, k) = Some v'" using r(3) by (auto simp: ver split: option.splits)
      have "q' \<le> q" using q(4) [OF st'(1) r(2)] st'(2) by simp
      moreover have "q \<le> q'" using r(4) [rule_format, OF q(2)] dq by simp
      ultimately have "v' = v" using dq r(3) by simp
      with r(1) Some show ?thesis by simp
    next
      assume "(\<exists>db'. storage_ref D a k ?db = Inr (db', map_err (db_error D) (db_storage_ref D canon a k))) \<and>
          (\<forall>q < (ci, t). db_version ?db (a, k) q = None)"
      then have "db_version ?db (a, k) q = None" using q(2) by blast
      with dq show ?thesis by simp
    qed
  qed
qed

end
