(* ===== verification/Shadow_Protocol.thy ===== *)
theory Shadow_Protocol
  imports Shadow_State
begin

text \<open>
  The protocol around the shadow database: the invariant that every operation keeps, abort and
  dependency notification, validation of a round, cascading invalidation and the two-phase commit.
\<close>

declare split_paired_All [simp del] split_paired_Ex [simp del]

section \<open>Reachable states\<close>

text \<open>The operations the executor and the commit layer call, in any order.\<close>

inductive reachable :: "('db, 'info, 'code, 'err, 'changes) Database \<Rightarrow> Address \<Rightarrow> ('db, 'info) ShadowDb \<Rightarrow> bool"
  for D :: "('db, 'info, 'code, 'err, 'changes) Database" and cb :: Address
where
  new: "reachable D cb (shadow_new canon cb)"
| set_tx: "reachable D cb db \<Longrightarrow> reachable D cb (set_current_tx ci t db)"
| ensure: "reachable D cb db \<Longrightarrow> reachable D cb (ensure_layer ci db)"
| record_tx: "reachable D cb db \<Longrightarrow> reachable D cb (record_tx_execution ci t st db)"
| abort: "reachable D cb db \<Longrightarrow> abort_tx ci t db = (db', notified) \<Longrightarrow> reachable D cb db'"
| commit_tx: "reachable D cb db \<Longrightarrow> reachable D cb (commit_tx_execution ci t st db)"
| read: "reachable D cb db \<Longrightarrow> storage_ref D a k db = Inr (db', r) \<Longrightarrow> reachable D cb db'"
| cascade: "reachable D cb db \<Longrightarrow> cascade_invalidate base changed db = (db', invalidated) \<Longrightarrow> reachable D cb db'"
| stage: "reachable D cb db \<Longrightarrow> stage_commit ci order db = (db', handle) \<Longrightarrow> reachable D cb db'"
| finalize: "reachable D cb db \<Longrightarrow> finalize_commit D ci diff db = Inr (db', r) \<Longrightarrow> reachable D cb db'"

text \<open>What is true of every slot: a version is data or pending, and it has a list of readers.\<close>

definition slot_ok :: "SlotVersions \<Rightarrow> bool" where
  "slot_ok sv \<longleftrightarrow> (\<forall>t. om_get (sv_versions sv) t \<noteq> Some Absent) \<and>
     (\<forall>t. om_contains (sv_versions sv) t \<longleftrightarrow> om_contains (sv_readers sv) t)"

definition layer_ok :: "Address \<Rightarrow> u64 \<Rightarrow> 'info RoundLayer \<Rightarrow> bool" where
  "layer_ok cb ci layer \<longleftrightarrow> rl_commit_index layer = ci \<and> \<not> om_contains (rl_account_versions layer) cb \<and>
     (\<forall>key sv. om_get (rl_slot_versions layer) key = Some sv \<longrightarrow> slot_ok sv)"

definition shadow_ok :: "Address \<Rightarrow> ('db, 'info) ShadowDb \<Rightarrow> bool" where
  "shadow_ok cb db \<longleftrightarrow> sd_coinbase db = cb \<and> (\<forall>ci layer. om_get (sd_layers db) ci = Some layer \<longrightarrow> layer_ok cb ci layer)"

lemma shadow_ok_new: "shadow_ok cb (shadow_new canon cb)"
  by (simp add: shadow_ok_def shadow_new_def)

lemma layer_ok_new: "layer_ok cb ci (RoundLayer_new ci)"
  by (simp add: layer_ok_def RoundLayer_new_def)

lemma slot_ok_default: "slot_ok SlotVersions_default"
  by (simp add: slot_ok_def SlotVersions_default_def)

lemma shadow_ok_insert:
  "shadow_ok cb db \<Longrightarrow> layer_ok cb ci layer \<Longrightarrow> shadow_ok cb (db\<lparr>sd_layers := om_insert ci layer (sd_layers db)\<rparr>)"
  by (simp add: shadow_ok_def)

lemma layer_ok_slot:
  "layer_ok cb ci layer \<Longrightarrow> slot_ok sv \<Longrightarrow> layer_ok cb ci (layer\<lparr>rl_slot_versions := om_insert key sv (rl_slot_versions layer)\<rparr>)"
  by (simp add: layer_ok_def)

lemma layer_ok_get: "shadow_ok cb db \<Longrightarrow> layer_ok cb ci (get_or (RoundLayer_new ci) (sd_layers db) ci)"
  by (cases "om_get (sd_layers db) ci") (simp_all add: layer_ok_new shadow_ok_def)

lemma slot_ok_get: "layer_ok cb ci layer \<Longrightarrow> slot_ok (get_or SlotVersions_default (rl_slot_versions layer) key)"
  by (cases "om_get (rl_slot_versions layer) key") (simp_all add: slot_ok_default layer_ok_def)

lemma record_slot_ok: "layer_ok cb ci layer \<Longrightarrow> layer_ok cb ci (record_slot t a e layer)"
proof -
  assume ok: "layer_ok cb ci layer"
  obtain k s where e: "e = (k, s)" by (cases e)
  from slot_ok_get [OF ok, of "(a, k)"] show ?thesis
    by (auto simp: record_slot_def e Let_def om_or_insert_def slot_ok_def intro!: layer_ok_slot ok)
qed

lemma fold_record_slot_ok: "layer_ok cb ci layer \<Longrightarrow> layer_ok cb ci (fold (record_slot t a) es layer)"
  by (induction es arbitrary: layer) (simp_all add: record_slot_ok)

lemma record_account_ok: "layer_ok cb ci layer \<Longrightarrow> layer_ok cb ci (record_account cb t e layer)"
  unfolding record_account_def Let_def
  by (cases e) (simp, intro conjI impI fold_record_slot_ok; simp add: layer_ok_def)

lemma record_state_ok: "layer_ok cb ci layer \<Longrightarrow> layer_ok cb ci (record_state cb t st layer)"
proof -
  have "layer_ok cb ci (fold (record_account cb t) es layer)" if "layer_ok cb ci layer" for es
    using that by (induction es arbitrary: layer) (simp_all add: record_account_ok)
  then show "layer_ok cb ci layer \<Longrightarrow> layer_ok cb ci (record_state cb t st layer)" by (simp add: record_state_def)
qed

lemma abort_slot_ok: "slot_ok sv \<Longrightarrow> slot_ok (abort_slot t sv)"
  by (auto simp: slot_ok_def abort_slot_def om_contains_iff split: option.splits)

lemma clear_slot_ok: "slot_ok sv \<Longrightarrow> slot_ok (clear_slot t sv)"
  by (auto simp: slot_ok_def clear_slot_def)

lemma layer_ok_map:
  "layer_ok cb ci layer \<Longrightarrow> (\<And>sv. slot_ok sv \<Longrightarrow> slot_ok (f sv)) \<Longrightarrow>
     layer_ok cb ci (layer\<lparr>rl_slot_versions := om_map_values (\<lambda>_. f) (rl_slot_versions layer)\<rparr>)"
  by (auto simp: layer_ok_def)

lemma add_reader_ok:
  assumes "layer_ok cb ci layer" and "version layer key w \<noteq> None"
  shows "layer_ok cb ci (add_reader key w u layer)"
proof -
  obtain sv where sv: "om_get (rl_slot_versions layer) key = Some sv" "om_contains (sv_versions sv) w"
    using assms(2) by (auto simp: version_def om_contains_def split: option.splits)
  have ok: "slot_ok sv" using assms(1) sv(1) by (simp add: layer_ok_def)
  show ?thesis unfolding add_reader_def Let_def
    by (rule layer_ok_slot [OF assms(1)]) (use sv ok in \<open>auto simp: slot_ok_def\<close>)
qed

lemma clear_layer_ok: "layer_ok cb ci layer \<Longrightarrow> layer_ok cb ci (clear_layer layer)"
  by (simp add: layer_ok_def clear_layer_def)

lemma layer_ok_status: "layer_ok cb ci layer \<Longrightarrow> layer_ok cb ci (layer\<lparr>rl_status := s\<rparr>)"
  by (simp add: layer_ok_def)

lemma add_read_ok: "layer_ok cb ci layer \<Longrightarrow> layer_ok cb ci (add_read key u v layer)"
  by (simp add: layer_ok_def add_read_def)

lemma readlast_storage_ok:
  assumes ok: "shadow_ok cb db" and run: "readlast_storage key ci t db = Inr (db', x)"
  shows "shadow_ok cb db'"
proof (cases "search_layers key ci t (rev (entries (sd_layers db)))")
  case None
  with run ok show ?thesis by (simp add: readlast_storage_def)
next
  case (Some y)
  obtain wci w v p where y: "y = (wci, w, v, p)" by (cases y)
  have "db_version db key (wci, w) \<noteq> None" using search_layers_Some(3) [of key "(ci, t)" db wci w v p] Some by (auto simp: y)
  then obtain layer where layer: "om_get (sd_layers db) wci = Some layer" "version layer key w \<noteq> None"
    by (auto simp: db_version_def split: option.splits)
  have lok: "layer_ok cb wci (add_reader key w t layer)"
    using ok layer by (intro add_reader_ok) (simp_all add: shadow_ok_def)
  show ?thesis
  proof (cases "wci = ci")
    case True
    then show ?thesis using run lok layer(1) Some
      by (auto simp: readlast_storage_def y Let_def add_read_ok intro!: shadow_ok_insert ok)
  next
    case False
    let ?db1 = "db\<lparr>sd_layers := om_insert wci (add_reader key w t layer) (sd_layers db)\<rparr>"
    have ok1: "shadow_ok cb ?db1" by (rule shadow_ok_insert [OF ok lok])
    have "layer_ok cb ci l" if "om_get (sd_layers ?db1) ci = Some l" for l using ok1 that by (simp only: shadow_ok_def)
    then have ok2: "shadow_ok cb (?db1\<lparr>sd_layers := om_insert ci (add_read key t v l) (sd_layers ?db1)\<rparr>)"
      if "om_get (sd_layers ?db1) ci = Some l" for l
      using that by (intro shadow_ok_insert [OF ok1] add_read_ok)
    have "db' = ?db1 \<or> (\<exists>l. om_get (sd_layers ?db1) ci = Some l \<and> db' = ?db1\<lparr>sd_layers := om_insert ci (add_read key t v l) (sd_layers ?db1)\<rparr>)"
      using run False layer(1) Some by (auto simp: readlast_storage_def y Let_def split: option.splits if_splits)
    then show ?thesis using ok1 ok2 by blast
  qed
qed

lemma abort_shadow_ok:
  assumes "shadow_ok cb db" and "abort_tx ci t db = (db', notified)"
  shows "shadow_ok cb db'"
proof (cases "om_get (sd_layers db) ci")
  case (Some layer)
  then have "layer_ok cb ci layer" using assms(1) by (simp add: shadow_ok_def)
  from shadow_ok_insert [OF assms(1) layer_ok_map [OF this abort_slot_ok]] assms(2) Some show ?thesis
    by (auto simp: abort_tx_def Let_def)
qed (use assms in \<open>simp add: abort_tx_def\<close>)

lemma commit_tx_shadow_ok:
  assumes "shadow_ok cb db"
  shows "shadow_ok cb (commit_tx_execution ci t st db)"
proof (cases "om_get (sd_layers db) ci")
  case (Some layer)
  then have lok: "layer_ok cb ci layer" and cb: "sd_coinbase db = cb" using assms by (simp_all add: shadow_ok_def)
  have "layer_ok cb ci ((layer\<lparr>rl_slot_versions := om_map_values (\<lambda>_. clear_slot t) (rl_slot_versions layer)\<rparr>)\<lparr>rl_tx_reads :=
      om_remove t (rl_tx_reads layer)\<rparr>)"
    using layer_ok_map [OF lok clear_slot_ok] by (simp add: layer_ok_def)
  then show ?thesis using assms Some by (simp add: commit_tx_execution_def cb shadow_ok_insert record_state_ok)
qed (use assms in \<open>simp add: commit_tx_execution_def\<close>)

text \<open>
  \<^bold>\<open>C21\<close> Well-formedness of every reachable shadow database: a layer carries the index it is stored
  under, no account version of the coinbase is ever kept, the marker \<open>Absent\<close> is never stored, and
  exactly the transactions with a version of a slot have a list of readers there.
\<close>

theorem reachable_shadow_ok:
  assumes "reachable D cb db"
  shows "shadow_ok cb db"
  using assms
proof (induction rule: reachable.induct)
  case (set_tx db ci t)
  then show ?case by (simp add: set_current_tx_def shadow_ok_def)
next
  case (ensure db ci)
  then show ?case unfolding ensure_layer_def om_or_insert_def by (intro shadow_ok_insert layer_ok_get)
next
  case (record_tx db ci t st)
  then have "sd_coinbase db = cb" by (simp add: shadow_ok_def)
  then show ?case unfolding record_tx_execution_def Let_def
    using record_tx.IH by (simp add: shadow_ok_insert record_state_ok layer_ok_get)
next
  case (abort db ci t db' notified)
  show ?case by (rule abort_shadow_ok [OF abort.IH abort.hyps(2)])
next
  case (commit_tx db ci t st)
  show ?case by (rule commit_tx_shadow_ok [OF commit_tx.IH])
next
  case (read db a k db' r)
  then show ?case by (auto simp: storage_ref_def res_simps split: option.splits dest: readlast_storage_ok)
next
  case (cascade db base changed db' invalidated)
  then show ?case by (auto simp: cascade_invalidate_def shadow_ok_def clear_layer_ok)
next
  case (stage db ci order db' handle)
  then show ?case by (auto simp: stage_commit_def Let_def shadow_ok_def layer_ok_status split: option.splits if_splits)
next
  case (finalize db ci diff db' r)
  then show ?case by (auto simp: finalize_commit_def shadow_ok_def res_simps split: option.splits if_splits)
qed (rule shadow_ok_new)

section \<open>Abort and dependency notification\<close>

lemma set_sort_dedup: "set (sort_dedup xs) = set xs"
  by (simp add: sort_dedup_def)

lemma sort_dedup_strict: "sorted_wrt (<) (sort_dedup xs)"
proof -
  have "sorted_wrt (<) (remdups_adj ys)" if "sorted ys" for ys :: "TxIndex list"
    using that by (induction ys rule: remdups_adj.induct) (auto simp: le_less)
  then show ?thesis by (simp add: sort_dedup_def)
qed

text \<open>The transactions registered as readers of the version of a transaction.\<close>

definition readers_at :: "'info RoundLayer \<Rightarrow> TxIndex \<Rightarrow> SlotKey \<Rightarrow> TxIndex set" where
  "readers_at layer t key = (case om_get (rl_slot_versions layer) key of None \<Rightarrow> {} | Some sv \<Rightarrow> set (slot_readers t sv))"

definition readers_of :: "('db, 'info) ShadowDb \<Rightarrow> u64 \<Rightarrow> TxIndex \<Rightarrow> SlotKey \<Rightarrow> TxIndex set" where
  "readers_of db ci t key = (case om_get (sd_layers db) ci of None \<Rightarrow> {} | Some layer \<Rightarrow> readers_at layer t key)"

lemma set_abort_notified: "set (snd (abort_tx ci t db)) = (\<Union>key. readers_of db ci t key)"
proof (cases "om_get (sd_layers db) ci")
  case (Some layer)
  have "set (concat (map (slot_readers t) (om_values (rl_slot_versions layer)))) = (\<Union>key. readers_at layer t key)"
    by (force simp: readers_at_def set_om_values split: option.splits)
  then show ?thesis by (simp add: abort_tx_def readers_of_def Some Let_def set_sort_dedup)
qed (simp add: abort_tx_def readers_of_def)

lemma slot_readers_abort: "slot_readers u (abort_slot t sv) = (if u = t then [] else slot_readers u sv)"
  by (auto simp: slot_readers_def abort_slot_def split: option.splits)

lemma readers_at_abort:
  "readers_at (layer\<lparr>rl_slot_versions := om_map_values (\<lambda>_. abort_slot t) (rl_slot_versions layer)\<rparr>) u key =
     (if u = t then {} else readers_at layer u key)"
  by (auto simp: readers_at_def slot_readers_abort split: option.splits)

lemma version_abort:
  "version (layer\<lparr>rl_slot_versions := om_map_values (\<lambda>_. abort_slot t) (rl_slot_versions layer)\<rparr>) key u =
     (if u = t then map_option (\<lambda>_. Pending) (version layer key u) else version layer key u)"
  by (auto simp: version_def abort_slot_def split: option.splits)

lemma db_version_abort:
  "db_version (fst (abort_tx ci t db)) key q =
     (if q = (ci, t) then map_option (\<lambda>_. Pending) (db_version db key q) else db_version db key q)"
  by (cases q) (auto simp: abort_tx_def db_version_def Let_def version_abort split: option.splits)

lemma readers_of_abort: "readers_of (fst (abort_tx ci t db)) ci' u key = (if ci' = ci \<and> u = t then {} else readers_of db ci' u key)"
  by (cases "om_get (sd_layers db) ci") (simp_all add: abort_tx_def readers_of_def Let_def readers_at_abort)

text \<open>
  \<^bold>\<open>C20\<close> Aborting a transaction returns, in ascending order and without repetition, exactly the
  transactions registered as readers of one of its versions; it turns exactly its versions into
  \<open>Pending\<close>, forgets exactly its readers, and aborting it again notifies nobody.
\<close>

theorem abort_tx_exact:
  "sorted_wrt (<) (snd (abort_tx ci t db)) \<and> set (snd (abort_tx ci t db)) = (\<Union>key. readers_of db ci t key) \<and>
   (\<forall>key q. db_version (fst (abort_tx ci t db)) key q =
      (if q = (ci, t) then map_option (\<lambda>_. Pending) (db_version db key q) else db_version db key q)) \<and>
   (\<forall>key ci' u. readers_of (fst (abort_tx ci t db)) ci' u key = (if ci' = ci \<and> u = t then {} else readers_of db ci' u key)) \<and>
   snd (abort_tx ci t (fst (abort_tx ci t db))) = []"
proof (intro conjI allI)
  show "sorted_wrt (<) (snd (abort_tx ci t db))" by (simp add: abort_tx_def Let_def sort_dedup_strict split: option.splits)
  have "set (snd (abort_tx ci t (fst (abort_tx ci t db)))) = {}" by (simp add: set_abort_notified readers_of_abort)
  then show "snd (abort_tx ci t (fst (abort_tx ci t db))) = []" by simp
qed (simp_all add: set_abort_notified db_version_abort readers_of_abort)

lemma readers_of_add_reader:
  assumes "om_get (sd_layers db) wci = Some layer"
  shows "u \<in> readers_of (db\<lparr>sd_layers := om_insert wci (add_reader key w u layer) (sd_layers db)\<rparr>) wci w key"
  by (simp add: readers_of_def readers_at_def add_reader_def slot_readers_def Let_def)

lemma readers_of_add_read:
  assumes "om_get (sd_layers db) ci = Some layer"
  shows "readers_of (db\<lparr>sd_layers := om_insert ci (add_read key' u v layer) (sd_layers db)\<rparr>) wci w key = readers_of db wci w key"
  using assms by (simp add: readers_of_def readers_at_def add_read_def)

lemma readers_of_add_reader_other:
  assumes "om_get (sd_layers db) wci = Some layer" and "(ci', u', key') \<noteq> (wci, w, key)"
  shows "readers_of (db\<lparr>sd_layers := om_insert wci (add_reader key w u layer) (sd_layers db)\<rparr>) ci' u' key' = readers_of db ci' u' key'"
  using assms by (auto simp: readers_of_def readers_at_def add_reader_def slot_readers_def Let_def SlotVersions_default_def split: option.splits)

text \<open>A read that finds a version registers its transaction as a reader of that version, and of no other.\<close>

lemma readlast_registers:
  assumes found: "search_layers key ci t (rev (entries (sd_layers db))) = Some (wci, w, v, p)"
    and run: "readlast_storage key ci t db = Inr (db', x)"
  shows "t \<in> readers_of db' wci w key"
    and "(ci', u', key') \<noteq> (wci, w, key) \<Longrightarrow> readers_of db' ci' u' key' = readers_of db ci' u' key'"
proof -
  have "db_version db key (wci, w) \<noteq> None" using search_layers_Some(3) [of key "(ci, t)" db wci w v p] found by auto
  then obtain layer where layer: "om_get (sd_layers db) wci = Some layer" by (auto simp: db_version_def split: option.splits)
  let ?db1 = "db\<lparr>sd_layers := om_insert wci (add_reader key w t layer) (sd_layers db)\<rparr>"
  have ins: "t \<in> readers_of ?db1 wci w key" by (rule readers_of_add_reader [OF layer])
  have "db' = ?db1 \<or> (\<exists>l. om_get (sd_layers ?db1) ci = Some l \<and> db' = ?db1\<lparr>sd_layers := om_insert ci (add_read key t v l) (sd_layers ?db1)\<rparr>)"
  proof (cases "wci = ci")
    case True
    then have "db' = ?db1 \<or> db' = db\<lparr>sd_layers := om_insert ci (add_read key t v (add_reader key w t layer)) (sd_layers db)\<rparr>"
      using run found layer by (auto simp: readlast_storage_def Let_def split: if_splits)
    with True show ?thesis by (auto simp: om.ins_ins)
  next
    case False
    then show ?thesis using run found layer by (auto simp: readlast_storage_def Let_def split: option.splits if_splits)
  qed
  then have same: "readers_of db' c u k = readers_of ?db1 c u k" for c u k using readers_of_add_read by metis
  show "t \<in> readers_of db' wci w key" using ins by (simp add: same)
  show "readers_of db' ci' u' key' = readers_of db ci' u' key'" if "(ci', u', key') \<noteq> (wci, w, key)"
    using readers_of_add_reader_other [OF layer that] by (simp add: same)
qed

text \<open>The version that a read finds is the newest one its position sees.\<close>

lemma newest_visible_found:
  assumes run: "storage_ref D a k db = Inr (db', r)"
    and writer: "db_version db (a, k) (wci, w) = Some vv" "vv \<noteq> Absent" "sees (sd_current_commit_index db, sd_current_tx db) (wci, w)"
    and newest: "\<forall>q vv. db_version db (a, k) q = Some vv \<and> vv \<noteq> Absent \<and>
      sees (sd_current_commit_index db, sd_current_tx db) q \<longrightarrow> q \<le> (wci, w)"
  obtains v p x where "search_layers (a, k) (sd_current_commit_index db) (sd_current_tx db) (rev (entries (sd_layers db))) = Some (wci, w, v, p)"
    and "readlast_storage (a, k) (sd_current_commit_index db) (sd_current_tx db) db = Inr (db', x)"
    and "\<And>d. vv = Data d \<Longrightarrow> v = d \<and> \<not> p"
proof -
  let ?r = "(sd_current_commit_index db, sd_current_tx db)"
  have "search_layers (a, k) (fst ?r) (snd ?r) (rev (entries (sd_layers db))) \<noteq> None"
    using writer unfolding search_layers_None by blast
  then obtain ci' w' v p where found: "search_layers (a, k) (fst ?r) (snd ?r) (rev (entries (sd_layers db))) = Some (ci', w', v, p)"
    by (metis option.exhaust prod.collapse)
  note s = search_layers_Some [OF found]
  have "(wci, w) \<le> (ci', w')" by (rule s(2) [OF writer])
  moreover have "(ci', w') \<le> (wci, w)" using s(1,3) newest by blast
  ultimately have pos: "(ci', w') = (wci, w)" by (rule order.antisym [OF _ _, rotated])
  obtain x where "readlast_storage (a, k) (sd_current_commit_index db) (sd_current_tx db) db = Inr (db', x)"
    using run by (auto simp: storage_ref_def res_simps split: option.splits)
  moreover have "v = d \<and> \<not> p" if "vv = Data d" for d using s(3) pos writer(1) that by auto
  ultimately show thesis using that found pos by simp
qed


text \<open>
  The comment in the fallback branch of \<^verbatim>\<open>readlast_storage\<close> announces a registration on the pending writer
  and on the writer of the data that is read instead. The second one does not happen: a read whose
  newest visible version belongs to \<open>w\<close> of round \<open>wci\<close> leaves the readers of every other transaction as they
  were, so that aborting any other transaction notifies exactly whom it would have notified before the read.
\<close>

theorem other_writers_not_notified:
  assumes "storage_ref D a k db = Inr (db', r)"
    and "db_version db (a, k) (wci, w) = Some vv" "vv \<noteq> Absent" "sees (sd_current_commit_index db, sd_current_tx db) (wci, w)"
    and "\<And>q vv. db_version db (a, k) q = Some vv \<Longrightarrow> vv \<noteq> Absent \<Longrightarrow>
      sees (sd_current_commit_index db, sd_current_tx db) q \<Longrightarrow> q \<le> (wci, w)"
    and other: "(ci, u) \<noteq> (wci, w)"
  shows "set (snd (abort_tx ci u db')) = set (snd (abort_tx ci u db))"
proof -
  have n: "\<forall>q vv. db_version db (a, k) q = Some vv \<and> vv \<noteq> Absent \<and>
      sees (sd_current_commit_index db, sd_current_tx db) q \<longrightarrow> q \<le> (wci, w)" using assms(5) by blast
  from newest_visible_found [OF assms(1-4) n] obtain v p x where
    "search_layers (a, k) (sd_current_commit_index db) (sd_current_tx db) (rev (entries (sd_layers db))) = Some (wci, w, v, p)"
    "readlast_storage (a, k) (sd_current_commit_index db) (sd_current_tx db) db = Inr (db', x)" .
  from readlast_registers(2) [OF this, of ci u] other have "readers_of db' ci u key = readers_of db ci u key" for key by blast
  then show ?thesis by (simp add: set_abort_notified)
qed

section \<open>Validation\<close>

text \<open>The value of a slot that the versions of its own round give a transaction: the newest data below it.\<close>

definition round_value :: "'info RoundLayer \<Rightarrow> SlotKey \<Rightarrow> TxIndex \<Rightarrow> StorageValue option \<Rightarrow> bool" where
  "round_value layer key t x \<longleftrightarrow> (case x of
       Some v \<Rightarrow> (\<exists>w < t. version layer key w = Some (Data v) \<and> (\<forall>w' < t. (\<exists>v'. version layer key w' = Some (Data v')) \<longrightarrow> w' \<le> w))
     | None \<Rightarrow> (\<forall>w < t. \<forall>v. version layer key w \<noteq> Some (Data v)))"

lemma readlast_in_layer_round_value:
  "om_get (rl_slot_versions layer) key = Some sv \<Longrightarrow> round_value layer key t (readlast_in_layer sv t)"
proof (cases "find_data (below_rev t (sv_versions sv))")
  case None
  assume "om_get (rl_slot_versions layer) key = Some sv"
  with None find_data_below(2) [of t "sv_versions sv"] show ?thesis by (auto simp: round_value_def readlast_in_layer_def version_def)
next
  case (Some e)
  assume sv: "om_get (rl_slot_versions layer) key = Some sv"
  obtain w v where e: "e = (w, v)" by (cases e)
  from Some [unfolded e] find_data_below(1) [of t "sv_versions sv" w v]
  have "om_get (sv_versions sv) w = Some (Data v)" "w < t" "\<forall>k' v'. om_get (sv_versions sv) k' = Some (Data v') \<and> k' < t \<longrightarrow> k' \<le> w"
    by blast+
  with sv Some show ?thesis by (auto simp: round_value_def readlast_in_layer_def version_def e intro!: exI [of _ w])
qed

lemma round_value_unique: "round_value layer key t x \<Longrightarrow> round_value layer key t y \<Longrightarrow> x = y"
proof (cases x; cases y)
  fix v v' assume rv: "round_value layer key t x" "round_value layer key t y" and xy: "x = Some v" "y = Some v'"
  from rv(1) obtain w where w: "w < t" "version layer key w = Some (Data v)"
    "\<forall>w' < t. (\<exists>v'. version layer key w' = Some (Data v')) \<longrightarrow> w' \<le> w" by (auto simp: round_value_def xy)
  from rv(2) obtain w2 where w2: "w2 < t" "version layer key w2 = Some (Data v')"
    "\<forall>w' < t. (\<exists>v'. version layer key w' = Some (Data v')) \<longrightarrow> w' \<le> w2" by (auto simp: round_value_def xy)
  have "w = w2" using w w2 by (meson order.antisym)
  with w(2) w2(2) xy show "x = y" by simp
qed (auto simp: round_value_def)

text \<open>A recorded read: transaction \<open>t\<close> of the layer read \<open>v\<close> from the slot.\<close>

definition recorded_read :: "'info RoundLayer \<Rightarrow> TxIndex \<Rightarrow> SlotKey \<Rightarrow> StorageValue \<Rightarrow> bool" where
  "recorded_read layer t key v \<longleftrightarrow> (\<exists>reads. om_get (rl_tx_reads layer) t = Some reads \<and> om_get reads key = Some v)"

text \<open>
  \<^bold>\<open>C19\<close> Validation within a round is exact: it returns transactions in ascending order and without
  repetition, and among the transactions whose recorded reads of slots written in the round have a
  writer of that round before them (possibly aborted since), exactly those with a recorded read whose
  value is not the newest data that the transactions before the reader left in this round. Reads that
  an earlier round served while only later transactions of the round write the slot are outside of
  this statement.
\<close>

theorem validate_round_exact:
  assumes layer: "om_get (sd_layers db) ci = Some layer"
    and own: "\<forall>key v. recorded_read layer t key v \<and> om_contains (rl_slot_versions layer) key \<longrightarrow> (\<exists>w < t. version layer key w \<noteq> None)"
  shows "sorted_wrt (<) (validate_round ci db) \<and>
    (t \<in> set (validate_round ci db) \<longleftrightarrow>
      (\<exists>key v. recorded_read layer t key v \<and> (\<exists>w < t. version layer key w \<noteq> None) \<and> \<not> round_value layer key t (Some v)))"
proof (intro conjI)
  show "sorted_wrt (<) (validate_round ci db)" by (simp add: validate_round_def layer sort_dedup_strict)
  have stale: "stale_read layer t (key, v) \<longleftrightarrow> om_contains (rl_slot_versions layer) key \<and> \<not> round_value layer key t (Some v)" for key v
  proof (cases "om_get (rl_slot_versions layer) key")
    case (Some sv)
    from readlast_in_layer_round_value [OF this, of t] show ?thesis
      using round_value_unique by (fastforce simp: stale_read_def om_contains_iff Some)
  qed (simp add: stale_read_def om_contains_iff)
  have "t \<in> set (validate_round ci db) \<longleftrightarrow>
      (\<exists>reads. om_get (rl_tx_reads layer) t = Some reads \<and> (\<exists>key v. om_get reads key = Some v \<and> stale_read layer t (key, v)))"
    by (force simp: validate_round_def layer set_sort_dedup set_entries list_ex_iff image_iff)
  then have "t \<in> set (validate_round ci db) \<longleftrightarrow>
      (\<exists>key v. recorded_read layer t key v \<and> om_contains (rl_slot_versions layer) key \<and> \<not> round_value layer key t (Some v))"
    unfolding stale recorded_read_def by blast
  moreover have "om_contains (rl_slot_versions layer) key" if "version layer key w \<noteq> None" for key w
    using that by (auto simp: version_def om_contains_iff split: option.splits)
  ultimately show "t \<in> set (validate_round ci db) \<longleftrightarrow>
      (\<exists>key v. recorded_read layer t key v \<and> (\<exists>w < t. version layer key w \<noteq> None) \<and> \<not> round_value layer key t (Some v))"
    using own by blast
qed

section \<open>Cascading invalidation\<close>

lemma layer_touches_iff:
  "layer_touches changed layer \<longleftrightarrow> (\<exists>key. key |\<in>| changed \<and>
     (om_contains (rl_slot_versions layer) key \<or> (\<exists>t v. recorded_read layer t key v)))"
  unfolding layer_touches_def list_ex_iff Bex_def set_om_keys set_om_values om_contains_iff recorded_read_def by blast

lemma not_PendingCommit: "s \<noteq> PendingCommit \<longleftrightarrow> s = Speculative"
  by (cases s) simp_all

text \<open>
  \<^bold>\<open>C18\<close> Cascading invalidation clears exactly the speculative layers after the base that wrote or
  read a changed slot: their versions and reads are dropped, their pending transactions and status are
  kept, all other layers are untouched, the cleared layers are returned in ascending order, and
  repeating the call changes nothing more.
\<close>

theorem cascade_invalidate_exact:
  assumes "cascade_invalidate base changed db = (db', invalidated)"
  shows "sorted_wrt (<) invalidated \<and>
    (\<forall>ci. ci \<in> set invalidated \<longleftrightarrow> (\<exists>layer. om_get (sd_layers db) ci = Some layer \<and> base < ci \<and> rl_status layer = Speculative \<and>
       (\<exists>key. key |\<in>| changed \<and> (om_contains (rl_slot_versions layer) key \<or> (\<exists>t v. recorded_read layer t key v))))) \<and>
    (\<forall>ci. om_get (sd_layers db') ci = (if ci \<in> set invalidated
       then map_option (\<lambda>l. (RoundLayer_new (rl_commit_index l))\<lparr>rl_pending_txs := rl_pending_txs l\<rparr>) (om_get (sd_layers db) ci)
       else om_get (sd_layers db) ci)) \<and>
    cascade_invalidate base changed db' = (db', [])"
proof (intro conjI allI)
  have inv: "invalidated = map fst (filter (\<lambda>(ci, layer). must_invalidate base changed ci layer) (entries (sd_layers db)))"
    and lay: "\<And>ci. om_get (sd_layers db') ci =
      map_option (\<lambda>l. if must_invalidate base changed ci l then clear_layer l else l) (om_get (sd_layers db) ci)"
    using assms by (auto simp: cascade_invalidate_def)
  have mem: "ci \<in> set invalidated \<longleftrightarrow> (\<exists>layer. om_get (sd_layers db) ci = Some layer \<and> must_invalidate base changed ci layer)" for ci
    by (force simp: inv set_entries)
  have "sorted_wrt (\<lambda>x y. fst x < fst y) (entries (sd_layers db))" using ascending_entries by (simp add: sorted_wrt_map)
  then show "sorted_wrt (<) invalidated" unfolding inv by (simp add: sorted_wrt_map sorted_wrt_filter)
  show "ci \<in> set invalidated \<longleftrightarrow> (\<exists>layer. om_get (sd_layers db) ci = Some layer \<and> base < ci \<and> rl_status layer = Speculative \<and>
       (\<exists>key. key |\<in>| changed \<and> (om_contains (rl_slot_versions layer) key \<or> (\<exists>t v. recorded_read layer t key v))))" for ci
    by (simp add: mem must_invalidate_def layer_touches_iff not_PendingCommit not_le)
  have clear: "clear_layer l = (RoundLayer_new (rl_commit_index l))\<lparr>rl_pending_txs := rl_pending_txs l\<rparr>"
    if "must_invalidate base changed ci l" for ci l
    using that by (cases l) (simp add: clear_layer_def RoundLayer_new_def must_invalidate_def not_PendingCommit)
  show "om_get (sd_layers db') ci = (if ci \<in> set invalidated
       then map_option (\<lambda>l. (RoundLayer_new (rl_commit_index l))\<lparr>rl_pending_txs := rl_pending_txs l\<rparr>) (om_get (sd_layers db) ci)
       else om_get (sd_layers db) ci)" for ci
    using clear [of ci] by (cases "om_get (sd_layers db) ci") (auto simp: lay mem)
  have none: "\<not> must_invalidate base changed ci l" if old: "om_get (sd_layers db') ci = Some l" for ci l
  proof -
    obtain l0 where l0: "om_get (sd_layers db) ci = Some l0" "l = (if must_invalidate base changed ci l0 then clear_layer l0 else l0)"
      using old by (auto simp: lay)
    show ?thesis
    proof (cases "must_invalidate base changed ci l0")
      case True
      then have "\<not> layer_touches changed l" by (simp add: l0(2) layer_touches_iff clear_layer_def recorded_read_def)
      then show ?thesis by (simp add: must_invalidate_def)
    qed (simp add: l0(2))
  qed
  have "sd_layers db' = om_map_values (\<lambda>ci l. if must_invalidate base changed ci l then clear_layer l else l) (sd_layers db')"
  proof (rule om_ext)
    fix ci show "om_get (sd_layers db') ci =
        om_get (om_map_values (\<lambda>ci l. if must_invalidate base changed ci l then clear_layer l else l) (sd_layers db')) ci"
      by (cases "om_get (sd_layers db') ci") (simp_all add: none)
  qed
  moreover have "filter (\<lambda>(ci, layer). must_invalidate base changed ci layer) (entries (sd_layers db')) = []"
    by (auto simp: filter_empty_conv set_entries none)
  ultimately show "cascade_invalidate base changed db' = (db', [])" by (simp add: cascade_invalidate_def)
qed

section \<open>Two-phase commit\<close>

text \<open>A sequence of requests to finalise, and the answers.\<close>

fun finalize_all ::
  "('db, 'info, 'code, 'err, 'changes) Database \<Rightarrow> (u64 \<times> 'changes RoundDiff) list \<Rightarrow> ('db, 'info) ShadowDb \<Rightarrow>
   (('db, 'info) ShadowDb \<times> (ShadowCommitError + unit) list) res"
where
  "finalize_all D [] db = Inr (db, [])"
| "finalize_all D ((ci, diff) # reqs) db =
     rbind (finalize_commit D ci diff db) (\<lambda>(db1, r).
     rbind (finalize_all D reqs db1) (\<lambda>(db2, rs). Inr (db2, r # rs)))"

definition accepted :: "(u64 \<times> 'changes RoundDiff) list \<Rightarrow> (ShadowCommitError + unit) list \<Rightarrow> (u64 \<times> 'changes RoundDiff) list" where
  "accepted reqs rs = map fst (filter (\<lambda>(req, r). r = Inr ()) (zip reqs rs))"

definition finalized_up_to :: "nat \<Rightarrow> ('db, 'info) ShadowDb \<Rightarrow> bool" where
  "finalized_up_to n db \<longleftrightarrow> sd_last_finalized db = (if n = 0 then None else Some (word_of_nat n)) \<and>
     (\<forall>ci. om_contains (sd_layers db) ci \<longrightarrow> n = 0 \<or> word_of_nat n < ci)"

lemma finalize_step:
  assumes up: "finalized_up_to n db" and n: "n + 1 < 2 ^ 64"
  shows "finalize_commit D ci diff db = Inr
    (if ci = word_of_nat (n + 1)
     then (db\<lparr>sd_canonical := db_commit D (rd_changes diff) (sd_canonical db),
            sd_layers := om_filter_keys (\<lambda>c. c > ci) (sd_layers db), sd_last_finalized := Some ci\<rparr>, Inr ())
     else (db, Inl OutOfOrder))"
proof (cases n)
  case 0
  then show ?thesis using up by (simp add: finalize_commit_def finalized_up_to_def)
next
  case (Suc m)
  have u: "unat (word_of_nat n :: u64) = n" using n by (simp add: unat_of_nat)
  have "(word_of_nat n :: u64) + 1 = word_of_nat (n + 1)" by simp
  moreover have "unat (word_of_nat n :: u64) + unat (1 :: u64) < 2 ^ LENGTH(64)" unfolding u using n by simp
  ultimately have "checked_add (word_of_nat n) (1 :: u64) = Inr (word_of_nat (n + 1))" unfolding checked_add_def by (simp only: if_True)
  moreover have "sd_last_finalized db = Some (word_of_nat n)" using up Suc by (simp add: finalized_up_to_def)
  ultimately show ?thesis unfolding finalize_commit_def by (simp del: of_nat_Suc of_nat_add)
qed

lemma finalize_all_run:
  assumes "finalized_up_to n db" and "n + length reqs < 2 ^ 64 - 1"
  shows "\<exists>db' rs. finalize_all D reqs db = Inr (db', rs) \<and> length rs = length reqs \<and> set rs \<subseteq> {Inr (), Inl OutOfOrder} \<and>
    map (\<lambda>x. unat (fst x)) (accepted reqs rs) = [Suc n ..< Suc n + length (accepted reqs rs)] \<and>
    sd_canonical db' = fold (\<lambda>x. db_commit D (rd_changes (snd x))) (accepted reqs rs) (sd_canonical db) \<and>
    finalized_up_to (n + length (accepted reqs rs)) db'"
  using assms
proof (induction reqs arbitrary: n db)
  case (Cons req reqs)
  obtain ci diff where req: "req = (ci, diff)" by (cases req)
  have n: "n + 1 < 2 ^ 64" using Cons.prems(2) by simp
  note step = finalize_step [OF Cons.prems(1) n, of D ci diff]
  show ?case
  proof (cases "ci = word_of_nat (n + 1)")
    case True
    let ?db = "db\<lparr>sd_canonical := db_commit D (rd_changes diff) (sd_canonical db),
            sd_layers := om_filter_keys (\<lambda>c. c > ci) (sd_layers db), sd_last_finalized := Some ci\<rparr>"
    have u: "unat ci = Suc n" using n by (simp add: True unat_of_nat del: of_nat_Suc of_nat_add)
    have "finalized_up_to (Suc n) ?db" using True by (auto simp: finalized_up_to_def om_contains_def split: if_splits)
    moreover have "Suc n + length reqs < 2 ^ 64 - 1" using Cons.prems(2) by simp
    ultimately obtain db' rs where run: "finalize_all D reqs ?db = Inr (db', rs)" "length rs = length reqs" "set rs \<subseteq> {Inr (), Inl OutOfOrder}"
      "map (\<lambda>x. unat (fst x)) (accepted reqs rs) = [Suc (Suc n) ..< Suc (Suc n) + length (accepted reqs rs)]"
      "sd_canonical db' = fold (\<lambda>x. db_commit D (rd_changes (snd x))) (accepted reqs rs) (sd_canonical ?db)"
      "finalized_up_to (Suc n + length (accepted reqs rs)) db'" using Cons.IH by blast
    have "accepted (req # reqs) (Inr () # rs) = req # accepted reqs rs" by (simp add: accepted_def)
    moreover have "finalize_all D (req # reqs) db = Inr (db', Inr () # rs)" using step True run(1) by (simp add: req)
    ultimately show ?thesis using run(2-6) u by (intro exI [of _ db'] exI [of _ "Inr () # rs"]) (simp add: req upt_conv_Cons del: upt_Suc)
  next
    case False
    from Cons.IH [OF Cons.prems(1)] Cons.prems(2) obtain db' rs where run: "finalize_all D reqs db = Inr (db', rs)" "length rs = length reqs"
      "set rs \<subseteq> {Inr (), Inl OutOfOrder}" "map (\<lambda>x. unat (fst x)) (accepted reqs rs) = [Suc n ..< Suc n + length (accepted reqs rs)]"
      "sd_canonical db' = fold (\<lambda>x. db_commit D (rd_changes (snd x))) (accepted reqs rs) (sd_canonical db)"
      "finalized_up_to (n + length (accepted reqs rs)) db'" by auto
    have "accepted (req # reqs) (Inl OutOfOrder # rs) = accepted reqs rs" by (simp add: accepted_def)
    moreover have "finalize_all D (req # reqs) db = Inr (db', Inl OutOfOrder # rs)" using step False run(1) by (simp add: req)
    ultimately show ?thesis using run(2-6) by (intro exI [of _ db'] exI [of _ "Inl OutOfOrder # rs"]) simp
  qed
qed (simp add: accepted_def)

text \<open>
  \<^bold>\<open>C10\<close> However rounds are submitted for finalisation, the accepted ones are the rounds 1, 2, 3
  and so on without gap or repetition; the canonical database is the initial one with exactly the
  accepted diffs committed in that order; every other request is answered with \<open>OutOfOrder\<close>
  (\<open>LayerNotFound\<close> never occurs); layers of finalised rounds are gone; and there is no panic.
\<close>

theorem finalized_in_order:
  assumes "sd_last_finalized db = None" and "length reqs < 2 ^ 64 - 1"
  shows "\<exists>db' rs. finalize_all D reqs db = Inr (db', rs) \<and> set rs \<subseteq> {Inr (), Inl OutOfOrder} \<and>
    map (\<lambda>x. unat (fst x)) (accepted reqs rs) = [1 ..< Suc (length (accepted reqs rs))] \<and>
    sd_canonical db' = fold (\<lambda>x. db_commit D (rd_changes (snd x))) (accepted reqs rs) (sd_canonical db) \<and>
    (\<forall>x \<in> set (accepted reqs rs). \<not> om_contains (sd_layers db') (fst x))"
proof -
  have "finalized_up_to 0 db" using assms(1) by (simp add: finalized_up_to_def)
  from finalize_all_run [OF this, of reqs D] assms(2) obtain db' rs where run: "finalize_all D reqs db = Inr (db', rs)"
    "set rs \<subseteq> {Inr (), Inl OutOfOrder}" "map (\<lambda>x. unat (fst x)) (accepted reqs rs) = [1 ..< Suc (length (accepted reqs rs))]"
    "sd_canonical db' = fold (\<lambda>x. db_commit D (rd_changes (snd x))) (accepted reqs rs) (sd_canonical db)"
    "finalized_up_to (length (accepted reqs rs)) db'" "length rs = length reqs" by auto
  have "\<not> om_contains (sd_layers db') (fst x)" if "x \<in> set (accepted reqs rs)" for x
  proof
    assume c: "om_contains (sd_layers db') (fst x)"
    have "unat (fst x) \<in> set (map (\<lambda>x. unat (fst x)) (accepted reqs rs))" using that by auto
    then have le: "unat (fst x) \<le> length (accepted reqs rs)" unfolding run(3) by auto
    have "length (accepted reqs rs) \<le> length reqs" unfolding accepted_def length_map using length_filter_le [of _ "zip reqs rs"] run(6) by (metis length_zip min.idem)
    then have "unat (word_of_nat (length (accepted reqs rs)) :: u64) = length (accepted reqs rs)" using assms(2) by (simp add: unat_of_nat)
    moreover have "(word_of_nat (length (accepted reqs rs)) :: u64) < fst x" using run(5) c that by (auto simp: finalized_up_to_def)
    ultimately show False using le by (simp add: word_less_nat_alt)
  qed
  with run show ?thesis by blast
qed

end
