(* ===== verification/Shadow_Tests.thy ===== *)
theory Shadow_Tests
  imports Shadow_Protocol
begin

text \<open>
  The tests of \<^verbatim>\<open>crates/shadow-state\<close> as definitions that are evaluated, concrete inputs for the
  theorems of the two other theories, and runs that show where the shadow database departs from its
  documentation. A test returns \<open>Inr ()\<close> when all its assertions hold. Tests that use
  \<^verbatim>\<open>EmptyDB\<close> of \<^verbatim>\<open>revm\<close> take the canonical database as a parameter; they are evaluated on the
  in-memory database of the same test module, which is empty at the start as well. Account information
  plays no role in the tests and is the unit type.
\<close>

section \<open>The in-memory database and the helpers\<close>

record InMemoryDb =
  imd_storage :: "(SlotKey, StorageValue) omap"

definition InMemoryDb_default :: InMemoryDb where
  "InMemoryDb_default = \<lparr>imd_storage = om_empty\<rparr>"

definition imd_commit :: "'info EvmState \<Rightarrow> InMemoryDb \<Rightarrow> InMemoryDb" where
  "imd_commit changes db = fold (\<lambda>(addr, account). fold (\<lambda>(sk, slot) db.
      db\<lparr>imd_storage := om_insert (addr, sk) (slot_present_value slot) (imd_storage db)\<rparr>) (entries (acc_storage account)))
    (entries changes) db"

text \<open>The error type \<^verbatim>\<open>Infallible\<close> has no values; no operation returns one. The default bytecode
  is a value of \<^verbatim>\<open>revm\<close> and a parameter.\<close>

definition in_memory_db :: "'code \<Rightarrow> (InMemoryDb, 'info, 'code, unit, 'info EvmState) Database" where
  "in_memory_db bytecode_default =
     \<lparr>db_storage_ref = (\<lambda>db a i. Inr (get_or 0 (imd_storage db) (a, i))), db_basic_ref = (\<lambda>db a. Inr None),
      db_code_by_hash_ref = (\<lambda>db h. Inr bytecode_default), db_block_hash_ref = (\<lambda>db n. Inr 0),
      db_commit = imd_commit, db_error = (\<lambda>_. [])\<rparr>"

definition repeat_byte :: "u8 \<Rightarrow> Address" where
  "repeat_byte n = foldl (\<lambda>a b. a * 256 + ucast b) 0 (replicate 20 n)"

definition t_addr :: "u8 \<Rightarrow> Address" where "t_addr n = repeat_byte n"
definition t_slot :: "u64 \<Rightarrow> StorageKey" where "t_slot n = ucast n"
definition t_val :: "u64 \<Rightarrow> StorageValue" where "t_val n = ucast n"
definition t_coinbase :: Address where "t_coinbase = repeat_byte 0xff"

definition t_db :: "'db \<Rightarrow> ('db, unit) ShadowDb" where
  "t_db canonical = shadow_new canonical t_coinbase"

text \<open>\<^verbatim>\<open>EvmStorageSlot::new_changed\<close>; such a slot is changed when its two values differ.\<close>

definition new_changed :: "StorageValue \<Rightarrow> StorageValue \<Rightarrow> EvmSlot" where
  "new_changed original present = \<lparr>slot_is_changed = (original \<noteq> present), slot_present_value = present\<rparr>"

definition state_with_slots :: "Address \<Rightarrow> (StorageKey \<times> StorageValue \<times> StorageValue) list \<Rightarrow> unit EvmState" where
  "state_with_slots address slots =
     om_insert address \<lparr>acc_info = (), acc_storage = fold (\<lambda>(sk, orig, pres). om_insert sk (new_changed orig pres)) slots om_empty\<rparr> om_empty"

definition state_with_slot :: "Address \<Rightarrow> StorageKey \<Rightarrow> StorageValue \<Rightarrow> StorageValue \<Rightarrow> unit EvmState" where
  "state_with_slot address slot_key original present =
     om_insert address \<lparr>acc_info = (), acc_storage = om_insert slot_key (new_changed original present) om_empty\<rparr> om_empty"

text \<open>An assertion, \<^verbatim>\<open>storage_ref(..).unwrap()\<close>, \<^verbatim>\<open>layers[&ci]\<close> and its slot.\<close>

definition asserting :: "bool \<Rightarrow> 'a res \<Rightarrow> 'a res" where
  "asserting c k = rbind (guard Assert c) (\<lambda>_. k)"

definition reading :: "('db, 'info, 'code, 'err, 'changes) Database \<Rightarrow> Address \<Rightarrow> StorageKey \<Rightarrow> ('db, 'info) ShadowDb \<Rightarrow>
    (('db, 'info) ShadowDb \<Rightarrow> StorageValue \<Rightarrow> 'a res) \<Rightarrow> 'a res" where
  "reading D a k db f = rbind (storage_ref D a k db) (\<lambda>(db', r). case r of Inr v \<Rightarrow> f db' v | Inl _ \<Rightarrow> Inl UnwrapNone)"

definition layer_at :: "('db, 'info) ShadowDb \<Rightarrow> u64 \<Rightarrow> 'info RoundLayer res" where
  "layer_at db ci = unwrap (om_get (sd_layers db) ci)"

definition slot_at :: "('db, 'info) ShadowDb \<Rightarrow> u64 \<Rightarrow> SlotKey \<Rightarrow> SlotVersions res" where
  "slot_at db ci key = rbind (layer_at db ci) (\<lambda>layer. unwrap (om_get (rl_slot_versions layer) key))"

definition readers_idx :: "SlotVersions \<Rightarrow> TxIndex \<Rightarrow> TxIndex list res" where
  "readers_idx sv t = unwrap (om_get (sv_readers sv) t)"

definition no_readers :: "SlotVersions \<Rightarrow> TxIndex \<Rightarrow> bool" where
  "no_readers sv t = (case om_get (sv_readers sv) t of None \<Rightarrow> True | Some r \<Rightarrow> r = [])"

abbreviation "kA \<equiv> (t_addr 0xA, t_slot 1)"
abbreviation "wA present \<equiv> state_with_slot (t_addr 0xA) (t_slot 1) (t_val 0) (t_val present)"

section \<open>The tests\<close>

definition test_readlast_basic :: "('db, unit, 'code, 'err, 'changes) Database \<Rightarrow> 'db \<Rightarrow> unit res" where
  "test_readlast_basic D canon =
     (let db = ensure_layer 1 (t_db canon);
          db = record_tx_execution 1 2 (wA 100) db;
          db = set_current_tx 1 5 db
      in reading D (t_addr 0xA) (t_slot 1) db (\<lambda>db v.
         asserting (v = t_val 100) (
         rbind (slot_at db 1 kA) (\<lambda>sv. rbind (readers_idx sv 2) (\<lambda>r. asserting (5 \<in> set r) (Inr ()))))))"

definition test_readlast_skip_to_latest :: "('db, unit, 'code, 'err, 'changes) Database \<Rightarrow> 'db \<Rightarrow> unit res" where
  "test_readlast_skip_to_latest D canon =
     (let db = ensure_layer 1 (t_db canon);
          db = record_tx_execution 1 2 (wA 100) db;
          db = record_tx_execution 1 5 (wA 200) db;
          db = set_current_tx 1 8 db
      in reading D (t_addr 0xA) (t_slot 1) db (\<lambda>db v.
         asserting (v = t_val 200) (
         rbind (slot_at db 1 kA) (\<lambda>sv. rbind (readers_idx sv 5) (\<lambda>r. asserting (8 \<in> set r) (
         asserting (case om_get (sv_readers sv) 2 of None \<Rightarrow> True | Some r \<Rightarrow> 8 \<notin> set r) (Inr ())))))))"

definition test_readlast_no_writer_falls_to_canonical :: "('db, unit, 'code, 'err, 'changes) Database \<Rightarrow> 'db \<Rightarrow> unit res" where
  "test_readlast_no_writer_falls_to_canonical D canon =
     (let db = ensure_layer 1 (t_db canon);
          db = set_current_tx 1 3 db
      in reading D (t_addr 0xA) (t_slot 1) db (\<lambda>db v. asserting (v = 0) (Inr ())))"

definition test_pending_fallback_to_prior_data :: "('db, unit, 'code, 'err, 'changes) Database \<Rightarrow> 'db \<Rightarrow> unit res" where
  "test_pending_fallback_to_prior_data D canon =
     (let db = ensure_layer 1 (t_db canon);
          db = record_tx_execution 1 2 (wA 100) db;
          db = record_tx_execution 1 5 (wA 200) db;
          db = fst (abort_tx 1 5 db);
          db = set_current_tx 1 8 db
      in reading D (t_addr 0xA) (t_slot 1) db (\<lambda>db v.
         asserting (v = t_val 100) (
         rbind (slot_at db 1 kA) (\<lambda>sv. rbind (readers_idx sv 5) (\<lambda>r. asserting (8 \<in> set r) (Inr ()))))))"

definition test_pending_fallback_to_canonical :: "('db, unit, 'code, 'err, 'changes) Database \<Rightarrow> 'db \<Rightarrow> unit res" where
  "test_pending_fallback_to_canonical D canon =
     (let db = ensure_layer 1 (t_db canon);
          db = record_tx_execution 1 3 (wA 50) db;
          db = fst (abort_tx 1 3 db);
          db = set_current_tx 1 7 db
      in reading D (t_addr 0xA) (t_slot 1) db (\<lambda>db v.
         asserting (v = 0) (
         rbind (slot_at db 1 kA) (\<lambda>sv. rbind (readers_idx sv 3) (\<lambda>r. asserting (7 \<in> set r) (Inr ()))))))"

definition test_abort_tx_sets_pending_and_drains_readers :: "('db, unit, 'code, 'err, 'changes) Database \<Rightarrow> 'db \<Rightarrow> unit res" where
  "test_abort_tx_sets_pending_and_drains_readers D canon =
     (let db = ensure_layer 1 (t_db canon);
          db = record_tx_execution 1 3 (wA 50) db
      in reading D (t_addr 0xA) (t_slot 1) (set_current_tx 1 6 db) (\<lambda>db _.
         reading D (t_addr 0xA) (t_slot 1) (set_current_tx 1 8 db) (\<lambda>db _.
         rbind (slot_at db 1 kA) (\<lambda>sv. rbind (readers_idx sv 3) (\<lambda>r.
         asserting (sort r = [6, 8]) (
         let (db, notified) = abort_tx 1 3 db in
         asserting (sort notified = [6, 8]) (
         rbind (slot_at db 1 kA) (\<lambda>sv. rbind (unwrap (om_get (sv_versions sv) 3)) (\<lambda>v.
         asserting (v = Pending) (
         rbind (readers_idx sv 3) (\<lambda>r. asserting (r = []) (Inr ()))))))))))))"

definition test_abort_tx_multiple_readers :: "('db, unit, 'code, 'err, 'changes) Database \<Rightarrow> 'db \<Rightarrow> unit res" where
  "test_abort_tx_multiple_readers D canon =
     (let db = ensure_layer 1 (t_db canon);
          s2 = state_with_slots (t_addr 0xA) [(t_slot 1, t_val 0, t_val 10), (t_slot 2, t_val 0, t_val 20)];
          db = record_tx_execution 1 2 s2 db
      in reading D (t_addr 0xA) (t_slot 1) (set_current_tx 1 4 db) (\<lambda>db _.
         reading D (t_addr 0xA) (t_slot 2) (set_current_tx 1 6 db) (\<lambda>db _.
         reading D (t_addr 0xA) (t_slot 1) (set_current_tx 1 7 db) (\<lambda>db _.
         let (db, notified) = abort_tx 1 2 db in
         asserting (sort_dedup notified = [4, 6, 7]) (
         rbind (layer_at db 1) (\<lambda>layer.
         asserting (list_all (\<lambda>sv. no_readers sv 2 \<and>
           (case om_get (sv_versions sv) 2 of None \<Rightarrow> True | Some v \<Rightarrow> v = Pending)) (om_values (rl_slot_versions layer))) (Inr ())))))))"

definition test_abort_tx_chain :: "('db, unit, 'code, 'err, 'changes) Database \<Rightarrow> 'db \<Rightarrow> unit res" where
  "test_abort_tx_chain D canon =
     (let db = ensure_layer 1 (t_db canon);
          db = record_tx_execution 1 1 (wA 10) db;
          db = record_tx_execution 1 3 (state_with_slot (t_addr 0xB) (t_slot 2) (t_val 0) (t_val 20)) db
      in reading D (t_addr 0xA) (t_slot 1) (set_current_tx 1 3 db) (\<lambda>db _.
         reading D (t_addr 0xB) (t_slot 2) (set_current_tx 1 5 db) (\<lambda>db _.
         let (db, notified1) = abort_tx 1 1 db in
         asserting (3 \<in> set notified1) (
         rbind (slot_at db 1 kA) (\<lambda>sv. rbind (unwrap (om_get (sv_versions sv) 1)) (\<lambda>v.
         asserting (v = Pending) (
         let (db, notified2) = abort_tx 1 3 db in
         asserting (5 \<in> set notified2) (
         rbind (slot_at db 1 (t_addr 0xB, t_slot 2)) (\<lambda>sv. rbind (unwrap (om_get (sv_versions sv) 3)) (\<lambda>v.
         asserting (v = Pending) (Inr ())))))))))))"

definition test_commit_tx_restores_data_and_clears_readers :: "('db, unit, 'code, 'err, 'changes) Database \<Rightarrow> 'db \<Rightarrow> unit res" where
  "test_commit_tx_restores_data_and_clears_readers D canon =
     (let db = ensure_layer 1 (t_db canon);
          db = record_tx_execution 1 3 (wA 100) db
      in reading D (t_addr 0xA) (t_slot 1) (set_current_tx 1 6 db) (\<lambda>db _.
         let db = fst (abort_tx 1 3 db);
             db = commit_tx_execution 1 3 (wA 150) db
         in rbind (slot_at db 1 kA) (\<lambda>sv. rbind (unwrap (om_get (sv_versions sv) 3)) (\<lambda>v.
         asserting (v = Data (t_val 150)) (
         asserting (no_readers sv 3) (
         reading D (t_addr 0xA) (t_slot 1) (set_current_tx 1 9 db) (\<lambda>db _.
         rbind (slot_at db 1 kA) (\<lambda>sv. rbind (readers_idx sv 3) (\<lambda>r. asserting (9 \<in> set r) (Inr ()))))))))))"

text \<open>The common part of the tests on stale reads: transaction 2 is re-executed after transaction 4 read its value.\<close>

definition stale_setup :: "('db, unit, 'code, 'err, 'changes) Database \<Rightarrow> 'db \<Rightarrow> ('db, unit) ShadowDb res" where
  "stale_setup D canon =
     (let db = ensure_layer 1 (t_db canon);
          db = record_tx_execution 1 2 (wA 100) db
      in reading D (t_addr 0xA) (t_slot 1) (set_current_tx 1 4 db) (\<lambda>db _.
         let db = fst (abort_tx 1 2 db)
         in Inr (commit_tx_execution 1 2 (wA 200) db)))"

definition test_validate_round_detects_stale_reads :: "('db, unit, 'code, 'err, 'changes) Database \<Rightarrow> 'db \<Rightarrow> unit res" where
  "test_validate_round_detects_stale_reads D canon =
     rbind (stale_setup D canon) (\<lambda>db. let stale = validate_round 1 db in asserting (4 \<in> set stale) (Inr ()))"

definition test_cascade_invalidate_clears_slot_versions :: "('db, unit, 'code, 'err, 'changes) Database \<Rightarrow> 'db \<Rightarrow> unit res" where
  "test_cascade_invalidate_clears_slot_versions D canon =
     (let db = ensure_layer 2 (ensure_layer 1 (t_db canon));
          db = record_tx_execution 1 3 (wA 100) db
      in reading D (t_addr 0xA) (t_slot 1) (set_current_tx 2 2 db) (\<lambda>db _.
         let (db, invalidated) = cascade_invalidate 1 {|kA|} db in
         asserting (2 \<in> set invalidated) (
         rbind (layer_at db 2) (\<lambda>layer2.
         asserting (entries (rl_slot_versions layer2) = []) (
         asserting (om_len (rl_account_versions layer2) = 0) (
         asserting (om_len (rl_tx_reads layer2) = 0) (Inr ())))))))"

definition test_cascade_preserves_pending_txs :: "('db, unit, 'code, 'err, 'changes) Database \<Rightarrow> 'db \<Rightarrow> unit res" where
  "test_cascade_preserves_pending_txs D canon =
     (let db = ensure_layer 2 (t_db canon) in
      rbind (layer_at db 2) (\<lambda>layer.
      let layer = layer\<lparr>rl_pending_txs := Some [EthSignedTx [0xAA], EthSignedTx [0xBB]],
                        rl_slot_versions := om_insert kA SlotVersions_default (rl_slot_versions layer)\<rparr>;
          db = db\<lparr>sd_layers := om_insert 2 layer (sd_layers db)\<rparr>;
          db = fst (cascade_invalidate 1 {|kA|} db)
      in rbind (layer_at db 2) (\<lambda>layer2.
         asserting (entries (rl_slot_versions layer2) = []) (
         rbind (unwrap (rl_pending_txs layer2)) (\<lambda>txs. asserting (length txs = 2) (Inr ()))))))"

definition test_pending_commit_not_cascade_invalidated :: "('db, unit, 'code, 'err, 'changes) Database \<Rightarrow> 'db \<Rightarrow> unit res" where
  "test_pending_commit_not_cascade_invalidated D canon =
     (let db = ensure_layer 2 (ensure_layer 1 (t_db canon)) in
      rbind (layer_at db 1) (\<lambda>layer1.
      let layers = om_insert 1 (layer1\<lparr>rl_status := PendingCommit\<rparr>) (sd_layers db);
          layers = om_map_values (\<lambda>ci layer.
            let sv = get_or SlotVersions_default (rl_slot_versions layer) kA
            in layer\<lparr>rl_slot_versions := om_insert kA (sv\<lparr>sv_versions := om_insert 1 (Data (t_val (ci * 10))) (sv_versions sv)\<rparr>)
                 (rl_slot_versions layer)\<rparr>) layers;
          (db, invalidated) = cascade_invalidate 0 {|kA|} (db\<lparr>sd_layers := layers\<rparr>)
      in asserting (invalidated = [2]) (
         rbind (layer_at db 1) (\<lambda>layer1. rbind (layer_at db 2) (\<lambda>layer2.
         asserting (entries (rl_slot_versions layer1) \<noteq> []) (
         asserting (entries (rl_slot_versions layer2) = []) (Inr ())))))))"

definition test_pending_commit_visible_to_next_round :: "('db, unit, 'code, 'err, 'changes) Database \<Rightarrow> 'db \<Rightarrow> unit res" where
  "test_pending_commit_visible_to_next_round D canon =
     (let db = ensure_layer 2 (ensure_layer 1 (t_db canon)) in
      rbind (layer_at db 1) (\<lambda>layer1.
      let sv = get_or SlotVersions_default (rl_slot_versions layer1) kA;
          sv = \<lparr>sv_versions = om_insert 5 (Data (t_val 777)) (sv_versions sv), sv_readers = om_or_insert [] 5 (sv_readers sv)\<rparr>;
          layer1 = layer1\<lparr>rl_status := PendingCommit, rl_slot_versions := om_insert kA sv (rl_slot_versions layer1)\<rparr>;
          db = db\<lparr>sd_layers := om_insert 1 layer1 (sd_layers db)\<rparr>
      in reading D (t_addr 0xA) (t_slot 1) (set_current_tx 2 3 db) (\<lambda>db v. asserting (v = t_val 777) (Inr ()))))"

definition test_stage_commit_produces_correct_handle :: "('db, unit, 'code, 'err, 'changes) Database \<Rightarrow> 'db \<Rightarrow> unit res" where
  "test_stage_commit_produces_correct_handle D canon =
     rbind (stale_setup D canon) (\<lambda>db.
     let (db, handle) = stage_commit 1 [0, 1, 2, 3, 4] db in
     asserting (ch_commit_index handle = 1) (
     asserting (4 \<in> set (ch_conflicts handle)) (
     rbind (layer_at db 1) (\<lambda>layer. asserting (rl_status layer = PendingCommit) (Inr ())))))"

definition test_finalize_commit_writes_canonical :: "'code \<Rightarrow> unit res" where
  "test_finalize_commit_writes_canonical bytecode_default =
     (let db = ensure_layer 1 (t_db InMemoryDb_default);
          db = fst (stage_commit 1 [] db);
          changes = state_with_slots (t_addr 0xA) [(t_slot 1, t_val 0, t_val 200), (t_slot 2, t_val 0, t_val 300)]
      in rbind (finalize_commit (in_memory_db bytecode_default) 1 \<lparr>rd_changes = changes\<rparr> db) (\<lambda>(db, r).
         asserting (r = Inr ()) (
         asserting (\<not> om_contains (sd_layers db) 1) (Inr ()))))"

definition test_finalize_ordering_enforced :: "'code \<Rightarrow> unit res" where
  "test_finalize_ordering_enforced bytecode_default =
     (let D = in_memory_db bytecode_default;
          db = ensure_layer 2 (ensure_layer 1 (t_db InMemoryDb_default));
          db = fst (stage_commit 2 [] (fst (stage_commit 1 [] db)));
          empty_diff = \<lparr>rd_changes = om_empty\<rparr>
      in rbind (finalize_commit D 2 empty_diff db) (\<lambda>(db, res).
         asserting (res = Inl OutOfOrder) (
         asserting (om_contains (sd_layers db) 2) (
         rbind (finalize_commit D 1 empty_diff db) (\<lambda>(db, r1).
         asserting (r1 = Inr ()) (
         rbind (finalize_commit D 2 empty_diff db) (\<lambda>(db, r2).
         asserting (r2 = Inr ()) (
         asserting (om_len (sd_layers db) = 0) (Inr ())))))))))"

abbreviation "mem \<equiv> in_memory_db ([] :: u8 list)"
abbreviation "empty_mem \<equiv> InMemoryDb_default"

lemma read_tests:
  "test_readlast_basic mem empty_mem = Inr ()" "test_readlast_skip_to_latest mem empty_mem = Inr ()"
  "test_readlast_no_writer_falls_to_canonical mem empty_mem = Inr ()"
  "test_pending_fallback_to_prior_data mem empty_mem = Inr ()" "test_pending_fallback_to_canonical mem empty_mem = Inr ()"
  by code_simp+

lemma abort_tests:
  "test_abort_tx_sets_pending_and_drains_readers mem empty_mem = Inr ()" "test_abort_tx_multiple_readers mem empty_mem = Inr ()"
  "test_abort_tx_chain mem empty_mem = Inr ()" "test_commit_tx_restores_data_and_clears_readers mem empty_mem = Inr ()"
  "test_validate_round_detects_stale_reads mem empty_mem = Inr ()"
  by code_simp+

lemma layer_tests:
  "test_cascade_invalidate_clears_slot_versions mem empty_mem = Inr ()" "test_cascade_preserves_pending_txs mem empty_mem = Inr ()"
  "test_pending_commit_not_cascade_invalidated mem empty_mem = Inr ()"
  "test_pending_commit_visible_to_next_round mem empty_mem = Inr ()" "test_stage_commit_produces_correct_handle mem empty_mem = Inr ()"
  "test_finalize_commit_writes_canonical ([] :: u8 list) = Inr ()" "test_finalize_ordering_enforced ([] :: u8 list) = Inr ()"
  by code_simp+

text \<open>
  The tests of the shadow database pass.
\<close>

theorem shadow_state_tests_pass:
  "test_readlast_basic mem empty_mem = Inr () \<and> test_readlast_skip_to_latest mem empty_mem = Inr () \<and>
   test_readlast_no_writer_falls_to_canonical mem empty_mem = Inr () \<and>
   test_pending_fallback_to_prior_data mem empty_mem = Inr () \<and> test_pending_fallback_to_canonical mem empty_mem = Inr () \<and>
   test_abort_tx_sets_pending_and_drains_readers mem empty_mem = Inr () \<and> test_abort_tx_multiple_readers mem empty_mem = Inr () \<and>
   test_abort_tx_chain mem empty_mem = Inr () \<and> test_commit_tx_restores_data_and_clears_readers mem empty_mem = Inr () \<and>
   test_validate_round_detects_stale_reads mem empty_mem = Inr () \<and>
   test_cascade_invalidate_clears_slot_versions mem empty_mem = Inr () \<and> test_cascade_preserves_pending_txs mem empty_mem = Inr () \<and>
   test_pending_commit_not_cascade_invalidated mem empty_mem = Inr () \<and>
   test_pending_commit_visible_to_next_round mem empty_mem = Inr () \<and> test_stage_commit_produces_correct_handle mem empty_mem = Inr () \<and>
   test_finalize_commit_writes_canonical ([] :: u8 list) = Inr () \<and> test_finalize_ordering_enforced ([] :: u8 list) = Inr ()"
  using read_tests abort_tests layer_tests by blast

section \<open>Departures from the documentation\<close>

text \<open>What a transaction reads from slot one of the first test account.\<close>

definition value_read :: "u64 \<Rightarrow> TxIndex \<Rightarrow> (InMemoryDb, unit) ShadowDb \<Rightarrow> StorageValue res" where
  "value_read ci t db = reading mem (t_addr 0xA) (t_slot 1) (set_current_tx ci t db) (\<lambda>_ v. Inr v)"

definition canon5 :: InMemoryDb where
  "canon5 = \<lparr>imd_storage = om_insert kA (t_val 5) om_empty\<rparr>"

text \<open>Transaction 2 sets the slot to zero, transaction 5 is aborted.\<close>

definition zero_then_pending :: "(InMemoryDb, unit) ShadowDb" where
  "zero_then_pending = fst (abort_tx 1 5 (record_tx_execution 1 5 (wA 9)
     (record_tx_execution 1 2 (state_with_slot (t_addr 0xA) (t_slot 1) (t_val 5) (t_val 0)) (t_db canon5))))"

text \<open>Round 1 wrote seven; in round 2 the only writer is aborted.\<close>

definition pending_over_round :: "(InMemoryDb, unit) ShadowDb" where
  "pending_over_round = fst (abort_tx 2 0 (record_tx_execution 2 0 (wA 9) (record_tx_execution 1 0 (wA 7) (t_db empty_mem))))"

text \<open>
  A read that meets a pending version loses writes of earlier transactions. If the prior
  data of the round is zero, the read returns the canonical value; if the round has no prior data, it
  returns the canonical value although an earlier round wrote the slot.
\<close>

theorem pending_reads_lose_earlier_writes:
  "db_version zero_then_pending kA (1, 2) = Some (Data 0) \<and> value_read 1 8 zero_then_pending = Inr (t_val 5) \<and>
   db_version pending_over_round kA (1, 0) = Some (Data (t_val 7)) \<and> value_read 2 3 pending_over_round = Inr 0"
proof (intro conjI)
  show "db_version zero_then_pending kA (1, 2) = Some (Data 0)" by code_simp
  show "value_read 1 8 zero_then_pending = Inr (t_val 5)" by code_simp
  show "db_version pending_over_round kA (1, 0) = Some (Data (t_val 7))" by code_simp
  show "value_read 2 3 pending_over_round = Inr 0" by code_simp
qed

text \<open>
  A transaction sees the writes of later rounds: re-executed in round 1 after round 2 was
  executed speculatively, it reads the value of round 2.
\<close>

theorem reads_see_later_rounds:
  "value_read 1 3 (record_tx_execution 2 0 (wA 9) (record_tx_execution 1 0 (wA 7) (t_db empty_mem))) = Inr (t_val 9)"
  by code_simp

text \<open>Transaction 1 of round 2 reads seven, written by round 1; transaction 5 of round 2 writes the slot later. Then
  transaction 1 is executed again.\<close>

definition cross_round_read :: "(InMemoryDb, unit) ShadowDb res" where
  "cross_round_read =
     reading mem (t_addr 0xA) (t_slot 1) (set_current_tx 2 1 (ensure_layer 2 (record_tx_execution 1 0 (wA 7) (t_db empty_mem)))) (\<lambda>db v.
     Inr (record_tx_execution 2 5 (wA 9) db))"

definition reexecute_reader :: "(InMemoryDb, unit) ShadowDb \<Rightarrow> (InMemoryDb, unit) ShadowDb res" where
  "reexecute_reader db = reading mem (t_addr 0xA) (t_slot 1) (set_current_tx 2 1 (commit_tx_execution 2 1 om_empty db)) (\<lambda>db v. Inr db)"

text \<open>
  Validation reports a conflict where there is none: the value a transaction read from the
  round before is still the right one, but a later transaction of its own round wrote the slot. The
  conflict is reported again after the transaction has been re-executed.
\<close>

theorem validation_reports_correct_read:
  "rbind cross_round_read (\<lambda>db. Inr (validate_round 2 db)) = Inr [1] \<and>
   rbind cross_round_read (\<lambda>db. value_read 2 1 db) = Inr (t_val 7) \<and>
   rbind (rbind cross_round_read reexecute_reader) (\<lambda>db. Inr (validate_round 2 db)) = Inr [1]"
proof (intro conjI)
  show "rbind cross_round_read (\<lambda>db. Inr (validate_round 2 db)) = Inr [1]" by code_simp
  show "rbind cross_round_read (\<lambda>db. value_read 2 1 db) = Inr (t_val 7)" by code_simp
  show "rbind (rbind cross_round_read reexecute_reader) (\<lambda>db. Inr (validate_round 2 db)) = Inr [1]" by code_simp
qed

text \<open>The account version of an aborted execution survives the re-execution that no longer touches the account.\<close>

lemma account_version_survives_reexecution:
  "basic_ref mem (t_addr 0xA) (set_current_tx 1 1 (commit_tx_execution 1 0 om_empty (fst (abort_tx 1 0
     (record_tx_execution 1 0 (wA 7) (t_db empty_mem)))))) = Inr (Some ())"
  by code_simp

section \<open>Concrete inputs for the theorems\<close>

definition demo_history :: "unit history" where
  "demo_history = [((2, 0), wA 9), ((1, 3), wA 8), ((1, 0), wA 7)]"


theorem multi_version_read_is_serial_witness:
  "\<exists>db'. storage_ref mem (t_addr 0xA) (t_slot 1) (set_current_tx 2 0 (record_all demo_history (shadow_new empty_mem t_coinbase))) =
    Inr (db', Inr (t_val 8))"
proof -
  have d: "distinct (map fst demo_history)" "\<forall>x \<in> set demo_history. fst (fst x) \<le> 2" by (simp_all add: demo_history_def)
  have "serial_memory demo_history (2, 0) kA = Some (t_val 8)" by code_simp
  with multi_version_read_is_serial [OF d, of mem "t_addr 0xA" "t_slot 1" 0 empty_mem t_coinbase] show ?thesis by simp
qed

definition demo_written :: "(InMemoryDb, unit) ShadowDb" where
  "demo_written = set_current_tx 1 5 (record_tx_execution 1 2 (wA 7) (t_db empty_mem))"


theorem reachable_shadow_ok_witness: "shadow_ok t_coinbase demo_written"
proof (rule reachable_shadow_ok [of mem])
  show "reachable mem t_coinbase demo_written"
    unfolding demo_written_def t_db_def by (intro reachable.intros)
qed


definition stale_db :: "(InMemoryDb, unit) ShadowDb" where
  "stale_db = projr (stale_setup mem empty_mem)"

definition stale_layer :: "unit RoundLayer" where
  "stale_layer = the (om_get (sd_layers stale_db) 1)"

lemma stale_layer_get: "om_get (sd_layers stale_db) 1 = Some stale_layer"
proof -
  have "om_contains (sd_layers stale_db) 1" by code_simp
  then show ?thesis by (auto simp: om_contains_iff stale_layer_def)
qed

lemma stale_layer_own_reads:
  "\<forall>key v. recorded_read stale_layer 4 key v \<and> om_contains (rl_slot_versions stale_layer) key \<longrightarrow> (\<exists>w < 4. version stale_layer key w \<noteq> None)"
proof -
  have "list_all (\<lambda>(key, v). version stale_layer key 2 \<noteq> None) (entries (the (om_get (rl_tx_reads stale_layer) 4)))" by code_simp
  then have ok: "\<forall>(key, v) \<in> set (entries (the (om_get (rl_tx_reads stale_layer) 4))). version stale_layer key 2 \<noteq> None"
    by (simp only: list_all_iff)
  have "version stale_layer key 2 \<noteq> None" if read: "recorded_read stale_layer 4 key v" for key v
  proof -
    from read have "(key, v) \<in> set (entries (the (om_get (rl_tx_reads stale_layer) 4)))"
      by (auto simp: recorded_read_def set_entries)
    from bspec [OF ok this] show ?thesis by simp
  qed
  moreover have "(2 :: TxIndex) < 4" by simp
  ultimately show ?thesis by blast
qed

theorem validate_round_exact_witness:
  "\<exists>key v. recorded_read stale_layer 4 key v \<and> (\<exists>w < 4. version stale_layer key w \<noteq> None) \<and>
     \<not> round_value stale_layer key 4 (Some v)"
proof -
  have "4 \<in> set (validate_round 1 stale_db)" by code_simp
  with validate_round_exact [OF stale_layer_get, of 4] stale_layer_own_reads show ?thesis by blast
qed

theorem cascade_invalidate_exact_witness:
  "cascade_invalidate 0 {|kA|} (fst (cascade_invalidate 0 {|kA|} stale_db)) = (fst (cascade_invalidate 0 {|kA|} stale_db), []) \<and>
   snd (cascade_invalidate 0 {|kA|} stale_db) = [1]"
proof -
  have "snd (cascade_invalidate 0 {|kA|} stale_db) = [1]" by code_simp
  with cascade_invalidate_exact [of 0 "{|kA|}" stale_db, OF prod.collapse [symmetric]] show ?thesis by blast
qed

definition demo_requests :: "(u64 \<times> unit EvmState RoundDiff) list" where
  "demo_requests = [(2, \<lparr>rd_changes = om_empty\<rparr>), (1, \<lparr>rd_changes = wA 7\<rparr>), (2, \<lparr>rd_changes = wA 8\<rparr>)]"

theorem finalized_in_order_witness:
  "\<exists>db' rs. finalize_all mem demo_requests (t_db empty_mem) = Inr (db', rs) \<and>
    sd_canonical db' = fold (\<lambda>x. db_commit mem (rd_changes (snd x))) (accepted demo_requests rs) empty_mem"
proof -
  have "sd_last_finalized (t_db empty_mem) = None" "length demo_requests < 2 ^ 64 - 1" "sd_canonical (t_db empty_mem) = empty_mem"
    by (simp_all add: t_db_def shadow_new_def demo_requests_def)
  with finalized_in_order [of "t_db empty_mem" demo_requests mem] show ?thesis by auto
qed

end
