(* ===== verification/Committee.thy ===== *)
theory Committee
  imports Ordered_Map
begin

text \<open>
  \<^verbatim>\<open>crates/consensus/src/committee.rs\<close>, \<^verbatim>\<open>context.rs\<close> and
  \<^verbatim>\<open>stake_aggregator.rs\<close>: the committee of one epoch with its stake thresholds, the
  per-node context, and the accumulator that counts the stake of distinct voters.

  The locale \<open>quorum_system\<close> is what the commit rules rely on (two quorums meet outside any
  faulty set that is within the fault tolerance); the locale \<open>vote_counter\<close> is the contract of
  the accumulator, from which the vote-counting loops of the committers get their meaning.
  Both are interpreted on the committee and the accumulator of the code.
\<close>

section \<open>The committee\<close>

type_synonym Epoch = u64
type_synonym Stake = u64
type_synonym AuthorityIndex = u32

record Authority =
  auth_stake :: Stake
  auth_hostname :: string

record Committee =
  cm_epoch :: Epoch
  cm_total_stake :: Stake
  cm_quorum_threshold :: Stake
  cm_validity_threshold :: Stake
  cm_authorities :: "Authority list"

text \<open>\<^verbatim>\<open>Committee::new\<close>, every assertion and every overflow check in the order of the code.\<close>

definition committee_new :: "Epoch \<Rightarrow> Authority list \<Rightarrow> Committee res" where
  "committee_new epoch authorities =
     rbind (guard Assert (authorities \<noteq> [])) (\<lambda>_.
     rbind (guard Assert (length authorities < 2 ^ 32 - 1)) (\<lambda>_. \<comment> \<open>\<^verbatim>\<open>u32::MAX as usize\<close>\<close>
     rbind (checked_sum 0 (map auth_stake authorities)) (\<lambda>total_stake.
     rbind (guard Assert (total_stake \<noteq> 0)) (\<lambda>_.
     rbind (checked_sub total_stake 1) (\<lambda>t.
     rbind (checked_div t 3) (\<lambda>fault_tolerance.
     rbind (checked_sub total_stake fault_tolerance) (\<lambda>quorum_threshold.
     rbind (checked_add fault_tolerance 1) (\<lambda>validity_threshold.
     rbind (checked_mul 2 quorum_threshold) (\<lambda>q2.
     rbind (checked_sub q2 fault_tolerance) (\<lambda>d.
     rbind (guard Assert (d > total_stake)) (\<lambda>_.
     Inr \<lparr>cm_epoch = epoch, cm_total_stake = total_stake,
          cm_quorum_threshold = quorum_threshold, cm_validity_threshold = validity_threshold,
          cm_authorities = authorities\<rparr>)))))))))))"

text \<open>\<^verbatim>\<open>impl Index<AuthorityIndex> for Vec<T>\<close>.\<close>

definition vec_index :: "'a list \<Rightarrow> AuthorityIndex \<Rightarrow> 'a res" where
  "vec_index xs i = unwrap (if unat i < length xs then Some (xs ! unat i) else None)"

definition committee_size :: "Committee \<Rightarrow> nat" where
  "committee_size c = length (cm_authorities c)"

definition is_valid_index :: "Committee \<Rightarrow> AuthorityIndex \<Rightarrow> bool" where
  "is_valid_index c i = (unat i < committee_size c)"

definition committee_authority :: "Committee \<Rightarrow> AuthorityIndex \<Rightarrow> Authority res" where
  "committee_authority c i =
     rbind (guard DebugAssert (unat i < length (cm_authorities c))) (\<lambda>_.
     vec_index (cm_authorities c) i)"

definition committee_stake :: "Committee \<Rightarrow> AuthorityIndex \<Rightarrow> Stake res" where
  "committee_stake c i =
     rbind (guard DebugAssert (unat i < length (cm_authorities c))) (\<lambda>_.
     rbind (vec_index (cm_authorities c) i) (\<lambda>a. Inr (auth_stake a)))"

definition committee_authorities :: "Committee \<Rightarrow> (AuthorityIndex \<times> Authority) list" where
  "committee_authorities c = map (\<lambda>(i, a). (word_of_nat i, a)) (enumerate 0 (cm_authorities c))"

definition reached_quorum :: "Committee \<Rightarrow> Stake \<Rightarrow> bool" where
  "reached_quorum c s = (s \<ge> cm_quorum_threshold c)"

definition reached_validity :: "Committee \<Rightarrow> Stake \<Rightarrow> bool" where
  "reached_validity c s = (s \<ge> cm_validity_threshold c)"

definition to_authority_index :: "Committee \<Rightarrow> usize \<Rightarrow> AuthorityIndex option" where
  "to_authority_index c i =
     (if unat i < length (cm_authorities c) then Some (ucast i) else None)"

text \<open>The decimal representation \<^verbatim>\<open>format!\<close> prints for an unsigned integer.\<close>

fun decimal :: "nat \<Rightarrow> string" where
  "decimal n = (if n < 10 then [char_of (48 + n)] else decimal (n div 10) @ [char_of (48 + n mod 10)])"

declare decimal.simps [simp del]

definition make_test_committee :: "Epoch \<Rightarrow> nat \<Rightarrow> Committee res" where
  "make_test_committee epoch n =
     rbind (guard DebugAssert (n > 0)) (\<lambda>_.
     committee_new epoch
       (map (\<lambda>i. \<lparr>auth_stake = 1, auth_hostname = ''node-'' @ decimal i\<rparr>) [0..<n]))"

section \<open>The context\<close>

record Context =
  own_index :: AuthorityIndex
  committee :: Committee

definition context_new :: "AuthorityIndex \<Rightarrow> Committee \<Rightarrow> Context res" where
  "context_new i c =
     rbind (guard DebugAssert (is_valid_index c i)) (\<lambda>_.
     Inr \<lparr>own_index = i, committee = c\<rparr>)"

definition context_new_for_test :: "nat \<Rightarrow> Context res" where
  "context_new_for_test n = rbind (make_test_committee 0 n) (context_new 0)"

section \<open>The stake aggregator\<close>

text \<open>The two implementations of the trait \<^verbatim>\<open>CommitteeThreshold\<close>.\<close>

datatype CommitteeThreshold = QuorumThreshold | ValidityThreshold

fun is_threshold :: "CommitteeThreshold \<Rightarrow> Committee \<Rightarrow> Stake \<Rightarrow> bool" where
  "is_threshold QuorumThreshold c amount = reached_quorum c amount"
| "is_threshold ValidityThreshold c amount = reached_validity c amount"

fun threshold :: "CommitteeThreshold \<Rightarrow> Committee \<Rightarrow> Stake" where
  "threshold QuorumThreshold c = cm_quorum_threshold c"
| "threshold ValidityThreshold c = cm_validity_threshold c"

record StakeAggregator =
  agg_votes :: "AuthorityIndex fset"
  agg_stake :: Stake

definition sa_new :: StakeAggregator where
  "sa_new = \<lparr>agg_votes = {||}, agg_stake = 0\<rparr>"

definition sa_add ::
  "CommitteeThreshold \<Rightarrow> AuthorityIndex \<Rightarrow> Committee \<Rightarrow> StakeAggregator \<Rightarrow> (StakeAggregator \<times> bool) res"
where
  "sa_add T vote c agg =
     rbind (guard DebugAssert (is_valid_index c vote)) (\<lambda>_.
     if vote |\<in>| agg_votes agg then Inr (agg, False)
     else
       rbind (committee_stake c vote) (\<lambda>s.
       rbind (checked_add (agg_stake agg) s) (\<lambda>s'.
       Inr (\<lparr>agg_votes = finsert vote (agg_votes agg), agg_stake = s'\<rparr>, is_threshold T c s'))))"

definition sa_clear :: "StakeAggregator \<Rightarrow> StakeAggregator" where
  "sa_clear agg = \<lparr>agg_votes = {||}, agg_stake = 0\<rparr>"

section \<open>Stake of a set of authorities\<close>

definition weight :: "Committee \<Rightarrow> AuthorityIndex \<Rightarrow> nat" where
  "weight c i = unat (auth_stake (cm_authorities c ! unat i))"

definition members :: "Committee \<Rightarrow> AuthorityIndex set" where
  "members c = {i. is_valid_index c i}"

definition fault_tolerance :: "Committee \<Rightarrow> nat" where
  "fault_tolerance c = (unat (cm_total_stake c) - 1) div 3"

text \<open>What \<^verbatim>\<open>Committee::new\<close> establishes, and every later use of the committee relies on.\<close>

definition wf_committee :: "Committee \<Rightarrow> bool" where
  "wf_committee c \<longleftrightarrow>
     cm_authorities c \<noteq> [] \<and>
     committee_size c < 2 ^ 32 - 1 \<and>
     unat (cm_total_stake c) = (\<Sum>a\<leftarrow>cm_authorities c. unat (auth_stake a)) \<and>
     cm_total_stake c \<noteq> 0 \<and>
     unat (cm_quorum_threshold c) = unat (cm_total_stake c) - fault_tolerance c \<and>
     unat (cm_validity_threshold c) = fault_tolerance c + 1"

lemma unat_total_stake:
  assumes "(\<Sum>a\<leftarrow>authorities. unat (auth_stake a)) = S" and "S < 2 ^ 64"
  shows "unat (sum_list (map auth_stake authorities)) = S"
  using assms unat_sum_list [of "map auth_stake authorities"] by (simp add: comp_def)

lemma committee_new_thresholds:
  assumes "authorities \<noteq> []" and "length authorities < 2 ^ 32 - 1"
    and sum: "(\<Sum>a\<leftarrow>authorities. unat (auth_stake a)) = S" and "S \<noteq> 0" and S64: "S < 2 ^ 64"
  shows "committee_new e authorities =
    (if 2 * (S - (S - 1) div 3) < 2 ^ 64
     then Inr \<lparr>cm_epoch = e, cm_total_stake = word_of_nat S,
       cm_quorum_threshold = word_of_nat (S - (S - 1) div 3),
       cm_validity_threshold = word_of_nat ((S - 1) div 3 + 1), cm_authorities = authorities\<rparr>
     else Inl ArithOverflow)"
proof -
  define T :: u64 where "T = sum_list (map auth_stake authorities)"
  have uT: "unat T = S" using unat_total_stake [OF sum S64] by (simp add: T_def)
  have T0: "T \<noteq> 0" using uT assms(4) by auto
  have T1: "1 \<le> T" using assms(4) by (simp add: word_le_nat_alt uT)
  define F :: u64 where "F = (T - 1) div 3"
  have uF: "unat F = (S - 1) div 3" using T1 uT by (simp add: F_def unat_div unat_sub)
  have FT: "F \<le> T" using uF uT by (simp add: word_le_nat_alt)
  define Q where "Q = T - F"
  have uQ: "unat Q = S - (S - 1) div 3" using FT by (simp add: Q_def unat_sub uF uT)
  have F1: "unat F + 1 < 2 ^ 64" using uF S64 by simp
  note words = word_of_nat_eqI [OF uT] word_of_nat_eqI [OF uQ] word_of_nat_eqI [OF uF]
  have steps: "committee_new e authorities =
    rbind (checked_mul 2 Q) (\<lambda>q2. rbind (checked_sub q2 F) (\<lambda>d.
    rbind (guard Assert (d > T)) (\<lambda>_.
    Inr \<lparr>cm_epoch = e, cm_total_stake = T, cm_quorum_threshold = Q,
      cm_validity_threshold = F + 1, cm_authorities = authorities\<rparr>)))"
    using assms(1,2) S64 T0 T1 FT F1
    by (simp add: committee_new_def checked_sum_eq sum comp_def checked_sub_def [of T] checked_div_def
        checked_add_def flip: T_def F_def Q_def)
  show ?thesis
  proof (cases "2 * (S - (S - 1) div 3) < 2 ^ 64")
    case True
    then have uQ2: "unat (2 * Q) = 2 * (S - (S - 1) div 3)"
      using unat_mult_lt [of 2 Q] uQ by simp
    have le: "(S - 1) div 3 \<le> 2 * (S - (S - 1) div 3)"
      and gt: "S < 2 * (S - (S - 1) div 3) - (S - 1) div 3"
      using assms(4) div_times_less_eq_dividend [of "S - 1" 3] by linarith+
    have FQ: "F \<le> 2 * Q" unfolding word_le_nat_alt uF uQ2 by (rule le)
    have ok: "T < 2 * Q - F"
      unfolding word_less_nat_alt uT unat_sub [OF FQ] uQ2 uF by (rule gt)
    have "unat (2::u64) * unat Q < 2 ^ LENGTH(64)" using True by (simp add: uQ)
    with ok FQ True show ?thesis
      unfolding steps words of_nat_add of_nat_1
      by (simp only: checked_mul_def checked_sub_def rbind_Inr guard_True if_True)
  next
    case False
    then show ?thesis unfolding steps by (simp add: checked_mul_def uQ)
  qed
qed

lemma committee_new_cases:
  "committee_new e authorities =
     (let S = (\<Sum>a\<leftarrow>authorities. unat (auth_stake a)); f = (S - 1) div 3 in
      if authorities = [] \<or> 2 ^ 32 - 1 \<le> length authorities then Inl Assert
      else if 2 ^ 64 \<le> S then Inl ArithOverflow
      else if S = 0 then Inl Assert
      else if 2 ^ 64 \<le> 2 * (S - f) then Inl ArithOverflow
      else Inr \<lparr>cm_epoch = e, cm_total_stake = word_of_nat S,
        cm_quorum_threshold = word_of_nat (S - f), cm_validity_threshold = word_of_nat (f + 1),
        cm_authorities = authorities\<rparr>)"
proof -
  define S where "S = (\<Sum>a\<leftarrow>authorities. unat (auth_stake a))"
  consider (shape) "authorities = [] \<or> 2 ^ 32 - 1 \<le> length authorities"
    | (large) "authorities \<noteq> []" "length authorities < 2 ^ 32 - 1" "2 ^ 64 \<le> S"
    | (zero) "authorities \<noteq> []" "length authorities < 2 ^ 32 - 1" "S = 0"
    | (sized) "authorities \<noteq> []" "length authorities < 2 ^ 32 - 1" "S \<noteq> 0" "S < 2 ^ 64"
    by linarith
  then show ?thesis
  proof cases
    case shape
    then show ?thesis by (auto simp: committee_new_def guard_def)
  next
    case large
    then show ?thesis by (simp add: committee_new_def checked_sum_eq comp_def flip: S_def)
  next
    case zero
    then have "sum_list (map auth_stake authorities) = 0"
      using unat_total_stake [OF S_def [symmetric]] by (simp add: unat_eq_zero)
    with zero show ?thesis by (simp add: committee_new_def checked_sum_eq comp_def flip: S_def)
  next
    case sized
    show ?thesis
      unfolding committee_new_thresholds [OF sized(1,2) S_def [symmetric] sized(3,4)]
      using sized by (auto simp: Let_def not_less simp flip: S_def)
  qed
qed

text \<open>\<^bold>\<open>C35\<close>. The outcome of \<^verbatim>\<open>Committee::new\<close> in every case. The final assertion
  that two quorums intersect never fails: the constructor panics only on an empty or oversized
  committee, a zero total, or stakes so large that the total, or twice the quorum, exceeds
  64 bits.\<close>

theorem committee_new_outcome:
  "committee_new e authorities =
     (let S = (\<Sum>a\<leftarrow>authorities. unat (auth_stake a)); f = (S - 1) div 3 in
      if authorities = [] \<or> 2 ^ 32 - 1 \<le> length authorities then Inl Assert
      else if 2 ^ 64 \<le> S then Inl ArithOverflow
      else if S = 0 then Inl Assert
      else if 2 ^ 64 \<le> 2 * (S - f) then Inl ArithOverflow
      else Inr \<lparr>cm_epoch = e, cm_total_stake = word_of_nat S,
        cm_quorum_threshold = word_of_nat (S - f), cm_validity_threshold = word_of_nat (f + 1),
        cm_authorities = authorities\<rparr>)"
  by (rule committee_new_cases)

lemma committee_new_wf:
  assumes "committee_new e authorities = Inr c"
  shows "wf_committee c \<and> cm_authorities c = authorities \<and> cm_epoch c = e"
proof -
  define S where "S = (\<Sum>a\<leftarrow>authorities. unat (auth_stake a))"
  from assms have ok: "authorities \<noteq> []" "length authorities < 2 ^ 32 - 1" "S \<noteq> 0" "S < 2 ^ 64"
    and c: "c = \<lparr>cm_epoch = e, cm_total_stake = word_of_nat S,
        cm_quorum_threshold = word_of_nat (S - (S - 1) div 3),
        cm_validity_threshold = word_of_nat ((S - 1) div 3 + 1), cm_authorities = authorities\<rparr>"
    by (auto simp: committee_new_cases Let_def simp flip: S_def split: if_splits)
  have w: "unat (word_of_nat n :: u64) = n" if "n \<le> S" for n
    using that ok(4) by (simp add: unat_of_nat)
  have le: "(S - 1) div 3 + 1 \<le> S" using ok(3) by linarith
  have "cm_total_stake c = word_of_nat S" "cm_quorum_threshold c = word_of_nat (S - (S - 1) div 3)"
    "cm_validity_threshold c = word_of_nat ((S - 1) div 3 + 1)" "cm_authorities c = authorities"
    "cm_epoch c = e"
    by (simp_all add: c)
  with w [OF order_refl] w [OF diff_le_self] w [OF le]
  have "unat (cm_total_stake c) = S" "unat (cm_quorum_threshold c) = S - (S - 1) div 3"
    "unat (cm_validity_threshold c) = (S - 1) div 3 + 1" "cm_authorities c = authorities" "cm_epoch c = e"
    by (simp_all only:)
  then show ?thesis
    using ok unfolding wf_committee_def committee_size_def fault_tolerance_def
    by (metis S_def unat_0)
qed

text \<open>The committee of four authorities of stake one that the code's own tests use.\<close>

definition committee4 :: Committee where
  "committee4 = \<lparr>cm_epoch = 0, cm_total_stake = 4, cm_quorum_threshold = 3, cm_validity_threshold = 2,
     cm_authorities = map (\<lambda>h. \<lparr>auth_stake = 1, auth_hostname = h\<rparr>)
       [''node-0'', ''node-1'', ''node-2'', ''node-3'']\<rparr>"

lemma make_committee4: "make_test_committee 0 4 = Inr committee4"
  by (simp add: make_test_committee_def committee_new_cases committee4_def decimal.simps upt_rec
      char_of_def bit_0)

lemma committee4_new: "committee_new 0 (cm_authorities committee4) = Inr committee4"
  by (simp add: committee_new_cases committee4_def)

lemma wf_committee4 [simp]: "wf_committee committee4"
  using committee_new_wf [OF committee4_new] by simp

lemma committee4_index [simp]: "is_valid_index committee4 i \<longleftrightarrow> unat i < 4"
  by (simp add: is_valid_index_def committee_size_def committee4_def numeral_eq_Suc)

lemma committee4_weight: "unat i < 4 \<Longrightarrow> weight committee4 i = 1"
  by (simp add: weight_def committee4_def nth_Cons' numeral_eq_Suc)

lemma committee4_quorum [simp]:
  "cm_quorum_threshold committee4 = 3" "cm_validity_threshold committee4 = 2"
  by (simp_all add: committee4_def)

section \<open>Quorums\<close>

text \<open>What a commit rule needs of a committee: members with weights, a quorum weight and a
  fault tolerance such that two quorums overlap by more than the fault tolerance.\<close>

locale quorum_system =
  fixes ok :: "'c \<Rightarrow> bool"
    and mem :: "'c \<Rightarrow> 'a set"
    and wt :: "'c \<Rightarrow> 'a \<Rightarrow> nat"
    and quorum :: "'c \<Rightarrow> nat"
    and faults :: "'c \<Rightarrow> nat"
  assumes finite_mem: "ok c \<Longrightarrow> finite (mem c)"
    and overlap: "ok c \<Longrightarrow> sum (wt c) (mem c) + faults c < 2 * quorum c"
    and reachable: "ok c \<Longrightarrow> quorum c + faults c \<le> sum (wt c) (mem c)"
begin

definition is_quorum :: "'c \<Rightarrow> 'a set \<Rightarrow> bool" where
  "is_quorum c A \<longleftrightarrow> A \<subseteq> mem c \<and> quorum c \<le> sum (wt c) A"

lemma quorum_overlap:
  assumes "ok c" and "is_quorum c A" and "is_quorum c B"
  shows "faults c < sum (wt c) (A \<inter> B)"
  using overlap [OF assms(1)] sum_Int_ge [OF finite_mem [OF assms(1)], of A B "wt c"] assms(2,3)
  by (simp add: is_quorum_def)

text \<open>Whatever set of members is faulty, within the tolerance, two quorums share a member
  outside it.\<close>

lemma correct_member:
  assumes "ok c" and "is_quorum c A" and "is_quorum c B" and "sum (wt c) F \<le> faults c" and "finite F"
  shows "\<exists>a. a \<in> A \<and> a \<in> B \<and> a \<notin> F"
proof (rule ccontr)
  assume "\<not> ?thesis"
  then have "A \<inter> B \<subseteq> F" by auto
  then have "sum (wt c) (A \<inter> B) \<le> sum (wt c) F"
    using assms(5) by (rule sum_fset_le [rotated])
  with quorum_overlap [OF assms(1-3)] assms(4) show False by simp
qed

lemma quorum_nonempty: "ok c \<Longrightarrow> is_quorum c A \<Longrightarrow> A \<noteq> {}"
  using quorum_overlap [of c A A] by auto

text \<open>The members outside a faulty set within the tolerance are a quorum: the faulty ones
  cannot block progress.\<close>

lemma correct_quorum:
  assumes "ok c" and "sum (wt c) F \<le> faults c" and "F \<subseteq> mem c"
  shows "is_quorum c (mem c - F)"
  using reachable [OF assms(1)] assms sum_diff_nat [OF finite_subset [OF assms(3) finite_mem] assms(3), of "wt c"]
  by (auto simp: is_quorum_def)

end

lemma finite_members [simp]: "finite (members c)"
  by simp

lemma sum_weight_members: "wf_committee c \<Longrightarrow> sum (weight c) (members c) = unat (cm_total_stake c)"
proof -
  assume wf: "wf_committee c"
  let ?n = "length (cm_authorities c)"
  have small: "i < 2 ^ 32" if "i < ?n" for i
    using that wf by (simp add: wf_committee_def committee_size_def)
  have bij: "bij_betw unat (members c) {..<?n}"
    by (rule bij_betw_byWitness [where f' = word_of_nat])
       (auto simp: members_def is_valid_index_def committee_size_def unat_of_nat dest: small)
  have "sum (weight c) (members c) = (\<Sum>i<?n. unat (auth_stake (cm_authorities c ! i)))"
    unfolding weight_def by (rule sum.reindex_bij_betw [OF bij])
  also have "\<dots> = (\<Sum>a\<leftarrow>cm_authorities c. unat (auth_stake a))"
    by (simp add: sum_list_sum_nth atLeast0LessThan)
  finally show ?thesis using wf by (simp add: wf_committee_def)
qed

interpretation cq: quorum_system wf_committee members weight
  "\<lambda>c. unat (cm_quorum_threshold c)" fault_tolerance
proof
  fix c assume wf: "wf_committee c"
  define S where "S = unat (cm_total_stake c)"
  have "sum (weight c) (members c) = S" by (simp add: S_def sum_weight_members [OF wf])
  moreover have "fault_tolerance c = (S - 1) div 3" by (simp only: S_def fault_tolerance_def)
  moreover from wf have "S \<noteq> 0" and "unat (cm_quorum_threshold c) = S - fault_tolerance c"
    unfolding S_def wf_committee_def unat_0_iff by blast+
  ultimately show "sum (weight c) (members c) + fault_tolerance c < 2 * unat (cm_quorum_threshold c)"
    and "unat (cm_quorum_threshold c) + fault_tolerance c \<le> sum (weight c) (members c)"
    by linarith+
qed simp

text \<open>\<^bold>\<open>C13\<close>. For every committee the constructor returns: two sets of members that both reach
  the quorum threshold share members that together reach the validity threshold, so at least one
  of them is outside any coalition of at most \<open>f\<close> stake.\<close>

theorem quorums_share_validity:
  assumes "committee_new e authorities = Inr c"
    and "A \<subseteq> members c" and "unat (cm_quorum_threshold c) \<le> sum (weight c) A"
    and "B \<subseteq> members c" and "unat (cm_quorum_threshold c) \<le> sum (weight c) B"
  shows "unat (cm_validity_threshold c) \<le> sum (weight c) (A \<inter> B)"
proof -
  have wf: "wf_committee c" using committee_new_wf [OF assms(1)] by simp
  have "fault_tolerance c < sum (weight c) (A \<inter> B)"
    using wf assms(2-5) by (intro cq.quorum_overlap) (simp_all add: cq.is_quorum_def)
  with wf show ?thesis by (simp add: wf_committee_def)
qed

theorem quorums_share_validity_witness:
  "committee_new 0 (cm_authorities committee4) = Inr committee4 \<and>
   unat (cm_validity_threshold committee4) \<le> sum (weight committee4) ({0, 1, 2} \<inter> {1, 2, 3})"
proof -
  have "{0, 1, 2} \<subseteq> members committee4" "{1, 2, 3} \<subseteq> members committee4"
    by (simp_all add: members_def)
  moreover have "unat (cm_quorum_threshold committee4) \<le> sum (weight committee4) {0, 1, 2}"
    "unat (cm_quorum_threshold committee4) \<le> sum (weight committee4) {1, 2, 3}"
    by (simp_all add: committee4_weight)
  ultimately show ?thesis using quorums_share_validity [OF committee4_new] committee4_new by blast
qed

text \<open>A set of members that reaches the quorum threshold.\<close>

definition quorum_of :: "Committee \<Rightarrow> AuthorityIndex set \<Rightarrow> bool" where
  "quorum_of c A \<longleftrightarrow> A \<subseteq> members c \<and> unat (cm_quorum_threshold c) \<le> sum (weight c) A"

lemma is_quorum_iff: "cq.is_quorum c A \<longleftrightarrow> quorum_of c A"
  by (simp add: quorum_of_def cq.is_quorum_def)

lemma quorum_of_mono:
  assumes "quorum_of c A" and "A \<subseteq> B" and "B \<subseteq> members c"
  shows "quorum_of c B"
proof -
  have "sum (weight c) A \<le> sum (weight c) B"
    using assms(2,3) by (intro sum_fset_le) (auto intro: finite_subset)
  with assms show ?thesis by (simp add: quorum_of_def)
qed

section \<open>Counting votes\<close>

text \<open>The contract of a vote counter: the voters so far, a state in which the count is right,
  and an operation that adds a voter and tells whether this new voter completes the threshold.\<close>

locale vote_counter =
  fixes ok :: "'c \<Rightarrow> bool"
    and mem :: "'c \<Rightarrow> 'a set"
    and wt :: "'c \<Rightarrow> 'a \<Rightarrow> nat"
    and thr :: "'c \<Rightarrow> nat"
    and inv :: "'c \<Rightarrow> 's \<Rightarrow> bool"
    and voters :: "'s \<Rightarrow> 'a set"
    and emp :: "'s"
    and add :: "'a \<Rightarrow> 'c \<Rightarrow> 's \<Rightarrow> ('s \<times> bool) res"
  assumes inv_emp: "inv c emp"
    and voters_emp: "voters emp = {}"
    and add_law: "\<lbrakk>ok c; inv c s; a \<in> mem c\<rbrakk> \<Longrightarrow>
      \<exists>s' b. add a c s = Inr (s', b) \<and> inv c s' \<and> voters s' = insert a (voters s) \<and>
        (b \<longleftrightarrow> a \<notin> voters s \<and> thr c \<le> sum (wt c) (insert a (voters s)))"

text \<open>The loop of the commit rules: scan a list, add the voter of each item that counts, and
  return at once when the threshold is reached.\<close>

locale tally_loop = vote_counter ok mem wt thr inv voters emp add
  for ok :: "'c \<Rightarrow> bool" and mem :: "'c \<Rightarrow> 'a set" and wt thr inv voters emp
    and add :: "'a \<Rightarrow> 'c \<Rightarrow> 's \<Rightarrow> ('s \<times> bool) res" +
  fixes loop :: "('x \<Rightarrow> 'a option res) \<Rightarrow> 'c \<Rightarrow> 'x list \<Rightarrow> 's \<Rightarrow> bool res"
  assumes loop_Nil: "loop voter c [] s = Inr False"
    and loop_Cons: "loop voter c (x # xs) s =
      rbind (voter x) (\<lambda>v. case v of None \<Rightarrow> loop voter c xs s
        | Some a \<Rightarrow> rbind (add a c s) (\<lambda>(s', b). if b then Inr True else loop voter c xs s'))"
begin

definition cast :: "('x \<Rightarrow> 'a option res) \<Rightarrow> 'x list \<Rightarrow> 'a set" where
  "cast voter xs = {a. \<exists>x \<in> set xs. voter x = Inr (Some a)}"

lemma cast_Nil: "cast voter [] = {}"
  and cast_Cons: "cast voter (x # xs) =
    (case voter x of Inr (Some a) \<Rightarrow> insert a (cast voter xs) | _ \<Rightarrow> cast voter xs)"
  by (auto simp: cast_def split: sum.splits option.splits)

lemma loop_value:
  assumes "ok c" and "finite (mem c)" and "inv c s" and "voters s \<subseteq> mem c"
    and "sum (wt c) (voters s) < thr c"
    and "\<And>x. x \<in> set xs \<Longrightarrow> \<exists>v. voter x = Inr v \<and> (\<forall>a. v = Some a \<longrightarrow> a \<in> mem c)"
  shows "loop voter c xs s = Inr (thr c \<le> sum (wt c) (voters s \<union> cast voter xs))"
  using assms(3-6)
proof (induction xs arbitrary: s)
  case Nil
  then show ?case by (simp add: loop_Nil cast_Nil)
next
  case (Cons x xs)
  from Cons.prems(4) [of x] obtain v where v: "voter x = Inr v"
    and mem_v: "\<And>a. v = Some a \<Longrightarrow> a \<in> mem c" by auto
  show ?case
  proof (cases v)
    case None
    with v Cons show ?thesis by (simp add: loop_Cons cast_Cons)
  next
    case (Some a)
    with mem_v have a: "a \<in> mem c" by simp
    obtain s' b where add: "add a c s = Inr (s', b)" and inv': "inv c s'"
      and vs': "voters s' = insert a (voters s)"
      and b: "b \<longleftrightarrow> a \<notin> voters s \<and> thr c \<le> sum (wt c) (insert a (voters s))"
      using add_law [OF assms(1) Cons.prems(1) a] by blast
    have cast: "voters s \<union> cast voter (x # xs) = voters s' \<union> cast voter xs"
      by (simp add: cast_Cons v Some vs')
    have sub: "voters s' \<union> cast voter xs \<subseteq> mem c"
      using Cons.prems(2,4) a by (fastforce simp: vs' cast_def)
    show ?thesis
    proof (cases b)
      case True
      with b have "thr c \<le> sum (wt c) (voters s')" by (simp add: vs')
      also have "\<dots> \<le> sum (wt c) (voters s' \<union> cast voter xs)"
        by (rule sum_fset_le [OF finite_subset [OF sub assms(2)]]) simp
      finally show ?thesis
        unfolding cast using True by (simp add: loop_Cons v Some add)
    next
      case False
      with b Cons.prems(3) have "sum (wt c) (voters s') < thr c"
        by (auto simp: vs' insert_absorb not_le)
      with Cons.IH [OF inv'] Cons.prems(2,4) a False show ?thesis
        unfolding cast by (simp add: loop_Cons v Some add vs')
    qed
  qed
qed

text \<open>From the empty counter, the loop returns true exactly when the distinct voters of the
  items that count reach the threshold.\<close>

lemma loop_counts:
  assumes "ok c" and "finite (mem c)" and "0 < thr c"
    and "\<And>x. x \<in> set xs \<Longrightarrow> \<exists>v. voter x = Inr v \<and> (\<forall>a. v = Some a \<longrightarrow> a \<in> mem c)"
  shows "loop voter c xs emp = Inr (thr c \<le> sum (wt c) (cast voter xs))"
  using loop_value [OF assms(1,2) inv_emp, of xs voter] assms(3,4) by (simp add: voters_emp)

end

text \<open>The aggregator's stake is the stake of its voters, each counted once.\<close>

definition sa_inv :: "Committee \<Rightarrow> StakeAggregator \<Rightarrow> bool" where
  "sa_inv c agg \<longleftrightarrow>
     fset (agg_votes agg) \<subseteq> members c \<and> unat (agg_stake agg) = sum (weight c) (fset (agg_votes agg))"

lemma sa_inv_new [simp]: "sa_inv c sa_new"
  and sa_inv_clear [simp]: "sa_inv c (sa_clear agg)"
  by (simp_all add: sa_inv_def sa_new_def sa_clear_def)

lemma committee_stake_valid:
  "is_valid_index c i \<Longrightarrow> committee_stake c i = Inr (auth_stake (cm_authorities c ! unat i))"
  by (simp add: committee_stake_def vec_index_def is_valid_index_def committee_size_def)

lemma is_threshold_iff: "is_threshold T c s \<longleftrightarrow> unat (threshold T c) \<le> unat s"
  by (cases T) (simp_all add: reached_quorum_def reached_validity_def word_le_nat_alt)

lemma sa_add_member:
  assumes "wf_committee c" and inv: "sa_inv c agg" and "is_valid_index c a"
  shows "\<exists>agg' b. sa_add T a c agg = Inr (agg', b) \<and> sa_inv c agg' \<and>
    agg_votes agg' = finsert a (agg_votes agg) \<and>
    (b \<longleftrightarrow> a |\<notin>| agg_votes agg \<and> unat (threshold T c) \<le> sum (weight c) (fset (agg_votes agg')))"
proof (cases "a |\<in>| agg_votes agg")
  case True
  with assms show ?thesis by (auto simp: sa_add_def finsert_absorb)
next
  case False
  let ?V = "fset (agg_votes agg)" and ?s = "auth_stake (cm_authorities c ! unat a)"
  have sub: "insert a ?V \<subseteq> members c"
    using assms by (auto simp: sa_inv_def members_def)
  have eq: "sum (weight c) (insert a ?V) = unat (agg_stake agg) + unat ?s"
    using False inv by (simp add: sa_inv_def weight_def)
  have "sum (weight c) (insert a ?V) \<le> unat (cm_total_stake c)"
    using sum_fset_le [OF finite_members sub, of "weight c"] sum_weight_members [OF assms(1)] by simp
  then have lt: "unat (agg_stake agg) + unat ?s < 2 ^ 64"
    using unsigned_less [where ?'a = nat, of "cm_total_stake c"] unfolding eq by simp
  then have "unat (agg_stake agg + ?s) = sum (weight c) (insert a ?V)"
    unfolding eq using unat_add_lt [of "agg_stake agg" ?s] by simp
  with assms False lt sub show ?thesis
    by (simp add: sa_add_def committee_stake_valid checked_add_def sa_inv_def is_threshold_iff)
qed

interpretation sa: vote_counter wf_committee members weight "\<lambda>c. unat (threshold T c)" sa_inv
  "\<lambda>agg. fset (agg_votes agg)" sa_new "sa_add T" for T
proof
  fix c s a
  assume "wf_committee c" and "sa_inv c s" and "a \<in> members c"
  then obtain s' b where "sa_add T a c s = Inr (s', b)" "sa_inv c s'"
    "agg_votes s' = finsert a (agg_votes s)"
    "b \<longleftrightarrow> a |\<notin>| agg_votes s \<and> unat (threshold T c) \<le> sum (weight c) (fset (agg_votes s'))"
    using sa_add_member [of c s a T] by (auto simp: members_def)
  then show "\<exists>s' b. sa_add T a c s = Inr (s', b) \<and> sa_inv c s' \<and>
      fset (agg_votes s') = insert a (fset (agg_votes s)) \<and>
      (b \<longleftrightarrow> a \<notin> fset (agg_votes s) \<and>
        unat (threshold T c) \<le> sum (weight c) (insert a (fset (agg_votes s))))"
    by auto
qed (simp, simp add: sa_new_def)

text \<open>The counting loop of the committers, with the aggregator it starts from.\<close>

fun tally :: "('x \<Rightarrow> AuthorityIndex option res) \<Rightarrow> Committee \<Rightarrow> 'x list \<Rightarrow> StakeAggregator \<Rightarrow> bool res" where
  "tally voter c [] agg = Inr False"
| "tally voter c (x # xs) agg =
     rbind (voter x) (\<lambda>v. case v of None \<Rightarrow> tally voter c xs agg
       | Some a \<Rightarrow> rbind (sa_add QuorumThreshold a c agg) (\<lambda>(agg', b).
           if b then Inr True else tally voter c xs agg'))"

interpretation tl: tally_loop wf_committee members weight "\<lambda>c. unat (threshold QuorumThreshold c)"
  sa_inv "\<lambda>agg. fset (agg_votes agg)" sa_new "sa_add QuorumThreshold" tally
  by unfold_locales simp_all

lemma wf_quorum_pos: "wf_committee c \<Longrightarrow> 0 < unat (cm_quorum_threshold c)"
  using cq.overlap [of c] by simp

text \<open>The voters of the items that count, and the value of the loop from an empty aggregator.\<close>

definition ballots :: "('x \<Rightarrow> AuthorityIndex option res) \<Rightarrow> 'x list \<Rightarrow> AuthorityIndex set" where
  "ballots voter xs = {a. \<exists>x \<in> set xs. voter x = Inr (Some a)}"

lemma tally_counts:
  assumes "wf_committee c"
    and "\<And>x. x \<in> set xs \<Longrightarrow> \<exists>v. voter x = Inr v \<and> (\<forall>a. v = Some a \<longrightarrow> is_valid_index c a)"
  shows "tally voter c xs sa_new = Inr (unat (cm_quorum_threshold c) \<le> sum (weight c) (ballots voter xs))"
  using tl.loop_counts [OF assms(1) finite_members _, of xs voter] assms wf_quorum_pos
  by (auto simp: members_def tl.cast_def ballots_def)

text \<open>A sequence of votes, added one after the other, with the answers of \<^verbatim>\<open>add\<close>.\<close>

fun add_votes :: "CommitteeThreshold \<Rightarrow> Committee \<Rightarrow> AuthorityIndex list \<Rightarrow> StakeAggregator \<Rightarrow> (StakeAggregator \<times> bool list) res" where
  "add_votes T c [] agg = Inr (agg, [])"
| "add_votes T c (vote # votes) agg =
     rbind (sa_add T vote c agg) (\<lambda>(agg, answer).
     rbind (add_votes T c votes agg) (\<lambda>(agg, answers). Inr (agg, answer # answers)))"

lemma add_votes_answers:
  assumes wf: "wf_committee c" and "sa_inv c agg" and "\<forall>v \<in> set votes. is_valid_index c v"
  shows "\<exists>agg' answers. add_votes T c votes agg = Inr (agg', answers) \<and> length answers = length votes \<and> sa_inv c agg' \<and>
    fset (agg_votes agg') = fset (agg_votes agg) \<union> set votes \<and>
    (fset (agg_votes agg) = {} \<or> sum (weight c) (fset (agg_votes agg)) < unat (threshold T c) \<longrightarrow>
      (\<forall>i < length votes. (\<forall>j < i. \<not> answers ! j) \<longrightarrow>
        (answers ! i \<longleftrightarrow> unat (threshold T c) \<le> sum (weight c) (fset (agg_votes agg) \<union> set (take (Suc i) votes)))))"
  using assms(2,3)
proof (induction votes arbitrary: agg)
  case (Cons v vs)
  from sa_add_member [OF wf Cons.prems(1), of v T] Cons.prems(2) obtain agg1 b where
    add: "sa_add T v c agg = Inr (agg1, b)" "sa_inv c agg1" "agg_votes agg1 = finsert v (agg_votes agg)"
    and b: "b \<longleftrightarrow> v |\<notin>| agg_votes agg \<and> unat (threshold T c) \<le> sum (weight c) (fset (agg_votes agg1))" by auto
  from Cons.IH [OF add(2)] Cons.prems(2) obtain agg' bs where
    ih: "add_votes T c vs agg1 = Inr (agg', bs)" "length bs = length vs" "sa_inv c agg'"
      "fset (agg_votes agg') = fset (agg_votes agg1) \<union> set vs"
    and later: "sum (weight c) (fset (agg_votes agg1)) < unat (threshold T c) \<Longrightarrow>
      \<forall>i < length vs. (\<forall>j < i. \<not> bs ! j) \<longrightarrow>
        (bs ! i \<longleftrightarrow> unat (threshold T c) \<le> sum (weight c) (fset (agg_votes agg1) \<union> set (take (Suc i) vs)))"
    by auto
  have now: "b \<longleftrightarrow> unat (threshold T c) \<le> sum (weight c) (fset (agg_votes agg1))"
    if "fset (agg_votes agg) = {} \<or> sum (weight c) (fset (agg_votes agg)) < unat (threshold T c)"
    using that b add(3) by (cases "v |\<in>| agg_votes agg") (auto simp: insert_absorb)
  have "(b # bs) ! i \<longleftrightarrow> unat (threshold T c) \<le> sum (weight c) (fset (agg_votes agg) \<union> set (take (Suc i) (v # vs)))"
    if "fset (agg_votes agg) = {} \<or> sum (weight c) (fset (agg_votes agg)) < unat (threshold T c)"
      "i < length (v # vs)" "\<forall>j < i. \<not> (b # bs) ! j" for i
  proof (cases i)
    case 0
    then show ?thesis using now [OF that(1)] add(3) by simp
  next
    case (Suc k)
    then have "\<not> b" "\<forall>j < k. \<not> bs ! j" using that(3) by (auto dest: spec [of _ 0] spec [of _ "Suc _"])
    then show ?thesis using later now [OF that(1)] that(2) Suc add(3) by simp
  qed
  then show ?case using add ih by auto
qed simp

text \<open>\<^bold>\<open>C30\<close>. The stake aggregator fed with any sequence of votes of committee members, repeated
  ones included: it never panics (the sum cannot overflow), its stake is the stake of the distinct
  voters, and up to the call that first reaches the threshold every answer of \<^verbatim>\<open>StakeAggregator::add\<close> says
  exactly whether the distinct voters so far reach it. What later calls return is left open here.\<close>

theorem aggregator_first_reaches:
  assumes "wf_committee c" and "\<forall>v \<in> set votes. is_valid_index c v"
  shows "\<exists>agg answers. add_votes T c votes sa_new = Inr (agg, answers) \<and> length answers = length votes \<and>
    fset (agg_votes agg) = set votes \<and> unat (agg_stake agg) = sum (weight c) (set votes) \<and>
    (\<forall>i < length votes. (\<forall>j < i. \<not> answers ! j) \<longrightarrow>
      (answers ! i \<longleftrightarrow> unat (threshold T c) \<le> sum (weight c) (set (take (Suc i) votes))))"
proof -
  have "sa_inv c sa_new" and "fset (agg_votes sa_new) = {}" by (simp, simp add: sa_new_def)
  with add_votes_answers [OF assms(1) _ assms(2), of sa_new T] obtain agg answers where
    "add_votes T c votes sa_new = Inr (agg, answers)" "length answers = length votes" "sa_inv c agg"
    "fset (agg_votes agg) = set votes" and
    "\<forall>i < length votes. (\<forall>j < i. \<not> answers ! j) \<longrightarrow>
      (answers ! i \<longleftrightarrow> unat (threshold T c) \<le> sum (weight c) (set (take (Suc i) votes)))" by auto
  then show ?thesis by (auto simp: sa_inv_def)
qed

theorem aggregator_first_reaches_witness:
  "\<exists>agg answers. add_votes QuorumThreshold committee4 [0, 1, 1, 3] sa_new = Inr (agg, answers) \<and>
    fset (agg_votes agg) = {0, 1, 3} \<and> unat (agg_stake agg) = 3"
proof -
  have "\<forall>v \<in> set [0, 1, 1, 3]. is_valid_index committee4 v" by (simp add: is_valid_index_def committee_size_def committee4_def)
  from aggregator_first_reaches [OF wf_committee4 this, of QuorumThreshold] show ?thesis
    by (auto simp: committee4_weight)
qed

text \<open>The comment on \<^verbatim>\<open>add\<close> says that it returns true when the threshold is first
  reached; it does so again for every further new voter. When a member
  completes the threshold, adding any other member that has not voted returns true as well.\<close>

theorem aggregator_add_true_again:
  assumes "wf_committee c" and "sa_inv c agg" and "is_valid_index c b" and "b \<noteq> a"
    and "b |\<notin>| agg_votes agg" and "sa_add T a c agg = Inr (agg1, True)"
  shows "\<exists>agg2. sa_add T b c agg1 = Inr (agg2, True)"
proof -
  have a: "is_valid_index c a" using assms(6) by (auto simp: sa_add_def res_simps)
  from sa_add_member [OF assms(1,2) a, of T] assms(6)
  have inv1: "sa_inv c agg1" and v1: "agg_votes agg1 = finsert a (agg_votes agg)"
    and thr: "unat (threshold T c) \<le> sum (weight c) (fset (agg_votes agg1))" by auto
  obtain agg2 r where add: "sa_add T b c agg1 = Inr (agg2, r)"
    and v2: "agg_votes agg2 = finsert b (agg_votes agg1)"
    and r: "r \<longleftrightarrow> b |\<notin>| agg_votes agg1 \<and> unat (threshold T c) \<le> sum (weight c) (fset (agg_votes agg2))"
    using sa_add_member [OF assms(1) inv1 assms(3), of T] by auto
  have "sum (weight c) (fset (agg_votes agg1)) \<le> sum (weight c) (fset (agg_votes agg2))"
    by (rule sum_fset_le) (auto simp: v2)
  with thr r assms(4,5) have r by (simp add: v1)
  with add show ?thesis by auto
qed

theorem aggregator_add_true_again_witness:
  "\<exists>agg2. sa_add QuorumThreshold 3 committee4 \<lparr>agg_votes = {|2, 0, 1|}, agg_stake = 3\<rparr> = Inr (agg2, True)"
proof -
  have inv: "sa_inv committee4 \<lparr>agg_votes = {|0, 1|}, agg_stake = 2\<rparr>"
    by (simp add: sa_inv_def members_def committee4_weight)
  have "sa_add QuorumThreshold 2 committee4 \<lparr>agg_votes = {|0, 1|}, agg_stake = 2\<rparr> =
      Inr (\<lparr>agg_votes = {|2, 0, 1|}, agg_stake = 3\<rparr>, True)"
    by code_simp
  from aggregator_add_true_again [OF wf_committee4 inv _ _ _ this, of 3] show ?thesis by simp
qed

end
