(* ===== verification/Block_Types.thy ===== *)
theory Block_Types
  imports Committee
begin

text \<open>
  \<^verbatim>\<open>crates/consensus/src/types.rs\<close>: block references, slots, blocks and verified blocks.
  A 32-byte digest is a 256-bit word read most significant byte first, so that the derived
  lexicographic order on the array is the order of the words. \<^verbatim>\<open>Sha3_256\<close> is a parameter
  \<open>H\<close> of the definitions that use it; the bytes fed to it are modelled.

  \<^verbatim>\<open>BlockRef\<close> and \<^verbatim>\<open>Slot\<close> are datatypes with one constructor and named selectors
  (rather than records) because they are keys of ordered containers and need an instance of
  \<open>linorder\<close>.
\<close>

type_synonym Round = u32
type_synonym BlockTimestampMs = u64
type_synonym BlockDigest = u256
type_synonym hash = "u8 list \<Rightarrow> u256"

definition GENESIS_ROUND :: Round where "GENESIS_ROUND = 0"

definition BlockDigest_MIN :: BlockDigest where "BlockDigest_MIN = 0"
definition BlockDigest_MAX :: BlockDigest where "BlockDigest_MAX = - 1"

section \<open>References and slots\<close>

datatype BlockRef = BlockRef (br_round: Round) (br_author: AuthorityIndex) (br_digest: BlockDigest)

instantiation BlockRef :: linorder
begin

definition less_eq_BlockRef :: "BlockRef \<Rightarrow> BlockRef \<Rightarrow> bool" where
  "a \<le> b \<longleftrightarrow> (br_round a, br_author a, br_digest a) \<le> (br_round b, br_author b, br_digest b)"

definition less_BlockRef :: "BlockRef \<Rightarrow> BlockRef \<Rightarrow> bool" where
  "a < b \<longleftrightarrow> (br_round a, br_author a, br_digest a) < (br_round b, br_author b, br_digest b)"

instance
proof
  fix a b c :: BlockRef
  show "a < b \<longleftrightarrow> a \<le> b \<and> \<not> b \<le> a"
    by (simp only: less_eq_BlockRef_def less_BlockRef_def less_le_not_le)
  show "a \<le> a" by (simp add: less_eq_BlockRef_def)
  show "a \<le> b \<Longrightarrow> b \<le> c \<Longrightarrow> a \<le> c"
    unfolding less_eq_BlockRef_def by (rule order_trans)
  show "a \<le> b \<Longrightarrow> b \<le> a \<Longrightarrow> a = b"
    unfolding less_eq_BlockRef_def by (drule (1) order_antisym) (auto intro: BlockRef.expand)
  show "a \<le> b \<or> b \<le> a"
    unfolding less_eq_BlockRef_def by (rule linear)
qed

end

lemma BlockRef_less_iff:
  "a < b \<longleftrightarrow> br_round a < br_round b \<or> br_round a = br_round b \<and>
     (br_author a < br_author b \<or> br_author a = br_author b \<and> br_digest a < br_digest b)"
  by (auto simp: less_BlockRef_def)

lemma BlockRef_le_iff:
  "a \<le> b \<longleftrightarrow> br_round a < br_round b \<or> br_round a = br_round b \<and>
     (br_author a < br_author b \<or> br_author a = br_author b \<and> br_digest a \<le> br_digest b)"
  by (auto simp: less_eq_BlockRef_def)

definition BlockRef_MIN :: BlockRef where
  "BlockRef_MIN = BlockRef 0 0 BlockDigest_MIN"

definition BlockRef_MAX :: BlockRef where
  "BlockRef_MAX = BlockRef (- 1) (- 1) BlockDigest_MAX"

datatype Slot = Slot (sl_round: Round) (sl_authority: AuthorityIndex)

definition slot_of_ref :: "BlockRef \<Rightarrow> Slot" where
  "slot_of_ref r = Slot (br_round r) (br_author r)"

section \<open>Blocks\<close>

type_synonym Transaction = "u8 list"

record Block =
  bk_epoch :: Epoch
  bk_round :: Round
  bk_author :: AuthorityIndex
  bk_timestamp_ms :: BlockTimestampMs
  bk_ancestors :: "BlockRef list"
  bk_transactions :: "Transaction list"

definition bk_slot :: "Block \<Rightarrow> Slot" where
  "bk_slot b = Slot (bk_round b) (bk_author b)"

record VerifiedBlock =
  vb_block :: Block
  vb_digest :: BlockDigest

text \<open>The bytes \<^verbatim>\<open>compute_digest\<close> hands to the hash function.\<close>

definition tx_bytes :: "Transaction \<Rightarrow> u8 list" where
  "tx_bytes tx = to_le_bytes32 (word_of_nat (length tx)) @ tx"

definition digest_input :: "Block \<Rightarrow> u8 list" where
  "digest_input b =
     to_le_bytes32 (bk_round b) @ to_le_bytes32 (bk_author b) @ to_le_bytes64 (bk_epoch b) @
     to_le_bytes64 (bk_timestamp_ms b) @
     concat (map (\<lambda>r. digest_bytes (br_digest r)) (bk_ancestors b)) @
     to_le_bytes32 (word_of_nat (length (bk_transactions b))) @
     concat (map tx_bytes (bk_transactions b))"

definition compute_digest :: "hash \<Rightarrow> Block \<Rightarrow> BlockDigest" where
  "compute_digest H b = H (digest_input b)"

definition new_verified :: "hash \<Rightarrow> Block \<Rightarrow> VerifiedBlock" where
  "new_verified H b = \<lparr>vb_block = b, vb_digest = compute_digest H b\<rparr>"

definition vb_round :: "VerifiedBlock \<Rightarrow> Round" where
  "vb_round v = bk_round (vb_block v)"

definition vb_author :: "VerifiedBlock \<Rightarrow> AuthorityIndex" where
  "vb_author v = bk_author (vb_block v)"

definition vb_slot :: "VerifiedBlock \<Rightarrow> Slot" where
  "vb_slot v = bk_slot (vb_block v)"

definition vb_timestamp_ms :: "VerifiedBlock \<Rightarrow> BlockTimestampMs" where
  "vb_timestamp_ms v = bk_timestamp_ms (vb_block v)"

definition vb_ancestors :: "VerifiedBlock \<Rightarrow> BlockRef list" where
  "vb_ancestors v = bk_ancestors (vb_block v)"

definition vb_transactions :: "VerifiedBlock \<Rightarrow> Transaction list" where
  "vb_transactions v = bk_transactions (vb_block v)"

definition reference :: "VerifiedBlock \<Rightarrow> BlockRef" where
  "reference v = BlockRef (vb_round v) (vb_author v) (vb_digest v)"

text \<open>\<^verbatim>\<open>impl PartialEq for VerifiedBlock\<close> compares digests only.\<close>

definition vb_eq :: "VerifiedBlock \<Rightarrow> VerifiedBlock \<Rightarrow> bool" where
  "vb_eq a b = (vb_digest a = vb_digest b)"

definition genesis_block :: "Epoch \<Rightarrow> AuthorityIndex \<Rightarrow> Block" where
  "genesis_block e i = \<lparr>bk_epoch = e, bk_round = GENESIS_ROUND, bk_author = i, bk_timestamp_ms = 0,
     bk_ancestors = [], bk_transactions = []\<rparr>"

definition genesis_blocks :: "hash \<Rightarrow> Committee \<Rightarrow> VerifiedBlock list" where
  "genesis_blocks H c =
     map (\<lambda>(i, _). new_verified H (genesis_block (cm_epoch c) i)) (committee_authorities c)"

section \<open>Lemmas\<close>

lemma reference_sel [simp]:
  "br_round (reference v) = vb_round v" "br_author (reference v) = vb_author v"
  "br_digest (reference v) = vb_digest v"
  by (simp_all add: reference_def)

lemma slot_of_reference: "slot_of_ref (reference v) = vb_slot v"
  by (simp add: slot_of_ref_def vb_slot_def bk_slot_def vb_round_def vb_author_def)

lemma genesis_block_facts:
  assumes "g \<in> set (genesis_blocks H c)"
  shows "vb_round g = 0" "vb_ancestors g = []" "vb_transactions g = []"
    "br_round (reference g) = 0"
  using assms
  by (auto simp: genesis_blocks_def genesis_block_def new_verified_def vb_round_def vb_ancestors_def
      vb_transactions_def GENESIS_ROUND_def)

lemma BlockDigest_bounds [simp]: "BlockDigest_MIN \<le> d" "d \<le> BlockDigest_MAX"
  by (simp_all add: BlockDigest_MIN_def BlockDigest_MAX_def word_order.extremum)

lemma BlockRef_bounds: "BlockRef_MIN \<le> r \<and> r \<le> BlockRef_MAX"
  using word_order.extremum [of "br_round r"] word_order.extremum [of "br_author r"]
  by (auto simp: BlockRef_MIN_def BlockRef_MAX_def BlockRef_le_iff order_less_le)

text \<open>The byte encodings are injective.\<close>

lemma le_bytes_inject:
  fixes v w :: "'a::len word"
  assumes "LENGTH('a) \<le> 8 * n" and "le_bytes n v = le_bytes n w"
  shows "v = w"
proof (rule bit_word_eqI)
  have step: "le_bytes n v = le_bytes n w \<Longrightarrow> k < 8 * n \<Longrightarrow> bit v k = bit w k" for n k and v w :: "'a word"
  proof (induction n arbitrary: v w k)
    case (Suc n)
    have "(ucast v :: u8) = ucast w" and tl: "le_bytes n (drop_bit 8 v) = le_bytes n (drop_bit 8 w)"
      using Suc.prems(1) by simp_all
    show ?case
    proof (cases "k < 8")
      case True
      from \<open>(ucast v :: u8) = ucast w\<close> have "bit (ucast v :: u8) k = bit (ucast w :: u8) k" by simp
      with True show ?thesis by (simp add: bit_ucast_iff)
    next
      case False
      then have "bit (drop_bit 8 v) (k - 8) = bit (drop_bit 8 w) (k - 8)"
        using Suc.IH [OF tl] Suc.prems(2) by simp
      with False show ?thesis by (simp add: bit_drop_bit_eq)
    qed
  qed simp
  fix k assume "k < LENGTH('a)"
  with assms show "bit v k = bit w k" by (intro step [of n]) auto
qed

lemma to_le_bytes_inject:
  "to_le_bytes32 a = to_le_bytes32 b \<longleftrightarrow> a = b"
  "to_le_bytes64 c = to_le_bytes64 d \<longleftrightarrow> c = d"
  "digest_bytes x = digest_bytes y \<longleftrightarrow> x = y"
  using le_bytes_inject [of 4 a b] le_bytes_inject [of 8 c d] le_bytes_inject [of 32 x y]
  by (auto simp: to_le_bytes32_def to_le_bytes64_def digest_bytes_def)

lemma inj_digest_bytes: "inj digest_bytes"
  by (rule injI) (simp add: to_le_bytes_inject)

lemma length_encodings [simp]:
  "length (to_le_bytes32 a) = 4" "length (to_le_bytes64 b) = 8" "length (digest_bytes d) = 32"
  by (simp_all add: to_le_bytes32_def to_le_bytes64_def digest_bytes_def)

lemma concat_fixed_inject:
  assumes "length xs = length ys" and "\<And>x. length (f x) = n"
    and "concat (map f xs) @ us = concat (map f ys) @ vs"
  shows "map f xs = map f ys \<and> us = vs"
  using assms
  by (induction xs ys rule: list_induct2) auto

lemma txs_bytes_inject:
  assumes "length xs = length ys"
    and "\<forall>t \<in> set xs. length t < 2 ^ 32" and "\<forall>t \<in> set ys. length t < 2 ^ 32"
    and "concat (map tx_bytes xs) = concat (map tx_bytes ys)"
  shows "xs = ys"
  using assms
proof (induction xs ys rule: list_induct2)
  case (Cons x xs y ys)
  then have eq: "tx_bytes x @ concat (map tx_bytes xs) = tx_bytes y @ concat (map tx_bytes ys)"
    by simp
  then have "to_le_bytes32 (word_of_nat (length x)) = to_le_bytes32 (word_of_nat (length y))"
    by (simp add: tx_bytes_def)
  then have "(word_of_nat (length x) :: u32) = word_of_nat (length y)"
    by (simp add: to_le_bytes_inject)
  then have len: "length x = length y"
    using Cons.prems(1,2) by (subst (asm) word_of_nat_inject_lt) simp_all
  with eq Cons show ?case by (simp add: tx_bytes_def)
qed simp

text \<open>\<^bold>\<open>C36\<close>. What a block digest binds. Two blocks with the same number of ancestors, and fewer
  than \<open>2 ^ 32\<close> transactions of fewer than \<open>2 ^ 32\<close> bytes each, hand the same bytes to the hash only
  if their round, author, epoch, timestamp, ancestor digests and transactions agree.\<close>

theorem digest_input_binds:
  assumes "digest_input b = digest_input b'"
    and "length (bk_ancestors b) = length (bk_ancestors b')"
    and "length (bk_transactions b) < 2 ^ 32" and "length (bk_transactions b') < 2 ^ 32"
    and "\<forall>t \<in> set (bk_transactions b). length t < 2 ^ 32"
    and "\<forall>t \<in> set (bk_transactions b'). length t < 2 ^ 32"
  shows "bk_round b = bk_round b' \<and> bk_author b = bk_author b' \<and> bk_epoch b = bk_epoch b' \<and>
    bk_timestamp_ms b = bk_timestamp_ms b' \<and>
    map br_digest (bk_ancestors b) = map br_digest (bk_ancestors b') \<and>
    bk_transactions b = bk_transactions b'"
proof -
  let ?anc = "\<lambda>b. concat (map (\<lambda>r. digest_bytes (br_digest r)) (bk_ancestors b))"
  let ?rest = "\<lambda>b. to_le_bytes32 (word_of_nat (length (bk_transactions b))) @
    concat (map tx_bytes (bk_transactions b))"
  from assms(1) have hd: "bk_round b = bk_round b'" "bk_author b = bk_author b'"
      "bk_epoch b = bk_epoch b'" "bk_timestamp_ms b = bk_timestamp_ms b'"
    and anc: "?anc b @ ?rest b = ?anc b' @ ?rest b'"
    by (simp_all add: digest_input_def to_le_bytes_inject)
  from concat_fixed_inject [OF assms(2) _ anc]
  have map_eq: "map (\<lambda>r. digest_bytes (br_digest r)) (bk_ancestors b) =
      map (\<lambda>r. digest_bytes (br_digest r)) (bk_ancestors b')" and rest: "?rest b = ?rest b'"
    by simp_all
  have "map digest_bytes (map br_digest (bk_ancestors b)) = map digest_bytes (map br_digest (bk_ancestors b'))"
    using map_eq by (simp add: comp_def)
  then have digests: "map br_digest (bk_ancestors b) = map br_digest (bk_ancestors b')"
    by (simp only: inj_map_eq_map [OF inj_digest_bytes])
  from rest have len: "(word_of_nat (length (bk_transactions b)) :: u32) =
      word_of_nat (length (bk_transactions b'))"
    and txs: "concat (map tx_bytes (bk_transactions b)) = concat (map tx_bytes (bk_transactions b'))"
    by (simp_all add: to_le_bytes_inject)
  from len assms(3,4) have "length (bk_transactions b) = length (bk_transactions b')"
    by (subst (asm) word_of_nat_inject_lt) simp_all
  from txs_bytes_inject [OF this assms(5,6) txs] hd digests show ?thesis by simp
qed

text \<open>A block with two ancestors and one transaction.\<close>

definition block_a :: Block where
  "block_a = \<lparr>bk_epoch = 0, bk_round = 2, bk_author = 1, bk_timestamp_ms = 7,
     bk_ancestors = [BlockRef 1 0 11, BlockRef 1 2 12], bk_transactions = [[1, 2]]\<rparr>"

theorem digest_input_binds_witness:
  "digest_input block_a = digest_input (block_a\<lparr>bk_ancestors := [BlockRef 1 3 11, BlockRef 0 2 12]\<rparr>) \<and>
   map br_digest (bk_ancestors block_a) = map br_digest [BlockRef 1 3 11, BlockRef 0 2 12]"
proof -
  have eq: "digest_input block_a = digest_input (block_a\<lparr>bk_ancestors := [BlockRef 1 3 11, BlockRef 0 2 12]\<rparr>)"
    by (simp add: digest_input_def block_a_def)
  from digest_input_binds [OF eq] eq show ?thesis by (simp add: block_a_def)
qed

text \<open>What it does not bind. \<^verbatim>\<open>BlockRef\<close> is documented to identify a block uniquely, but
  only the digests of the ancestors are hashed, not their rounds and authors: replacing every
  ancestor by a reference with the same digest gives a block with the same reference, whatever
  the hash function.\<close>

theorem reference_ignores_ancestor_slots:
  assumes "map br_digest as = map br_digest (bk_ancestors b)"
  shows "reference (new_verified H (b\<lparr>bk_ancestors := as\<rparr>)) = reference (new_verified H b)"
proof -
  have "map (\<lambda>r. digest_bytes (br_digest r)) as = map (\<lambda>r. digest_bytes (br_digest r)) (bk_ancestors b)"
    using arg_cong [OF assms, of "map digest_bytes"] by (simp add: comp_def)
  then show ?thesis
    by (simp add: reference_def new_verified_def compute_digest_def digest_input_def vb_round_def
        vb_author_def)
qed

theorem reference_ignores_ancestor_slots_witness:
  "block_a\<lparr>bk_ancestors := [BlockRef 1 3 11, BlockRef 0 2 12]\<rparr> \<noteq> block_a \<and>
   reference (new_verified (\<lambda>_. 0) (block_a\<lparr>bk_ancestors := [BlockRef 1 3 11, BlockRef 0 2 12]\<rparr>)) =
     reference (new_verified (\<lambda>_. 0) block_a)"
  using reference_ignores_ancestor_slots [of "[BlockRef 1 3 11, BlockRef 0 2 12]" block_a "\<lambda>_. 0"]
  by (simp add: block_a_def)

end
