(* ===== verification/Threshold_Clock.thy ===== *)
theory Threshold_Clock
  imports Block_Types
begin

text \<open>
  \<^verbatim>\<open>crates/consensus/src/threshold_clock.rs\<close>: the round a node may propose at, which advances
  when a quorum of blocks of the current round has been accepted, or jumps when a block of a
  later round shows that the network is ahead.
\<close>

record ThresholdClock =
  tc_committee :: Committee   \<comment> \<open>\<^verbatim>\<open>context.committee\<close>, all the clock uses of its context\<close>
  tc_aggregator :: StakeAggregator
  tc_round :: Round

definition tc_new :: "Round \<Rightarrow> Context \<Rightarrow> ThresholdClock res" where
  "tc_new rnd context =
     rbind (guard DebugAssert (committee_size (committee context) > 0)) (\<lambda>_.
     Inr \<lparr>tc_committee = committee context, tc_aggregator = sa_new, tc_round = rnd\<rparr>)"

definition tc_add_block :: "BlockRef \<Rightarrow> ThresholdClock \<Rightarrow> (ThresholdClock \<times> bool) res" where
  "tc_add_block block tc =
     rbind (guard DebugAssert (is_valid_index (tc_committee tc) (br_author block))) (\<lambda>_.
     if br_round block < tc_round tc then Inr (tc, False)
     else if br_round block = tc_round tc then
       rbind (sa_add QuorumThreshold (br_author block) (tc_committee tc) (tc_aggregator tc))
         (\<lambda>(agg, reached).
         if reached then
           rbind (checked_add (br_round block) 1) (\<lambda>r.
           Inr (tc\<lparr>tc_aggregator := sa_clear agg, tc_round := r\<rparr>, True))
         else Inr (tc\<lparr>tc_aggregator := agg\<rparr>, False))
     else
       rbind (sa_add QuorumThreshold (br_author block) (tc_committee tc) (sa_clear (tc_aggregator tc)))
         (\<lambda>(agg, reached).
         if reached then
           rbind (checked_add (br_round block) 1) (\<lambda>r.
           Inr (tc\<lparr>tc_aggregator := agg, tc_round := r\<rparr>, True))
         else Inr (tc\<lparr>tc_aggregator := agg, tc_round := br_round block\<rparr>, True)))"

definition tc_get_round :: "ThresholdClock \<Rightarrow> Round" where
  "tc_get_round tc = tc_round tc"

text \<open>Every clock the code builds: the committee is well formed and the aggregator's stake is
  that of its voters.\<close>

definition tc_inv :: "ThresholdClock \<Rightarrow> bool" where
  "tc_inv tc \<longleftrightarrow> wf_committee (tc_committee tc) \<and> sa_inv (tc_committee tc) (tc_aggregator tc)"

text \<open>The clock's votes are below the quorum. It holds initially and is kept unless a single
  authority holds a quorum by itself (see the last theorem).\<close>

definition tc_below_quorum :: "ThresholdClock \<Rightarrow> bool" where
  "tc_below_quorum tc \<longleftrightarrow>
     sum (weight (tc_committee tc)) (fset (agg_votes (tc_aggregator tc))) <
       unat (cm_quorum_threshold (tc_committee tc))"

lemma tc_new_inv:
  assumes "wf_committee (committee ctx)"
  shows "\<exists>tc. tc_new r ctx = Inr tc \<and> tc_inv tc \<and> tc_below_quorum tc \<and> tc_round tc = r \<and>
    tc_committee tc = committee ctx"
  using assms wf_quorum_pos [OF assms]
  by (auto simp: tc_new_def tc_inv_def tc_below_quorum_def sa_new_def sa_inv_def guard_def
      wf_committee_def committee_size_def)

lemma tc_add_block_step:
  assumes inv: "tc_inv tc" and valid: "is_valid_index (tc_committee tc) (br_author block)"
    and max: "br_round block \<noteq> - 1"
  shows "\<exists>tc' adv. tc_add_block block tc = Inr (tc', adv) \<and> tc_inv tc' \<and>
    tc_committee tc' = tc_committee tc \<and> (adv \<longleftrightarrow> tc_round tc < tc_round tc') \<and>
    tc_round tc \<le> tc_round tc' \<and> (tc_round tc < br_round block \<longrightarrow> br_round block \<le> tc_round tc')"
proof -
  let ?c = "tc_committee tc" and ?a = "br_author block"
  have wf: "wf_committee ?c" using inv by (simp add: tc_inv_def)
  note succ = checked_succ(1) [OF max] less_succ [OF max]
  consider (less) "br_round block < tc_round tc" | (eq) "br_round block = tc_round tc"
    | (greater) "tc_round tc < br_round block" by fastforce
  then show ?thesis
  proof cases
    case less
    with inv valid show ?thesis by (auto simp: tc_add_block_def)
  next
    case eq
    obtain agg b where "sa_add QuorumThreshold ?a ?c (tc_aggregator tc) = Inr (agg, b)" "sa_inv ?c agg"
      using sa_add_member [OF wf _ valid, where T = QuorumThreshold and agg = "tc_aggregator tc"] inv
      by (auto simp: tc_inv_def)
    with eq wf valid succ show ?thesis
      by (cases b) (auto simp: tc_add_block_def tc_inv_def)
  next
    case greater
    obtain agg b where "sa_add QuorumThreshold ?a ?c (sa_clear (tc_aggregator tc)) = Inr (agg, b)"
      "sa_inv ?c agg"
      using sa_add_member [OF wf sa_inv_clear valid, where T = QuorumThreshold] by fast
    with greater wf valid succ show ?thesis
      by (cases b) (auto simp: tc_add_block_def tc_inv_def)
  qed
qed

section \<open>What the clock's round stands for\<close>

text \<open>The clock after a sequence of accepted blocks.\<close>

definition tc_run :: "BlockRef list \<Rightarrow> ThresholdClock \<Rightarrow> ThresholdClock res" where
  "tc_run bs tc = rfold (\<lambda>b tc. rbind (tc_add_block b tc) (\<lambda>(tc', _). Inr tc')) bs tc"

definition authors_at :: "BlockRef set \<Rightarrow> Round \<Rightarrow> AuthorityIndex set" where
  "authors_at bs r = {br_author b |b. b \<in> bs \<and> br_round b = r}"

text \<open>The reason to be in round \<open>r\<close>: a block of that round, or a quorum of the round before.\<close>

definition round_evidence :: "Committee \<Rightarrow> BlockRef set \<Rightarrow> Round \<Rightarrow> bool" where
  "round_evidence c bs r \<longleftrightarrow>
     authors_at bs r \<noteq> {} \<or>
     r \<noteq> 0 \<and> unat (cm_quorum_threshold c) \<le> sum (weight c) (authors_at bs (r - 1))"

definition no_dictator :: "Committee \<Rightarrow> bool" where
  "no_dictator c \<longleftrightarrow> (\<forall>a \<in> members c. weight c a < unat (cm_quorum_threshold c))"

definition tc_hist :: "Round \<Rightarrow> BlockRef set \<Rightarrow> ThresholdClock \<Rightarrow> bool" where
  "tc_hist r0 bs tc \<longleftrightarrow> tc_inv tc \<and> tc_below_quorum tc \<and>
     fset (agg_votes (tc_aggregator tc)) \<subseteq> authors_at bs (tc_round tc) \<and>
     (tc_round tc = r0 \<or> round_evidence (tc_committee tc) bs (tc_round tc))"

lemma authors_at_insert:
  "authors_at (insert b bs) r = (if br_round b = r then insert (br_author b) (authors_at bs r) else authors_at bs r)"
  by (auto simp: authors_at_def)

lemma round_evidence_mono:
  assumes "round_evidence c bs r" and "bs \<subseteq> bs'"
  shows "round_evidence c bs' r"
proof -
  have sub: "authors_at bs q \<subseteq> authors_at bs' q" for q using assms(2) by (auto simp: authors_at_def)
  have "sum (weight c) (authors_at bs (r - 1)) \<le> sum (weight c) (authors_at bs' (r - 1))"
    by (rule sum_fset_le [OF finite sub])
  with assms(1) sub [of r] show ?thesis unfolding round_evidence_def by (elim disjE) auto
qed

lemma tc_hist_step:
  assumes hist: "tc_hist r0 bs tc" and nd: "no_dictator (tc_committee tc)"
    and valid: "is_valid_index (tc_committee tc) (br_author b)" and max: "br_round b \<noteq> - 1"
  shows "\<exists>tc' adv. tc_add_block b tc = Inr (tc', adv) \<and> tc_hist r0 (insert b bs) tc' \<and>
    tc_committee tc' = tc_committee tc"
proof -
  let ?c = "tc_committee tc" and ?a = "br_author b" and ?q = "unat (cm_quorum_threshold (tc_committee tc))"
  have inv: "tc_inv tc" and votes: "fset (agg_votes (tc_aggregator tc)) \<subseteq> authors_at bs (tc_round tc)"
    using hist by (simp_all add: tc_hist_def)
  have wf: "wf_committee ?c" and sai: "sa_inv ?c (tc_aggregator tc)"
    using inv by (simp_all add: tc_inv_def)
  note evid = round_evidence_mono [OF _ subset_insertI, of ?c bs _ b]
  consider (less) "br_round b < tc_round tc" | (eq) "br_round b = tc_round tc"
    | (greater) "tc_round tc < br_round b" by fastforce
  then show ?thesis
  proof cases
    case less
    with hist valid evid show ?thesis by (auto simp: tc_add_block_def tc_hist_def authors_at_insert)
  next
    case eq
    obtain agg r where add: "sa_add QuorumThreshold ?a ?c (tc_aggregator tc) = Inr (agg, r)" "sa_inv ?c agg"
      and v: "agg_votes agg = finsert ?a (agg_votes (tc_aggregator tc))"
      and r: "r \<longleftrightarrow> ?a |\<notin>| agg_votes (tc_aggregator tc) \<and> ?q \<le> sum (weight ?c) (fset (agg_votes agg))"
      using sa_add_member [OF wf sai valid, of QuorumThreshold] by auto
    have sub: "fset (agg_votes agg) \<subseteq> authors_at (insert b bs) (br_round b)"
      using votes eq by (auto simp: v authors_at_insert)
    show ?thesis
    proof (cases r)
      case True
      with r sum_fset_le [OF finite sub, of "weight ?c"] checked_succ(2) [OF max]
      have "round_evidence ?c (insert b bs) (br_round b + 1)"
        by (auto simp: round_evidence_def unat_0_iff [symmetric])
      with True add eq valid wf wf_quorum_pos [OF wf] show ?thesis
        by (auto simp: tc_add_block_def tc_hist_def tc_inv_def tc_below_quorum_def sa_clear_def
            sa_inv_def checked_succ(1) [OF max, unfolded eq])
    next
      case False
      then have "sum (weight ?c) (fset (agg_votes agg)) < ?q"
        using r hist by (auto simp: v tc_hist_def tc_below_quorum_def insert_absorb not_le)
      with False add eq valid wf sub hist evid show ?thesis
        by (auto simp: tc_add_block_def tc_hist_def tc_inv_def tc_below_quorum_def)
    qed
  next
    case greater
    obtain agg r where add: "sa_add QuorumThreshold ?a ?c (sa_clear (tc_aggregator tc)) = Inr (agg, r)"
        "sa_inv ?c agg"
      and v: "agg_votes agg = {|?a|}" and r: "r \<longleftrightarrow> ?q \<le> sum (weight ?c) (fset (agg_votes agg))"
      using sa_add_member [OF wf sa_inv_clear valid, of QuorumThreshold "tc_aggregator tc"]
      by (auto simp: sa_clear_def)
    have "weight ?c ?a < ?q" using nd valid by (auto simp: no_dictator_def members_def)
    then have "\<not> r" and lt: "sum (weight ?c) (fset (agg_votes agg)) < ?q" by (simp_all add: r v)
    moreover have "\<not> br_round b < tc_round tc" "br_round b \<noteq> tc_round tc" using greater by auto
    ultimately have step: "tc_add_block b tc =
        Inr (tc\<lparr>tc_aggregator := agg, tc_round := br_round b\<rparr>, True)"
      using add valid by (simp add: tc_add_block_def)
    moreover have "tc_hist r0 (insert b bs) (tc\<lparr>tc_aggregator := agg, tc_round := br_round b\<rparr>)"
      using add(2) wf lt by (simp add: tc_hist_def tc_inv_def tc_below_quorum_def v
          authors_at_insert round_evidence_def)
    ultimately show ?thesis by auto
  qed
qed

lemma tc_run_hist:
  assumes "tc_hist r0 bs tc" and "no_dictator (tc_committee tc)"
    and "\<forall>b \<in> set hs. is_valid_index (tc_committee tc) (br_author b) \<and> br_round b \<noteq> - 1"
  shows "\<exists>tc'. tc_run hs tc = Inr tc' \<and> tc_hist r0 (bs \<union> set hs) tc' \<and> tc_committee tc' = tc_committee tc"
  using assms
proof (induction hs arbitrary: bs tc)
  case (Cons b hs)
  obtain tc1 adv where "tc_add_block b tc = Inr (tc1, adv)" and h: "tc_hist r0 (insert b bs) tc1"
    and c: "tc_committee tc1 = tc_committee tc"
    using tc_hist_step [OF Cons.prems(1,2), of b] Cons.prems(3) by auto
  with Cons.IH [OF h] Cons.prems(2,3) show ?case by (auto simp: tc_run_def)
qed (simp add: tc_run_def)

text \<open>The threshold clock. From any clock with a well-formed committee and a member's block
  below the last round number: adding the block never panics, never moves the round backwards,
  returns true exactly when the round advanced, and after a block of a later round the clock has
  caught up with it.\<close>

theorem threshold_clock_step:
  assumes "tc_inv tc" and "is_valid_index (tc_committee tc) (br_author block)"
    and "br_round block \<noteq> - 1"
  shows "\<exists>tc' adv. tc_add_block block tc = Inr (tc', adv) \<and> tc_inv tc' \<and>
    tc_committee tc' = tc_committee tc \<and> (adv \<longleftrightarrow> tc_round tc < tc_round tc') \<and>
    tc_round tc \<le> tc_round tc' \<and> (tc_round tc < br_round block \<longrightarrow> br_round block \<le> tc_round tc')"
  using assms by (rule tc_add_block_step)

theorem threshold_clock_step_witness:
  "\<exists>tc' adv. tc_add_block (BlockRef 4 2 0)
      \<lparr>tc_committee = committee4, tc_aggregator = sa_new, tc_round = 1\<rparr> = Inr (tc', adv) \<and>
    tc_inv tc' \<and> (adv \<longleftrightarrow> 1 < tc_round tc') \<and> 4 \<le> tc_round tc'"
proof -
  have "tc_inv \<lparr>tc_committee = committee4, tc_aggregator = sa_new, tc_round = 1\<rparr>"
    by (simp add: tc_inv_def)
  from threshold_clock_step [OF this, of "BlockRef 4 2 0"] show ?thesis by auto
qed

text \<open>\<^bold>\<open>C32\<close>. What the round of the clock stands for, when no single authority holds a quorum. After
  any sequence of blocks from members, a clock that left its first round has evidence for the
  round it shows: an accepted block of that round, or blocks of the round before from a quorum
  of authorities.\<close>

theorem threshold_clock_sound:
  assumes "tc_new r0 ctx = Inr tc" and "wf_committee (committee ctx)" and "no_dictator (committee ctx)"
    and "\<forall>b \<in> set hs. is_valid_index (committee ctx) (br_author b) \<and> br_round b \<noteq> - 1"
  shows "\<exists>tc'. tc_run hs tc = Inr tc' \<and>
    (tc_round tc' = r0 \<or> round_evidence (committee ctx) (set hs) (tc_round tc'))"
proof -
  have tc: "tc_inv tc" "tc_below_quorum tc" "tc_round tc = r0" "tc_committee tc = committee ctx"
    "agg_votes (tc_aggregator tc) = {||}"
    using tc_new_inv [OF assms(2), of r0] assms(1) by (auto simp: tc_new_def sa_new_def res_simps)
  then have "tc_hist r0 {} tc" by (simp add: tc_hist_def)
  from tc_run_hist [OF this, of hs] assms(3,4) tc(4) obtain tc' where "tc_run hs tc = Inr tc'"
    and "tc_hist r0 (set hs) tc'" and "tc_committee tc' = committee ctx" by auto
  then show ?thesis by (auto simp: tc_hist_def)
qed

definition ctx4 :: Context where
  "ctx4 = \<lparr>own_index = 0, committee = committee4\<rparr>"

lemma committee_ctx4 [simp]: "committee ctx4 = committee4"
  by (simp add: ctx4_def)

theorem threshold_clock_sound_witness:
  "no_dictator committee4 \<and> (\<exists>tc'. tc_run [BlockRef 1 0 0, BlockRef 1 1 0, BlockRef 1 2 0]
     \<lparr>tc_committee = committee4, tc_aggregator = sa_new, tc_round = 1\<rparr> = Inr tc' \<and>
     (tc_round tc' = 1 \<or>
      round_evidence committee4 {BlockRef 1 0 0, BlockRef 1 1 0, BlockRef 1 2 0} (tc_round tc')))"
proof -
  have nd: "no_dictator committee4" by (simp add: no_dictator_def members_def committee4_weight)
  have "tc_new 1 ctx4 = Inr \<lparr>tc_committee = committee4, tc_aggregator = sa_new, tc_round = 1\<rparr>"
    by (simp add: tc_new_def committee_size_def committee4_def ctx4_def)
  from threshold_clock_sound [OF this, of "[BlockRef 1 0 0, BlockRef 1 1 0, BlockRef 1 2 0]"] nd
  show ?thesis by simp
qed

text \<open>With an authority that holds a quorum by itself the clock is unsound: the catch-up
  branch of \<^verbatim>\<open>add_block\<close> does not clear the aggregator when the single block completes the
  quorum. With stakes 3 and 1, a block of round 5 by the first authority moves the clock to round
  6 and leaves its vote counted, so one block of round 6 by the second authority (stake 1 of a
  quorum of 3) moves the clock to round 7.\<close>

definition dictator_committee :: Committee where
  "dictator_committee = \<lparr>cm_epoch = 0, cm_total_stake = 4, cm_quorum_threshold = 3,
     cm_validity_threshold = 2,
     cm_authorities = [\<lparr>auth_stake = 3, auth_hostname = ''a''\<rparr>, \<lparr>auth_stake = 1, auth_hostname = ''b''\<rparr>]\<rparr>"

theorem threshold_clock_catch_up_keeps_vote:
  "committee_new 0 (cm_authorities dictator_committee) = Inr dictator_committee \<and>
   rbind (tc_new 1 \<lparr>own_index = 0, committee = dictator_committee\<rparr>) (\<lambda>tc.
   rbind (tc_run [BlockRef 5 0 0, BlockRef 6 1 0] tc) (\<lambda>tc'. Inr (tc_round tc'))) = Inr 7 \<and>
   \<not> round_evidence dictator_committee {BlockRef 5 0 0, BlockRef 6 1 0} 7"
proof (intro conjI)
  show "committee_new 0 (cm_authorities dictator_committee) = Inr dictator_committee"
    by (simp add: committee_new_cases dictator_committee_def)
  show "rbind (tc_new 1 \<lparr>own_index = 0, committee = dictator_committee\<rparr>) (\<lambda>tc.
    rbind (tc_run [BlockRef 5 0 0, BlockRef 6 1 0] tc) (\<lambda>tc'. Inr (tc_round tc'))) = Inr 7"
    by code_simp
  show "\<not> round_evidence dictator_committee {BlockRef 5 0 0, BlockRef 6 1 0} 7"
    by (simp add: round_evidence_def authors_at_insert authors_at_def [of "{}"] weight_def
        dictator_committee_def)
qed

section \<open>The unit tests\<close>

definition make_block_ref :: "Round \<Rightarrow> u32 \<Rightarrow> BlockRef" where
  "make_block_ref rnd author = BlockRef rnd author BlockDigest_MIN"

text \<open>One line pair of a test: add a block, check the result and the round.\<close>

definition add_and_check :: "BlockRef \<times> bool \<times> Round \<Rightarrow> ThresholdClock \<Rightarrow> ThresholdClock res" where
  "add_and_check x clock =
     (case x of (block, expected, rnd) \<Rightarrow>
       rbind (tc_add_block block clock) (\<lambda>(clock, advanced).
       rbind (guard Assert (advanced = expected)) (\<lambda>_.
       rbind (guard Assert (tc_get_round clock = rnd)) (\<lambda>_. Inr clock))))"

definition test_threshold_clock_add_block :: "ThresholdClock res" where
  "test_threshold_clock_add_block =
     rbind (context_new_for_test 4) (\<lambda>context. rbind (tc_new 0 context) (
     rfold add_and_check
       [(make_block_ref 0 0, False, 0), (make_block_ref 0 1, False, 0), (make_block_ref 0 2, True, 1),
        (make_block_ref 1 0, False, 1), (make_block_ref 1 3, False, 1), (make_block_ref 2 1, True, 2),
        (make_block_ref 1 1, False, 2), (make_block_ref 5 2, True, 5)]))"

text \<open>The last assertion of the second test does not look at the result of \<^verbatim>\<open>add_block\<close>, which is true.\<close>

definition test_threshold_clock_min_committee :: "ThresholdClock res" where
  "test_threshold_clock_min_committee =
     rbind (context_new_for_test 1) (\<lambda>context. rbind (tc_new 10 context) (
     rfold add_and_check
       [(make_block_ref 9 0, False, 10), (make_block_ref 10 0, True, 11), (make_block_ref 20 0, True, 21)]))"

lemma make_committee1: "make_test_committee 0 1 = Inr \<lparr>cm_epoch = 0, cm_total_stake = 1, cm_quorum_threshold = 1,
    cm_validity_threshold = 1, cm_authorities = [\<lparr>auth_stake = 1, auth_hostname = ''node-0''\<rparr>]\<rparr>"
  by (simp add: make_test_committee_def committee_new_cases decimal.simps char_of_def bit_0)

text \<open>The unit tests of the clock pass.\<close>

theorem threshold_clock_tests_pass:
  "\<not> isl test_threshold_clock_add_block \<and> \<not> isl test_threshold_clock_min_committee"
  unfolding test_threshold_clock_add_block_def test_threshold_clock_min_committee_def context_new_for_test_def
    make_committee4 make_committee1 rbind_Inr
  by code_simp

end
