(* ===== verification/Commit_Types.thy ===== *)
theory Commit_Types
  imports Block_Types
begin

text \<open>
  \<^verbatim>\<open>crates/consensus/src/commit.rs\<close>: commit references, committed sub-dags and their order,
  and the status of leader slots.
\<close>

type_synonym CommitIndex = u32
type_synonym WaveNumber = u32
type_synonym CommitDigest = u256

definition GENESIS_COMMIT_INDEX :: CommitIndex where "GENESIS_COMMIT_INDEX = 0"
definition MINIMUM_WAVE_LENGTH :: Round where "MINIMUM_WAVE_LENGTH = 3"
definition DEFAULT_WAVE_LENGTH :: Round where "DEFAULT_WAVE_LENGTH = MINIMUM_WAVE_LENGTH"
definition CommitDigest_MIN :: CommitDigest where "CommitDigest_MIN = 0"

record CommitRef =
  cr_index :: CommitIndex
  cr_digest :: CommitDigest

record CommittedSubDag =
  sd_leader :: BlockRef
  sd_blocks :: "VerifiedBlock list"
  sd_timestamp_ms :: BlockTimestampMs
  sd_commit_ref :: CommitRef

text \<open>\<^verbatim>\<open>sort_by\<close> is a stable sort, as \<open>sort_key\<close> is.\<close>

definition sort_sub_dag_blocks :: "VerifiedBlock list \<Rightarrow> VerifiedBlock list" where
  "sort_sub_dag_blocks blocks = sort_key (\<lambda>b. (vb_round b, vb_author b)) blocks"

datatype LeaderStatus = Commit VerifiedBlock | Skip Slot | Undecided Slot

fun ls_round :: "LeaderStatus \<Rightarrow> Round" where
  "ls_round (Commit block) = vb_round block"
| "ls_round (Skip leader) = sl_round leader"
| "ls_round (Undecided leader) = sl_round leader"

fun is_decided :: "LeaderStatus \<Rightarrow> bool" where
  "is_decided (Commit _) = True"
| "is_decided (Skip _) = True"
| "is_decided (Undecided _) = False"

datatype DecidedLeader = DecidedCommit VerifiedBlock bool | DecidedSkip Slot

fun into_decided_leader :: "bool \<Rightarrow> LeaderStatus \<Rightarrow> DecidedLeader option" where
  "into_decided_leader direct (Commit block) = Some (DecidedCommit block direct)"
| "into_decided_leader direct (Skip slot) = Some (DecidedSkip slot)"
| "into_decided_leader direct (Undecided _) = None"

fun dl_slot :: "DecidedLeader \<Rightarrow> Slot" where
  "dl_slot (DecidedCommit block _) = slot_of_ref (reference block)"
| "dl_slot (DecidedSkip slot) = slot"

fun into_committed_block :: "DecidedLeader \<Rightarrow> VerifiedBlock option" where
  "into_committed_block (DecidedCommit block _) = Some block"
| "into_committed_block (DecidedSkip _) = None"

datatype Decision = Direct | Indirect

fun_cases into_decided_leaderE [elim]: "into_decided_leader direct s = Some d"
fun_cases into_decided_NoneE [elim]: "into_decided_leader direct s = None"

lemma set_sort_sub_dag [simp]: "set (sort_sub_dag_blocks bs) = set bs"
  and length_sort_sub_dag [simp]: "length (sort_sub_dag_blocks bs) = length bs"
  by (simp_all add: sort_sub_dag_blocks_def)

lemma sorted_sort_sub_dag: "sorted (map (\<lambda>b. (vb_round b, vb_author b)) (sort_sub_dag_blocks bs))"
  by (simp add: sort_sub_dag_blocks_def)

end
