(* ===== verification/Dag_State.thy ===== *)
theory Dag_State
  imports Threshold_Clock Commit_Types "HOL-Library.While_Combinator"
begin

text \<open>
  \<^verbatim>\<open>crates/consensus/src/dag_state.rs\<close>: the accepted blocks of a node, the queries the commit
  rules make on them, and the running commit state. The read-write lock the node wraps around
  the state is not modelled: every operation of the node runs to completion on it.
\<close>

section \<open>State and operations\<close>

record DagState =
  ds_context :: Context
  ds_genesis :: "(BlockRef, VerifiedBlock) omap"
  ds_blocks :: "(BlockRef, VerifiedBlock) omap"
  ds_committed :: "BlockRef fset"
  ds_threshold_clock :: ThresholdClock
  ds_highest_accepted_round :: Round
  ds_last_commit_index :: CommitIndex
  ds_last_commit_digest :: CommitDigest
  ds_last_commit_timestamp_ms :: BlockTimestampMs

definition dag_new :: "hash \<Rightarrow> Context \<Rightarrow> DagState res" where
  "dag_new H context =
     (let genesis = om_collect (map (\<lambda>b. (reference b, b)) (genesis_blocks H (committee context)));
          committed = fset_of_list (om_keys genesis)
      in rbind (tc_new 1 context) (\<lambda>threshold_clock.
         Inr \<lparr>ds_context = context, ds_genesis = genesis, ds_blocks = om_empty,
           ds_committed = committed, ds_threshold_clock = threshold_clock,
           ds_highest_accepted_round = 0, ds_last_commit_index = GENESIS_COMMIT_INDEX,
           ds_last_commit_digest = CommitDigest_MIN, ds_last_commit_timestamp_ms = 0\<rparr>))"

definition dag_committee :: "DagState \<Rightarrow> Committee" where
  "dag_committee d = committee (ds_context d)"

text \<open>One iteration of the loop of \<^verbatim>\<open>accept_blocks\<close>, and the loop.\<close>

definition accept_one :: "VerifiedBlock \<Rightarrow> DagState \<Rightarrow> DagState res" where
  "accept_one block d =
     rbind (guard DebugAssert (vb_round block > 0 \<or> om_contains (ds_genesis d) (reference block))) (\<lambda>_.
     rbind (tc_add_block (reference block) (ds_threshold_clock d)) (\<lambda>(clock, _).
     Inr (d\<lparr>ds_threshold_clock := clock,
       ds_highest_accepted_round :=
         (if vb_round block > ds_highest_accepted_round d then vb_round block
          else ds_highest_accepted_round d),
       ds_blocks := om_insert (reference block) block (ds_blocks d)\<rparr>)))"

definition dag_accept_blocks :: "VerifiedBlock list \<Rightarrow> DagState \<Rightarrow> DagState res" where
  "dag_accept_blocks blocks d = rfold accept_one blocks d"

definition get_block :: "DagState \<Rightarrow> BlockRef \<Rightarrow> VerifiedBlock option" where
  "get_block d r = (case om_get (ds_blocks d) r of Some b \<Rightarrow> Some b | None \<Rightarrow> om_get (ds_genesis d) r)"

definition get_blocks :: "DagState \<Rightarrow> BlockRef list \<Rightarrow> VerifiedBlock option list" where
  "get_blocks d refs = map (get_block d) refs"

definition contains_block :: "DagState \<Rightarrow> BlockRef \<Rightarrow> bool" where
  "contains_block d r = (om_contains (ds_blocks d) r \<or> om_contains (ds_genesis d) r)"

definition contains_blocks :: "DagState \<Rightarrow> BlockRef list \<Rightarrow> bool list" where
  "contains_blocks d refs = map (contains_block d) refs"

text \<open>\<^verbatim>\<open>set_committed\<close> returns whether the block was not committed before.\<close>

definition is_committed :: "DagState \<Rightarrow> BlockRef \<Rightarrow> bool" where
  "is_committed d r = (r |\<in>| ds_committed d)"

definition set_committed :: "BlockRef \<Rightarrow> DagState \<Rightarrow> DagState \<times> bool" where
  "set_committed r d = (d\<lparr>ds_committed := finsert r (ds_committed d)\<rparr>, r |\<notin>| ds_committed d)"

text \<open>The values of \<^verbatim>\<open>blocks.range(..)\<close> in key order, and the loops that keep the
  uncommitted ones.\<close>

definition blocks_range :: "DagState \<Rightarrow> (BlockRef \<Rightarrow> bool) \<Rightarrow> VerifiedBlock list" where
  "blocks_range d P = om_values (om_filter_keys P (ds_blocks d))"

definition get_uncommitted_blocks_at_slot :: "DagState \<Rightarrow> Slot \<Rightarrow> VerifiedBlock list" where
  "get_uncommitted_blocks_at_slot d slot =
     filter (\<lambda>b. \<not> is_committed d (reference b))
       (blocks_range d (\<lambda>r. BlockRef (sl_round slot) (sl_authority slot) BlockDigest_MIN \<le> r \<and>
          r \<le> BlockRef (sl_round slot) (sl_authority slot) BlockDigest_MAX))"

definition get_uncommitted_blocks_at_round :: "DagState \<Rightarrow> Round \<Rightarrow> VerifiedBlock list res" where
  "get_uncommitted_blocks_at_round d rnd =
     rbind (checked_add rnd 1) (\<lambda>next.
     Inr (filter (\<lambda>b. \<not> is_committed d (reference b))
       (blocks_range d (\<lambda>r. BlockRef rnd 0 BlockDigest_MIN \<le> r \<and> r < BlockRef next 0 BlockDigest_MIN))))"

text \<open>The loop of \<^verbatim>\<open>ancestors_at_round\<close>: expand the greatest linked reference until none is
  above the round asked for.\<close>

definition anc_continue :: "Round \<Rightarrow> BlockRef fset \<Rightarrow> bool" where
  "anc_continue earlier linked \<longleftrightarrow> linked \<noteq> {||} \<and> \<not> br_round (fMax linked) \<le> earlier"

definition anc_step :: "DagState \<Rightarrow> BlockRef fset \<Rightarrow> BlockRef fset" where
  "anc_step d linked =
     (let r = fMax linked; rest = linked |-| {|r|}
      in case get_block d r of
           Some block \<Rightarrow> rest |\<union>| fset_of_list (vb_ancestors block)
         | None \<Rightarrow> rest)"

definition ancestors_at_round :: "DagState \<Rightarrow> VerifiedBlock \<Rightarrow> Round \<Rightarrow> VerifiedBlock list res" where
  "ancestors_at_round d later_block earlier =
     returns (map_option
       (\<lambda>linked. Inr (List.map_filter (get_block d)
          (sorted_list_of_fset (ffilter (\<lambda>r. BlockRef earlier 0 BlockDigest_MIN \<le> r) linked))))
       (while_option (anc_continue earlier) (anc_step d) (fset_of_list (vb_ancestors later_block))))"

definition record_commit :: "CommittedSubDag \<Rightarrow> DagState \<Rightarrow> DagState res" where
  "record_commit subdag d =
     rbind (checked_add (ds_last_commit_index d) 1) (\<lambda>next.
     rbind (guard DebugAssert (cr_index (sd_commit_ref subdag) = next)) (\<lambda>_.
     Inr (d\<lparr>ds_last_commit_index := cr_index (sd_commit_ref subdag),
       ds_last_commit_digest := cr_digest (sd_commit_ref subdag),
       ds_last_commit_timestamp_ms := sd_timestamp_ms subdag\<rparr>)))"

definition last_commit_round :: "DagState \<Rightarrow> Round" where
  "last_commit_round d = 0"

definition gc_round :: "DagState \<Rightarrow> Round" where
  "gc_round d = 0"

definition threshold_clock_round :: "DagState \<Rightarrow> Round" where
  "threshold_clock_round d = tc_get_round (ds_threshold_clock d)"

text \<open>The traversal of \<^verbatim>\<open>get_causal_blocks\<close>. The stack is a list whose head is the top; one
  iteration pops a block and pushes the ancestors that are above the round, not committed, not
  yet visited, and present.\<close>

fun visit_ancestors ::
  "DagState \<Rightarrow> Round \<Rightarrow> BlockRef list \<Rightarrow> VerifiedBlock list \<Rightarrow> BlockRef fset \<Rightarrow>
     VerifiedBlock list \<times> BlockRef fset"
where
  "visit_ancestors d gc [] stack visited = (stack, visited)"
| "visit_ancestors d gc (r # rs) stack visited =
     (if br_round r > gc \<and> \<not> is_committed d r \<and> r |\<notin>| visited
      then visit_ancestors d gc rs
        (case get_block d r of Some b \<Rightarrow> b # stack | None \<Rightarrow> stack) (finsert r visited)
      else visit_ancestors d gc rs stack visited)"

definition dag_refs :: "DagState \<Rightarrow> BlockRef set" where
  "dag_refs d = {r. \<exists>b. get_block d r = Some b}"

lemma finite_dag_refs [simp]: "finite (dag_refs d)"
proof (rule finite_subset)
  show "dag_refs d \<subseteq> set (om_keys (ds_blocks d)) \<union> set (om_keys (ds_genesis d))"
    by (auto simp: dag_refs_def get_block_def set_om_keys om_contains_iff split: option.splits)
qed simp

lemma visit_ancestors_measure:
  assumes "visit_ancestors d gc rs stack visited = (stack', visited')"
  shows "fset visited \<subseteq> fset visited' \<and> length stack \<le> length stack' \<and>
    (length stack < length stack' \<longrightarrow> (\<exists>r \<in> dag_refs d. r |\<in>| visited' \<and> r |\<notin>| visited))"
  using assms
proof (induction d gc rs stack visited rule: visit_ancestors.induct)
  case (2 d gc r rs stack visited)
  show ?case
  proof (cases "br_round r > gc \<and> \<not> is_committed d r \<and> r |\<notin>| visited")
    case True
    note IH = "2.IH"(1) [OF True]
    show ?thesis
    proof (cases "get_block d r")
      case None
      with IH True "2.prems" show ?thesis by auto
    next
      case (Some b)
      with IH True "2.prems" have "fset (finsert r visited) \<subseteq> fset visited'" "length (b # stack) \<le> length stack'"
        by auto
      moreover from Some have "r \<in> dag_refs d" by (simp add: dag_refs_def)
      ultimately show ?thesis using True by auto
    qed
  next
    case False
    with 2 show ?thesis by auto
  qed
qed simp

function causal_loop ::
  "DagState \<Rightarrow> Round \<Rightarrow> VerifiedBlock list \<Rightarrow> BlockRef fset \<Rightarrow> VerifiedBlock list"
where
  "causal_loop d gc [] visited = []"
| "causal_loop d gc (b # stack) visited =
     b # (let (stack', visited') = visit_ancestors d gc (vb_ancestors b) stack visited
          in causal_loop d gc stack' visited')"
  by pat_completeness auto
termination
proof (relation "measures [\<lambda>(d, _, _, visited). card (dag_refs d - fset visited),
    \<lambda>(_, _, stack, _). length stack]", goal_cases)
  case (2 d gc b stack visited x stack' visited')
  then have step: "visit_ancestors d gc (vb_ancestors b) stack visited = (stack', visited')" by simp
  note m = visit_ancestors_measure [OF step]
  show ?case
  proof (cases "length stack < length stack'")
    case True
    with m obtain r where "r \<in> dag_refs d" "r |\<in>| visited'" "r |\<notin>| visited" by auto
    with m have "dag_refs d - fset visited' \<subset> dag_refs d - fset visited" by auto
    then have "card (dag_refs d - fset visited') < card (dag_refs d - fset visited)"
      by (intro psubset_card_mono) auto
    then show ?thesis by simp
  next
    case False
    moreover have "card (dag_refs d - fset visited') \<le> card (dag_refs d - fset visited)"
      using m by (intro card_mono) auto
    ultimately show ?thesis using m by auto
  qed
qed simp

definition get_causal_blocks :: "DagState \<Rightarrow> BlockRef \<Rightarrow> Round \<Rightarrow> VerifiedBlock list res" where
  "get_causal_blocks d leader_ref gc =
     rbind (guard DebugAssert (br_round leader_ref > gc)) (\<lambda>_.
     case get_block d leader_ref of
       None \<Rightarrow> Inr []
     | Some leader \<Rightarrow>
         if is_committed d leader_ref then Inr []
         else Inr (causal_loop d gc [leader] {|leader_ref|}))"

text \<open>\<^verbatim>\<open>derive_commit_digest\<close>.\<close>

definition derive_commit_digest :: "hash \<Rightarrow> CommitIndex \<Rightarrow> BlockRef \<Rightarrow> CommitDigest" where
  "derive_commit_digest H index leader =
     H (to_le_bytes32 index @ to_le_bytes32 (br_round leader) @ to_le_bytes32 (br_author leader) @
        digest_bytes (br_digest leader))"

section \<open>The invariant of the state\<close>

text \<open>Every state the node reaches: blocks are stored under their own reference, by members of
  the committee and up to the highest accepted round; genesis blocks have round 0, no ancestors
  and are committed; the clock belongs to the same committee.\<close>

definition dag_inv :: "DagState \<Rightarrow> bool" where
  "dag_inv d \<longleftrightarrow> wf_committee (dag_committee d) \<and>
     tc_inv (ds_threshold_clock d) \<and> tc_committee (ds_threshold_clock d) = dag_committee d \<and>
     (\<forall>r b. om_get (ds_blocks d) r = Some b \<longrightarrow> reference b = r \<and>
        is_valid_index (dag_committee d) (br_author r) \<and> br_round r \<le> ds_highest_accepted_round d \<and>
        br_round r \<noteq> - 1 \<and> (br_round r = 0 \<longrightarrow> om_contains (ds_genesis d) r)) \<and>
     (\<forall>r b. om_get (ds_genesis d) r = Some b \<longrightarrow> reference b = r \<and> br_round r = 0 \<and>
        vb_ancestors b = [] \<and> is_committed d r) \<and>
     ds_highest_accepted_round d \<noteq> - 1"

text \<open>What the state assumes of a block it is handed.\<close>

definition acceptable :: "DagState \<Rightarrow> VerifiedBlock \<Rightarrow> bool" where
  "acceptable d b \<longleftrightarrow> is_valid_index (dag_committee d) (vb_author b) \<and> vb_round b \<noteq> - 1 \<and>
     (vb_round b > 0 \<or> om_contains (ds_genesis d) (reference b))"

text \<open>The parts of the state that accepting blocks leaves alone.\<close>

definition same_frame :: "DagState \<Rightarrow> DagState \<Rightarrow> bool" where
  "same_frame d d' \<longleftrightarrow> ds_context d' = ds_context d \<and> ds_genesis d' = ds_genesis d \<and>
     ds_committed d' = ds_committed d \<and> ds_last_commit_index d' = ds_last_commit_index d \<and>
     ds_last_commit_digest d' = ds_last_commit_digest d \<and>
     ds_last_commit_timestamp_ms d' = ds_last_commit_timestamp_ms d"

lemma same_frame_refl [simp]: "same_frame d d"
  by (simp add: same_frame_def)

lemma same_frame_trans: "same_frame d d' \<Longrightarrow> same_frame d' d'' \<Longrightarrow> same_frame d d''"
  by (simp add: same_frame_def)

lemma same_frame_simps:
  assumes "same_frame d d'"
  shows "dag_committee d' = dag_committee d" "is_committed d' r = is_committed d r"
    "acceptable d' b = acceptable d b"
  using assms by (simp_all add: same_frame_def dag_committee_def is_committed_def acceptable_def)

lemma dag_new_inv:
  assumes "wf_committee (committee ctx)"
  shows "\<exists>d. dag_new H ctx = Inr d \<and> dag_inv d \<and> ds_context d = ctx \<and> ds_blocks d = om_empty \<and>
    (\<forall>g \<in> set (genesis_blocks H (committee ctx)). om_contains (ds_genesis d) (reference g))"
proof -
  let ?gs = "genesis_blocks H (committee ctx)"
  let ?gen = "om_collect (map (\<lambda>b. (reference b, b)) ?gs)"
  obtain tc where tc: "tc_new 1 ctx = Inr tc" "tc_inv tc" "tc_committee tc = committee ctx"
    using tc_new_inv [OF assms] by blast
  have in_gen: "b \<in> set ?gs \<and> reference b = r" if "om_get ?gen r = Some b" for r b
    using om_get_collect_in [OF that] by auto
  have contains: "om_contains ?gen (reference g)" if "g \<in> set ?gs" for g
    using that by (force simp: om_contains_collect)
  show ?thesis
    using assms tc in_gen contains
    by (auto simp: dag_new_def Let_def dag_inv_def dag_committee_def is_committed_def
        fset_of_list.rep_eq set_om_keys om_contains_iff dest: in_gen
        genesis_block_facts [of _ H "committee ctx"])
qed

lemma accept_one_ok:
  assumes "dag_inv d" and "acceptable d b"
  shows "\<exists>d'. accept_one b d = Inr d' \<and> dag_inv d' \<and> same_frame d d' \<and>
    ds_blocks d' = om_insert (reference b) b (ds_blocks d) \<and>
    ds_highest_accepted_round d' = max (ds_highest_accepted_round d) (vb_round b)"
proof -
  have tc: "tc_inv (ds_threshold_clock d)" "tc_committee (ds_threshold_clock d) = dag_committee d"
    using assms(1) by (simp_all add: dag_inv_def)
  obtain tc' adv where "tc_add_block (reference b) (ds_threshold_clock d) = Inr (tc', adv)"
    and "tc_inv tc'" and "tc_committee tc' = dag_committee d"
    using tc_add_block_step [OF tc(1), of "reference b"] assms(2) tc(2) by (auto simp: acceptable_def)
  with assms show ?thesis
    by (auto simp: accept_one_def acceptable_def dag_inv_def same_frame_def dag_committee_def
        is_committed_def guard_def max_def intro: order_trans [OF _ less_imp_le])
qed

lemma accept_blocks_ok:
  assumes "dag_inv d" and "\<forall>b \<in> set bs. acceptable d b"
  shows "\<exists>d'. dag_accept_blocks bs d = Inr d' \<and> dag_inv d' \<and> same_frame d d' \<and>
    ds_blocks d' = fold (\<lambda>b. om_insert (reference b) b) bs (ds_blocks d) \<and>
    ds_highest_accepted_round d' = fold (\<lambda>b m. max m (vb_round b)) bs (ds_highest_accepted_round d)"
  using assms
proof (induction bs arbitrary: d)
  case (Cons b bs)
  from accept_one_ok [OF Cons.prems(1)] Cons.prems(2)
  obtain d1 where d1: "accept_one b d = Inr d1" "dag_inv d1" "same_frame d d1"
    "ds_blocks d1 = om_insert (reference b) b (ds_blocks d)"
    "ds_highest_accepted_round d1 = max (ds_highest_accepted_round d) (vb_round b)" by auto
  from Cons.IH [OF d1(2)] Cons.prems(2) same_frame_simps(3) [OF d1(3)]
  show ?case using d1 same_frame_trans by (fastforce simp: dag_accept_blocks_def)
qed (simp add: dag_accept_blocks_def)

section \<open>Lookups and range queries\<close>

lemma dag_inv_blockD:
  assumes "dag_inv d" and "om_get (ds_blocks d) r = Some b"
  shows "reference b = r" "is_valid_index (dag_committee d) (br_author r)"
    "br_round r \<le> ds_highest_accepted_round d" "br_round r \<noteq> - 1"
  using assms by (auto simp: dag_inv_def)

lemma get_block_reference:
  assumes "dag_inv d" and "get_block d r = Some b"
  shows "reference b = r"
  using assms by (auto simp: dag_inv_def get_block_def split: option.splits)

lemma get_block_accepted: "om_get (ds_blocks d) r = Some b \<Longrightarrow> get_block d r = Some b"
  by (simp add: get_block_def)

lemma genesis_round_0:
  "dag_inv d \<Longrightarrow> 0 < br_round r \<Longrightarrow> om_get (ds_genesis d) r = None"
  by (cases "om_get (ds_genesis d) r") (auto simp: dag_inv_def)

lemma get_block_above_genesis:
  assumes "dag_inv d" and "0 < br_round r"
  shows "get_block d r = om_get (ds_blocks d) r"
  using genesis_round_0 [OF assms] by (simp add: get_block_def split: option.splits)

lemma contains_block_iff: "contains_block d r \<longleftrightarrow> r \<in> dag_refs d"
  by (auto simp: contains_block_def dag_refs_def get_block_def om_contains_iff split: option.splits)

lemma blocks_range_iff:
  "dag_inv d \<Longrightarrow> b \<in> set (blocks_range d P) \<longleftrightarrow>
     om_get (ds_blocks d) (reference b) = Some b \<and> P (reference b)"
  by (auto simp: blocks_range_def set_om_values dest: dag_inv_blockD(1))

lemma references_range:
  assumes "dag_inv d"
  shows "map reference (blocks_range d P) = om_keys (om_filter_keys P (ds_blocks d))"
  using dag_inv_blockD(1) [OF assms]
  by (auto simp: blocks_range_def om_values_def om_keys_def set_entries intro!: map_cong
      split: if_splits)

lemma sorted_range:
  assumes "dag_inv d"
  shows "sorted_wrt (<) (map reference (filter Q (blocks_range d P)))"
  using sorted_om_keys [of "om_filter_keys P (ds_blocks d)"]
  unfolding references_range [OF assms, symmetric] sorted_wrt_map by (rule sorted_wrt_filter)

lemma at_slot_range:
  "BlockRef (sl_round s) (sl_authority s) BlockDigest_MIN \<le> r \<and>
   r \<le> BlockRef (sl_round s) (sl_authority s) BlockDigest_MAX \<longleftrightarrow> slot_of_ref r = s"
  by (cases s) (auto simp: BlockRef_le_iff slot_of_ref_def)

lemma at_slot_iff:
  "dag_inv d \<Longrightarrow> b \<in> set (get_uncommitted_blocks_at_slot d s) \<longleftrightarrow>
     om_get (ds_blocks d) (reference b) = Some b \<and> vb_slot b = s \<and> \<not> is_committed d (reference b)"
  by (auto simp: get_uncommitted_blocks_at_slot_def blocks_range_iff at_slot_range slot_of_reference)

lemma at_round_eq:
  assumes "dag_inv d" and "rnd \<noteq> - 1"
  shows "get_uncommitted_blocks_at_round d rnd =
    Inr (filter (\<lambda>b. \<not> is_committed d (reference b)) (blocks_range d (\<lambda>r. br_round r = rnd)))"
proof -
  have "BlockRef rnd 0 BlockDigest_MIN \<le> r \<and> r < BlockRef (rnd + 1) 0 BlockDigest_MIN \<longleftrightarrow> br_round r = rnd" for r
  proof -
    have "br_round r < rnd + 1 \<longleftrightarrow> br_round r \<le> rnd"
      using checked_succ(2) [OF assms(2)] by (simp add: word_less_nat_alt word_le_nat_alt less_Suc_eq_le)
    then show ?thesis
      by (auto simp: BlockRef_le_iff BlockRef_less_iff BlockDigest_MIN_def word_neq_0_conv)
  qed
  then show ?thesis by (simp add: get_uncommitted_blocks_at_round_def checked_succ(1) [OF assms(2)])
qed

lemma at_round_iff:
  assumes "dag_inv d" and "rnd \<noteq> - 1"
  shows "\<exists>bs. get_uncommitted_blocks_at_round d rnd = Inr bs \<and> sorted_wrt (<) (map reference bs) \<and>
    (\<forall>b. b \<in> set bs \<longleftrightarrow> om_get (ds_blocks d) (reference b) = Some b \<and> vb_round b = rnd \<and>
       \<not> is_committed d (reference b))"
  using assms by (auto simp: at_round_eq blocks_range_iff sorted_range)

lemma sorted_refs_distinct: "sorted_wrt (<) (map reference bs) \<Longrightarrow> distinct bs"
  by (simp add: strict_sorted_iff distinct_map)

end
