(* ===== verification/Dag_Traversal.thy ===== *)
theory Dag_Traversal
  imports Dag_State
begin

text \<open>
  What the two traversals of \<^verbatim>\<open>dag_state.rs\<close> compute, in terms of the ancestor relation of the
  stored blocks: \<^verbatim>\<open>ancestors_at_round\<close> (the transitive ancestors of a block at one round) and
  \<^verbatim>\<open>get_causal_blocks\<close> (the uncommitted causal cone of a leader).
\<close>

section \<open>The ancestor graph\<close>

definition anc_edge :: "DagState \<Rightarrow> BlockRef \<Rightarrow> BlockRef \<Rightarrow> bool" where
  "anc_edge d r r' \<longleftrightarrow> (\<exists>b. get_block d r = Some b \<and> r' \<in> set (vb_ancestors b))"

text \<open>A stored block refers to earlier rounds only. Neither the state nor the block manager checks
  this of the blocks they are handed.\<close>

definition layered :: "DagState \<Rightarrow> bool" where
  "layered d \<longleftrightarrow> (\<forall>r r'. anc_edge d r r' \<longrightarrow> br_round r' < br_round r)"

text \<open>The ancestors of a stored block are stored, except possibly those that claim round 0.\<close>

definition closed :: "DagState \<Rightarrow> bool" where
  "closed d \<longleftrightarrow> (\<forall>r r'. anc_edge d r r' \<longrightarrow> 0 < br_round r' \<longrightarrow> r' \<in> dag_refs d)"

lemma layered_edge: "layered d \<Longrightarrow> anc_edge d r r' \<Longrightarrow> br_round r' < br_round r"
  by (simp add: layered_def)

lemma layered_path:
  assumes "layered d" and "(anc_edge d)\<^sup>*\<^sup>* r r'"
  shows "r' = r \<or> br_round r' < br_round r"
  using assms(2)
proof induction
  case (step y z)
  with layered_edge [OF assms(1), of y z] show ?case by (auto intro: order.strict_trans)
qed simp

lemma layered_block:
  "layered d \<Longrightarrow> get_block d r = Some b \<Longrightarrow> a \<in> set (vb_ancestors b) \<Longrightarrow> br_round a < br_round r"
  by (auto simp: layered_def anc_edge_def)

lemma closed_above: "closed d \<Longrightarrow> anc_edge d r r' \<Longrightarrow> s < br_round r' \<Longrightarrow> r' \<in> dag_refs d"
  unfolding closed_def using le_less_trans [OF word_zero_le, of s "br_round r'"] by blast

lemma layered_trancl:
  assumes "layered d" and "(anc_edge d)\<^sup>+\<^sup>+ r r'"
  shows "br_round r' < br_round r"
  using assms(2)
  by induction (auto dest: layered_edge [OF assms(1)] intro: order.strict_trans)

section \<open>Ancestors at a round\<close>

definition down :: "BlockRef fset \<Rightarrow> BlockRef set" where
  "down s = {x. \<exists>y. y |\<in>| s \<and> x \<le> y}"

lemma finite_BlockRefs: "finite (UNIV :: BlockRef set)"
proof (rule finite_surj [OF finite])
  show "(UNIV :: BlockRef set) \<subseteq> (\<lambda>(r, a, h). BlockRef r a h) ` UNIV"
  proof
    fix x :: BlockRef
    show "x \<in> (\<lambda>(r, a, h). BlockRef r a h) ` UNIV"
      by (rule image_eqI [of _ _ "(br_round x, br_author x, br_digest x)"]) simp_all
  qed
qed

lemma anc_step_iff:
  "x |\<in>| anc_step d s \<longleftrightarrow> x |\<in>| s \<and> x \<noteq> fMax s \<or> anc_edge d (fMax s) x"
  by (auto simp: anc_step_def Let_def anc_edge_def fset_of_list_elem split: option.splits)

lemma anc_step_less:
  assumes "layered d" and "x |\<in>| anc_step d s"
  shows "x < fMax s"
proof -
  from assms(2) consider "x |\<in>| s" "x \<noteq> fMax s" | "anc_edge d (fMax s) x"
    by (auto simp: anc_step_iff)
  then show ?thesis
  proof cases
    case 1
    then show ?thesis by (simp add: order_less_le)
  next
    case 2
    then show ?thesis using layered_edge [OF assms(1)] by (simp add: BlockRef_less_iff)
  qed
qed

lemma anc_loop_terminates:
  assumes "layered d"
  shows "\<exists>t. while_option (anc_continue e) (anc_step d) s = Some t"
proof (rule measure_while_option_Some [where P = "\<lambda>_. True" and f = "\<lambda>s. card (down s)"])
  fix s assume "anc_continue e s"
  then have top: "fMax s |\<in>| s" by (simp add: anc_continue_def)
  then have "fMax s \<in> down s" by (auto simp: down_def)
  moreover have "fMax s \<notin> down (anc_step d s)"
    using anc_step_less [OF assms] by (auto simp: down_def not_le)
  moreover have "down (anc_step d s) \<subseteq> down s"
    using anc_step_less [OF assms, of _ s] top
    by (auto simp: down_def intro!: exI [of _ "fMax s"] intro: order.trans less_imp_le)
  ultimately have "down (anc_step d s) \<subset> down s" by auto
  then show "True \<and> card (down (anc_step d s)) < card (down s)"
    by (simp add: psubset_card_mono finite_subset [OF subset_UNIV finite_BlockRefs])
qed simp

text \<open>The loop keeps the references reached from its start, and of these every one at or below
  the round asked for stays reachable from the set.\<close>

lemma anc_loop_inv:
  assumes "while_option (anc_continue e) (anc_step d) s = Some t"
  shows "(\<forall>x. x |\<in>| t \<longrightarrow> (\<exists>a. a |\<in>| s \<and> (anc_edge d)\<^sup>*\<^sup>* a x)) \<and>
    (\<forall>a y. a |\<in>| s \<longrightarrow> (anc_edge d)\<^sup>*\<^sup>* a y \<longrightarrow> br_round y \<le> e \<longrightarrow>
       (\<exists>x. x |\<in>| t \<and> (anc_edge d)\<^sup>*\<^sup>* x y))"
    (is "?P t")
proof (rule while_option_rule [OF _ assms, where P = ?P])
  fix u assume inv: "?P u" and cont: "anc_continue e u"
  from cont have top: "fMax u |\<in>| u" and high: "\<not> br_round (fMax u) \<le> e"
    by (simp_all add: anc_continue_def)
  have sound: "\<exists>a. a |\<in>| s \<and> (anc_edge d)\<^sup>*\<^sup>* a x" if "x |\<in>| anc_step d u" for x
    using that inv top by (metis anc_step_iff rtranclp.rtrancl_into_rtrancl)
  have "\<exists>x. x |\<in>| anc_step d u \<and> (anc_edge d)\<^sup>*\<^sup>* x y"
    if "a |\<in>| s" "(anc_edge d)\<^sup>*\<^sup>* a y" "br_round y \<le> e" for a y
  proof -
    from inv that obtain x where x: "x |\<in>| u" "(anc_edge d)\<^sup>*\<^sup>* x y" by blast
    show ?thesis
    proof (cases "x = fMax u")
      case True
      with x(2) that(3) high obtain z where "anc_edge d x z" "(anc_edge d)\<^sup>*\<^sup>* z y"
        by (metis converse_rtranclpE)
      with True show ?thesis by (auto simp: anc_step_iff)
    next
      case False
      with x show ?thesis by (auto simp: anc_step_iff)
    qed
  qed
  with sound show "?P (anc_step d u)" by blast
qed blast

lemma set_map_filter: "set (List.map_filter f xs) = {y. \<exists>x \<in> set xs. f x = Some y}"
  by (induction xs) (auto split: option.splits)

lemma round_start_le: "BlockRef e 0 BlockDigest_MIN \<le> r \<longleftrightarrow> e \<le> br_round r"
  by (auto simp: BlockRef_le_iff BlockDigest_MIN_def order_less_le)

lemma ancestors_at_round_set:
  assumes "layered d"
  shows "\<exists>bs. ancestors_at_round d b e = Inr bs \<and>
    set bs = {x. \<exists>r. get_block d r = Some x \<and> br_round r = e \<and>
      (\<exists>a \<in> set (vb_ancestors b). (anc_edge d)\<^sup>*\<^sup>* a r)}"
proof -
  let ?s = "fset_of_list (vb_ancestors b)"
  obtain t where t: "while_option (anc_continue e) (anc_step d) ?s = Some t"
    using anc_loop_terminates [OF assms] by blast
  note inv = anc_loop_inv [OF t]
  have low: "br_round x \<le> e" if "x |\<in>| t" for x
  proof -
    have "t \<noteq> {||}" using that by auto
    with while_option_stop [OF t] have "br_round (fMax t) \<le> e" by (simp add: anc_continue_def)
    moreover have "x \<le> fMax t" using that by simp
    ultimately show ?thesis by (auto simp: BlockRef_le_iff)
  qed
  have "r |\<in>| t" if "br_round r = e" "a \<in> set (vb_ancestors b)" "(anc_edge d)\<^sup>*\<^sup>* a r" for a r
  proof -
    from inv that obtain x where x: "x |\<in>| t" "(anc_edge d)\<^sup>*\<^sup>* x r"
      by (metis fset_of_list_elem order_refl)
    with layered_path [OF assms x(2)] low [OF x(1)] that(1) show ?thesis by (auto simp: not_less)
  qed
  moreover have "\<exists>a \<in> set (vb_ancestors b). (anc_edge d)\<^sup>*\<^sup>* a r" if "r |\<in>| t" for r
    using inv that by (metis fset_of_list_elem)
  ultimately show ?thesis
    by (auto simp: ancestors_at_round_def t set_map_filter round_start_le dest: low) (metis low order_antisym)+
qed

section \<open>The causal cone\<close>

text \<open>The edges the traversal follows: to ancestors above the round, not committed, and present.\<close>

definition open_edge :: "DagState \<Rightarrow> Round \<Rightarrow> BlockRef \<Rightarrow> BlockRef \<Rightarrow> bool" where
  "open_edge d gc r r' \<longleftrightarrow> anc_edge d r r' \<and> gc < br_round r' \<and> \<not> is_committed d r' \<and> r' \<in> dag_refs d"

definition stacked :: "DagState \<Rightarrow> VerifiedBlock list \<Rightarrow> BlockRef fset \<Rightarrow> bool" where
  "stacked d stack visited \<longleftrightarrow> distinct (map reference stack) \<and>
     (\<forall>b \<in> set stack. get_block d (reference b) = Some b \<and> reference b |\<in>| visited)"

lemma visit_ancestors_spec:
  assumes "visit_ancestors d gc rs stack visited = (stack', visited')"
    and "stacked d stack visited" and "\<And>r b. get_block d r = Some b \<Longrightarrow> reference b = r"
  shows "stacked d stack' visited' \<and>
    fset visited' = fset visited \<union> {r \<in> set rs. gc < br_round r \<and> \<not> is_committed d r} \<and>
    reference ` set stack' = reference ` set stack \<union> (fset visited' - fset visited) \<inter> dag_refs d"
  using assms
proof (induction d gc rs stack visited rule: visit_ancestors.induct)
  case (2 d gc r rs stack visited)
  show ?case
  proof (cases "gc < br_round r \<and> \<not> is_committed d r \<and> r |\<notin>| visited")
    case True
    let ?stack = "case get_block d r of Some b \<Rightarrow> b # stack | None \<Rightarrow> stack"
    have ok: "stacked d ?stack (finsert r visited)"
      using "2.prems"(2,3) True by (auto simp: stacked_def split: option.splits)
    have refs: "reference ` set ?stack = reference ` set stack \<union> {r} \<inter> dag_refs d"
      using "2.prems"(3) by (auto simp: dag_refs_def split: option.splits)
    from "2.prems"(1) True have "visit_ancestors d gc rs ?stack (finsert r visited) = (stack', visited')"
      by simp
    from "2.IH"(1) [OF True this ok "2.prems"(3)] True refs show ?thesis by auto
  next
    case False
    with "2.prems"(1) have "visit_ancestors d gc rs stack visited = (stack', visited')" by auto
    from "2.IH"(2) [OF False this "2.prems"(2,3)] False show ?thesis by auto
  qed
qed auto

text \<open>The traversal from a stack and a visited set: what it returns, given the references
  \<open>done\<close> whose blocks were popped before.\<close>

lemma causal_loop_spec:
  assumes "stacked d stack visited" and "\<And>r b. get_block d r = Some b \<Longrightarrow> reference b = r"
    and "fset visited \<inter> dag_refs d = finished \<union> reference ` set stack"
    and "finished \<inter> reference ` set stack = {}"
    and "\<And>r r'. r \<in> finished \<Longrightarrow> open_edge d gc r r' \<Longrightarrow> r' |\<in>| visited"
  shows "distinct (map reference (causal_loop d gc stack visited)) \<and>
    reference ` set (causal_loop d gc stack visited) \<inter> finished = {} \<and>
    (\<forall>b \<in> set (causal_loop d gc stack visited). get_block d (reference b) = Some b \<and>
       (\<exists>s \<in> set stack. (open_edge d gc)\<^sup>*\<^sup>* (reference s) (reference b))) \<and>
    reference ` set stack \<subseteq> reference ` set (causal_loop d gc stack visited) \<and>
    (\<forall>r r'. r \<in> finished \<union> reference ` set (causal_loop d gc stack visited) \<longrightarrow> open_edge d gc r r' \<longrightarrow>
       r' \<in> finished \<union> reference ` set (causal_loop d gc stack visited))"
  using assms
proof (induction d gc stack visited arbitrary: finished rule: causal_loop.induct)
  case (1 d gc visited)
  then show ?case by (auto simp: open_edge_def)
next
  case (2 d gc b stack visited)
  obtain stack' visited' where step: "visit_ancestors d gc (vb_ancestors b) stack visited = (stack', visited')"
    by fastforce
  have st: "stacked d stack visited" using "2.prems"(1) by (auto simp: stacked_def)
  note v = visit_ancestors_spec [OF step st "2.prems"(2)]
  let ?L = "causal_loop d gc stack' visited'" and ?done = "insert (reference b) finished"
  have gb: "get_block d (reference b) = Some b" and bv: "reference b |\<in>| visited"
    and nb: "reference b \<notin> reference ` set stack"
    using "2.prems"(1) by (auto simp: stacked_def)
  have new: "open_edge d gc (reference b) r' \<Longrightarrow> r' |\<in>| visited'" for r'
    using v gb by (auto simp: open_edge_def anc_edge_def)
  have edge_new: "open_edge d gc (reference b) r'" if "r' \<in> fset visited' - fset visited" "r' \<in> dag_refs d" for r'
    using that v gb by (auto simp: open_edge_def anc_edge_def)
  have refs': "fset visited' \<inter> dag_refs d = ?done \<union> reference ` set stack'"
    using v "2.prems"(3) by (auto simp: image_def)
  have disj: "?done \<inter> reference ` set stack' = {}"
    using v "2.prems"(3,4) nb bv by auto
  have fin: "r \<in> ?done \<Longrightarrow> open_edge d gc r r' \<Longrightarrow> r' |\<in>| visited'" for r r'
    using v new "2.prems"(5) by auto
  have IH: "distinct (map reference ?L) \<and> reference ` set ?L \<inter> ?done = {} \<and>
    (\<forall>x \<in> set ?L. get_block d (reference x) = Some x \<and>
       (\<exists>s \<in> set stack'. (open_edge d gc)\<^sup>*\<^sup>* (reference s) (reference x))) \<and>
    reference ` set stack' \<subseteq> reference ` set ?L \<and>
    (\<forall>r r'. r \<in> ?done \<union> reference ` set ?L \<longrightarrow> open_edge d gc r r' \<longrightarrow> r' \<in> ?done \<union> reference ` set ?L)"
    using v by (intro "2.IH" [OF step [symmetric] refl _ "2.prems"(2) refs' disj fin]) simp_all
  have path: "\<exists>s \<in> set (b # stack). (open_edge d gc)\<^sup>*\<^sup>* (reference s) (reference x)" if "x \<in> set ?L" for x
  proof -
    from IH that obtain s where s: "s \<in> set stack'" "(open_edge d gc)\<^sup>*\<^sup>* (reference s) (reference x)" by blast
    from s(1) v have "reference s \<in> reference ` set stack \<union> (fset visited' - fset visited) \<inter> dag_refs d" by blast
    then show ?thesis
    proof
      assume "reference s \<in> reference ` set stack"
      with s(2) show ?thesis by auto
    next
      assume "reference s \<in> (fset visited' - fset visited) \<inter> dag_refs d"
      with edge_new have "open_edge d gc (reference b) (reference s)" by blast
      with s(2) show ?thesis by (meson converse_rtranclp_into_rtranclp list.set_intros(1))
    qed
  qed
  have eq: "causal_loop d gc (b # stack) visited = b # ?L" by (simp add: step)
  have "reference ` set stack \<subseteq> reference ` set ?L" using IH v by blast
  with IH gb path nb "2.prems"(4) show ?case unfolding eq by auto
qed

text \<open>The causal cone of a leader.\<close>

definition causal_cone :: "DagState \<Rightarrow> Round \<Rightarrow> BlockRef \<Rightarrow> BlockRef set" where
  "causal_cone d gc leader = {r. (open_edge d gc)\<^sup>*\<^sup>* leader r}"

lemma causal_loop_cone:
  assumes "\<And>r b. get_block d r = Some b \<Longrightarrow> reference b = r" and "get_block d leader = Some b"
  shows "distinct (map reference (causal_loop d gc [b] {|leader|})) \<and>
    reference ` set (causal_loop d gc [b] {|leader|}) = causal_cone d gc leader \<and>
    (\<forall>x \<in> set (causal_loop d gc [b] {|leader|}). get_block d (reference x) = Some x)"
proof -
  let ?L = "causal_loop d gc [b] {|leader|}"
  have rb: "reference b = leader" using assms by blast
  have "stacked d [b] {|leader|}" using assms(2) rb by (simp add: stacked_def)
  note spec = causal_loop_spec [OF this assms(1), of "{}" gc]
  have spec: "distinct (map reference ?L)"
    "\<forall>x \<in> set ?L. get_block d (reference x) = Some x \<and> (open_edge d gc)\<^sup>*\<^sup>* leader (reference x)"
    "leader \<in> reference ` set ?L"
    "\<And>r r'. r \<in> reference ` set ?L \<Longrightarrow> open_edge d gc r r' \<Longrightarrow> r' \<in> reference ` set ?L"
    using spec assms(2) by (simp_all add: rb dag_refs_def del: causal_loop.simps)
  have "r \<in> reference ` set ?L" if "(open_edge d gc)\<^sup>*\<^sup>* leader r" for r
    using that by induction (use spec(3,4) in blast)+
  with spec show ?thesis by (auto simp: causal_cone_def simp del: causal_loop.simps)
qed

section \<open>How accepting blocks changes the graph\<close>

lemma fold_insert_blocks:
  "fold (\<lambda>b. om_insert (reference b) b) bs m = fold (\<lambda>(k, v). om_insert k v) (map (\<lambda>b. (reference b, b)) bs) m"
  by (induction bs arbitrary: m) simp_all

lemma accept_get_block:
  assumes "ds_blocks d' = fold (\<lambda>b. om_insert (reference b) b) bs (ds_blocks d)" and "same_frame d d'"
    and "get_block d' r = Some b"
  shows "b \<in> set bs \<and> reference b = r \<or> get_block d r = Some b"
  using assms om.get_fold_ins_in [of "map (\<lambda>b. (reference b, b)) bs" "ds_blocks d" r]
    om.get_fold_ins_dom [of "map (\<lambda>b. (reference b, b)) bs" "ds_blocks d" r]
  by (auto simp: get_block_def fold_insert_blocks same_frame_def split: option.splits)

lemma accept_dag_refs:
  assumes "ds_blocks d' = fold (\<lambda>b. om_insert (reference b) b) bs (ds_blocks d)" and "same_frame d d'"
  shows "dag_refs d' = dag_refs d \<union> reference ` set bs"
proof -
  have "r \<in> dag_refs d' \<longleftrightarrow> r \<in> dag_refs d \<or> r \<in> reference ` set bs" for r
    using assms om.get_fold_ins_dom [of "map (\<lambda>b. (reference b, b)) bs" "ds_blocks d" r]
    by (auto simp: contains_block_iff [symmetric] contains_block_def om_contains_iff fold_insert_blocks
        same_frame_def image_image)
  then show ?thesis by blast
qed

lemma fold_max_round:
  "fold (\<lambda>b m. max m (vb_round b)) bs m = Max (insert m (vb_round ` set bs))"
proof (induction bs arbitrary: m)
  case (Cons b bs)
  show ?case by (cases "bs = []") (simp_all add: Cons.IH max.assoc)
qed simp

text \<open>The blocks a node accepts in one call, with their effect on the graph.\<close>

lemma accept_blocks_extends:
  assumes "dag_inv d" and "\<forall>b \<in> set bs. acceptable d b"
  shows "\<exists>d'. dag_accept_blocks bs d = Inr d' \<and> dag_inv d' \<and> same_frame d d' \<and>
    dag_refs d' = dag_refs d \<union> reference ` set bs \<and>
    (\<forall>r b. get_block d' r = Some b \<longrightarrow> b \<in> set bs \<and> reference b = r \<or> get_block d r = Some b) \<and>
    ds_highest_accepted_round d' = Max (insert (ds_highest_accepted_round d) (vb_round ` set bs))"
proof -
  obtain d' where d': "dag_accept_blocks bs d = Inr d'" "dag_inv d'" "same_frame d d'"
    "ds_blocks d' = fold (\<lambda>b. om_insert (reference b) b) bs (ds_blocks d)"
    "ds_highest_accepted_round d' = fold (\<lambda>b m. max m (vb_round b)) bs (ds_highest_accepted_round d)"
    using accept_blocks_ok [OF assms] by blast
  have "ds_highest_accepted_round d' = Max (insert (ds_highest_accepted_round d) (vb_round ` set bs))"
    using d'(5) by (simp only: fold_max_round)
  then show ?thesis
    using d'(1-3) accept_dag_refs [OF d'(4,3)] accept_get_block [OF d'(4,3)] by blast
qed

lemma accept_layered:
  assumes "layered d" and "\<forall>b \<in> set bs. \<forall>a \<in> set (vb_ancestors b). br_round a < vb_round b"
    and "\<And>r b. get_block d' r = Some b \<Longrightarrow> b \<in> set bs \<and> reference b = r \<or> get_block d r = Some b"
  shows "layered d'"
  unfolding layered_def anc_edge_def
proof (intro allI impI, elim exE conjE)
  fix r a b assume "get_block d' r = Some b" and a: "a \<in> set (vb_ancestors b)"
  with assms(3) have "b \<in> set bs \<and> reference b = r \<or> get_block d r = Some b" by blast
  with assms(2) a layered_block [OF assms(1)] show "br_round a < br_round r"
    by (metis reference_sel(1))
qed

lemma accept_closed:
  assumes "closed d" and "dag_refs d' = dag_refs d \<union> reference ` set bs"
    and "\<forall>b \<in> set bs. \<forall>a \<in> set (vb_ancestors b). 0 < br_round a \<longrightarrow> a \<in> dag_refs d \<or> a \<in> reference ` set bs"
    and "\<And>r b. get_block d' r = Some b \<Longrightarrow> b \<in> set bs \<and> reference b = r \<or> get_block d r = Some b"
  shows "closed d'"
  unfolding closed_def anc_edge_def
proof (intro allI impI, elim exE conjE)
  fix r a b assume "get_block d' r = Some b" and a: "a \<in> set (vb_ancestors b)" and pos: "0 < br_round a"
  with assms(4) have "b \<in> set bs \<or> get_block d r = Some b" by blast
  then show "a \<in> dag_refs d'"
    using assms(1,3) a pos unfolding assms(2) closed_def anc_edge_def by blast
qed

lemma dag_new_graph:
  assumes "dag_new H ctx = Inr d" and "wf_committee (committee ctx)"
  shows "layered d" "closed d"
proof -
  have "dag_inv d" "ds_blocks d = om_empty" using dag_new_inv [OF assms(2), of H] assms(1) by auto
  then have "\<not> anc_edge d r r'" for r r'
    by (auto simp: anc_edge_def get_block_def dag_inv_def)
  then show "layered d" "closed d" by (auto simp: layered_def closed_def)
qed

lemma dag_new_committed:
  "dag_new H ctx = Inr d \<Longrightarrow> is_committed d r \<longleftrightarrow> om_contains (ds_genesis d) r"
  by (auto simp: dag_new_def Let_def res_simps is_committed_def fset_of_list_elem set_om_keys)

section \<open>A DAG of full rounds\<close>

text \<open>The DAG the code's tests build: four authorities, every block referring to all blocks of
  the round before. The digest is constant, since round and author tell the blocks apart.\<close>

definition H0 :: hash where "H0 = (\<lambda>_. 0)"

definition round_refs :: "Round \<Rightarrow> BlockRef list" where
  "round_refs r = map (\<lambda>a. BlockRef r a 0) [0, 1, 2, 3]"

definition block4 :: "Round \<Rightarrow> AuthorityIndex \<Rightarrow> BlockRef list \<Rightarrow> VerifiedBlock" where
  "block4 r a ancs = new_verified H0 \<lparr>bk_epoch = 0, bk_round = r, bk_author = a, bk_timestamp_ms = ucast r,
     bk_ancestors = ancs, bk_transactions = [[ucast r, ucast a]]\<rparr>"

definition full_round :: "Round \<Rightarrow> VerifiedBlock list" where
  "full_round r = map (\<lambda>a. block4 r a (round_refs (r - 1))) [0, 1, 2, 3]"

definition dag4_blocks :: "nat \<Rightarrow> VerifiedBlock list" where
  "dag4_blocks n = concat (map (\<lambda>i. full_round (word_of_nat i)) [1..<Suc n])"

definition genesis4 :: DagState where
  "genesis4 = projr (dag_new H0 ctx4)"

definition dag4 :: "nat \<Rightarrow> DagState" where
  "dag4 n = projr (dag_accept_blocks (dag4_blocks n) genesis4)"

lemma block4_sel [simp]:
  "vb_round (block4 r a ancs) = r" "vb_author (block4 r a ancs) = a"
  "vb_ancestors (block4 r a ancs) = ancs" "reference (block4 r a ancs) = BlockRef r a 0"
  by (simp_all add: block4_def new_verified_def vb_round_def vb_author_def vb_ancestors_def reference_def
      compute_digest_def H0_def)

lemma genesis4: "dag_new H0 ctx4 = Inr genesis4" "dag_inv genesis4" "dag_committee genesis4 = committee4"
  "ds_blocks genesis4 = om_empty" "layered genesis4" "closed genesis4"
proof -
  obtain d where d: "dag_new H0 ctx4 = Inr d" "dag_inv d" "ds_context d = ctx4" "ds_blocks d = om_empty"
    using dag_new_inv [of ctx4 H0] by auto
  then have "genesis4 = d" by (simp add: genesis4_def)
  with d dag_new_graph [OF d(1)] show "dag_new H0 ctx4 = Inr genesis4" "dag_inv genesis4"
    "dag_committee genesis4 = committee4" "ds_blocks genesis4 = om_empty" "layered genesis4" "closed genesis4"
    by (simp_all add: dag_committee_def)
qed

lemma dag4_blocks_iff:
  assumes "n < 2 ^ 32 - 1"
  shows "b \<in> set (dag4_blocks n) \<longleftrightarrow>
    (\<exists>r a. 0 < r \<and> unat r \<le> n \<and> unat a < 4 \<and> b = block4 r a (round_refs (r - 1)))"
proof -
  have four: "a \<in> {0, 1, 2, 3} \<longleftrightarrow> unat a < 4" for a :: AuthorityIndex
    unfolding insert_iff empty_iff word_unat_eq_iff by simp linarith
  have w: "unat (word_of_nat i :: Round) = i" if "i \<le> n" for i using that assms by (simp add: unat_of_nat)
  show ?thesis
  proof
    assume "b \<in> set (dag4_blocks n)"
    then obtain i a where "1 \<le> i" "i \<le> n" "b = block4 (word_of_nat i) a (round_refs (word_of_nat i - 1))" "unat a < 4"
      using four by (auto simp: dag4_blocks_def full_round_def)
    with w [of i] show "\<exists>r a. 0 < r \<and> unat r \<le> n \<and> unat a < 4 \<and> b = block4 r a (round_refs (r - 1))"
      by (intro exI [of _ "word_of_nat i"] exI [of _ a]) (simp add: word_less_nat_alt)
  next
    assume "\<exists>r a. 0 < r \<and> unat r \<le> n \<and> unat a < 4 \<and> b = block4 r a (round_refs (r - 1))"
    then obtain r a where "0 < r" "unat r \<le> n" "a \<in> {0, 1, 2, 3}" "b = block4 r a (round_refs (r - 1))"
      using four by blast
    then show "b \<in> set (dag4_blocks n)"
      by (auto simp: dag4_blocks_def full_round_def word_less_nat_alt simp del: upt_Suc
          intro!: bexI [of _ "unat r"])
  qed
qed

lemma dag4_accept:
  assumes "n < 2 ^ 32 - 1"
  shows "dag_accept_blocks (dag4_blocks n) genesis4 = Inr (dag4 n) \<and> dag_inv (dag4 n) \<and>
    same_frame genesis4 (dag4 n) \<and> dag_refs (dag4 n) = dag_refs genesis4 \<union> reference ` set (dag4_blocks n) \<and>
    (\<forall>r b. get_block (dag4 n) r = Some b \<longrightarrow>
       b \<in> set (dag4_blocks n) \<and> reference b = r \<or> get_block genesis4 r = Some b)"
proof -
  have "br_round (BlockRef r a 0) \<noteq> - 1" if "unat r \<le> n" for r a
    using that assms by (auto simp: unsigned_minus_1_eq_mask mask_eq_exp_minus_1)
  then have "\<forall>b \<in> set (dag4_blocks n). acceptable genesis4 b"
    by (auto simp: dag4_blocks_iff [OF assms] acceptable_def genesis4(3))
  from accept_blocks_extends [OF genesis4(2) this] obtain d'
    where "dag_accept_blocks (dag4_blocks n) genesis4 = Inr d'" "dag_inv d'" "same_frame genesis4 d'"
      "dag_refs d' = dag_refs genesis4 \<union> reference ` set (dag4_blocks n)"
      "\<forall>r b. get_block d' r = Some b \<longrightarrow>
         b \<in> set (dag4_blocks n) \<and> reference b = r \<or> get_block genesis4 r = Some b"
    by blast
  moreover from this have "dag4 n = d'" by (simp add: dag4_def)
  ultimately show ?thesis by simp
qed

lemma round_refs_iff: "r \<in> set (round_refs q) \<longleftrightarrow> (\<exists>a. unat a < 4 \<and> r = BlockRef q a 0)"
proof -
  have "a \<in> {0, 1, 2, 3} \<longleftrightarrow> unat a < 4" for a :: AuthorityIndex
    unfolding insert_iff empty_iff word_unat_eq_iff by simp linarith
  then show ?thesis by (fastforce simp: round_refs_def)
qed

lemma pred_round:
  assumes "0 < (r :: Round)"
  shows "r - 1 < r" and "unat (r - 1) = unat r - 1"
proof -
  have "1 \<le> r" using assms by (simp add: word_less_nat_alt word_le_nat_alt)
  then show "unat (r - 1) = unat r - 1" by (simp add: unat_sub)
  with assms show "r - 1 < r" by (simp add: word_less_nat_alt)
qed

lemma dag4_graph:
  assumes "n < 2 ^ 32 - 1"
  shows "dag_inv (dag4 n)" "layered (dag4 n)" "closed (dag4 n)" "dag_committee (dag4 n) = committee4"
proof -
  note acc = dag4_accept [OF assms]
  show "dag_inv (dag4 n)" using acc by simp
  show "dag_committee (dag4 n) = committee4"
    using acc same_frame_simps(1) [of genesis4 "dag4 n"] genesis4(3) by simp
  have "\<forall>b \<in> set (dag4_blocks n). \<forall>a \<in> set (vb_ancestors b). br_round a < vb_round b"
    using pred_round(1) by (auto simp: dag4_blocks_iff [OF assms] round_refs_iff)
  then show "layered (dag4 n)"
    by (rule accept_layered [OF genesis4(5)]) (use acc in blast)
  have "\<forall>b \<in> set (dag4_blocks n). \<forall>a \<in> set (vb_ancestors b). 0 < br_round a \<longrightarrow>
      a \<in> dag_refs genesis4 \<or> a \<in> reference ` set (dag4_blocks n)"
  proof (intro ballI impI)
    fix b a assume "b \<in> set (dag4_blocks n)" "a \<in> set (vb_ancestors b)" "0 < br_round a"
    then obtain r i where "0 < r - 1" "0 < r" "unat r \<le> n" "unat i < 4" "a = BlockRef (r - 1) i 0"
      by (auto simp: dag4_blocks_iff [OF assms] round_refs_iff)
    moreover from this have "block4 (r - 1) i (round_refs (r - 1 - 1)) \<in> set (dag4_blocks n)"
      using pred_round(2) [of r] unfolding dag4_blocks_iff [OF assms]
      by (intro exI [of _ "r - 1"] exI [of _ i]) simp
    ultimately show "a \<in> dag_refs genesis4 \<or> a \<in> reference ` set (dag4_blocks n)"
      by (metis block4_sel(4) image_eqI)
  qed
  then show "closed (dag4 n)"
    by (rule accept_closed [OF genesis4(6), rotated 1]) (use acc in blast)+
qed

lemma dag4_get_block:
  assumes "n < 2 ^ 32 - 1" and "0 < r" and "unat r \<le> n" and "unat a < 4"
  shows "get_block (dag4 n) (BlockRef r a 0) = Some (block4 r a (round_refs (r - 1)))"
proof -
  note acc = dag4_accept [OF assms(1)]
  have "block4 r a (round_refs (r - 1)) \<in> set (dag4_blocks n)"
    using assms dag4_blocks_iff by blast
  then have "BlockRef r a 0 \<in> dag_refs (dag4 n)"
    using acc by (metis UnCI block4_sel(4) image_eqI)
  then obtain b where b: "get_block (dag4 n) (BlockRef r a 0) = Some b" by (auto simp: dag_refs_def)
  have "get_block genesis4 (BlockRef r a 0) = None"
    using get_block_above_genesis [OF genesis4(2)] assms(2) genesis4(4) by simp
  with b acc have "b \<in> set (dag4_blocks n)" and ref: "reference b = BlockRef r a 0"
    by (metis option.distinct(1))+
  then obtain r' a' where "b = block4 r' a' (round_refs (r' - 1))"
    by (auto simp: dag4_blocks_iff [OF assms(1)])
  with ref b show ?thesis by simp
qed

lemma dag4_uncommitted:
  assumes "n < 2 ^ 32 - 1" and "0 < br_round r"
  shows "\<not> is_committed (dag4 n) r"
proof -
  have "is_committed genesis4 r \<longleftrightarrow> om_contains (ds_genesis genesis4) r"
    by (rule dag_new_committed [OF genesis4(1)])
  moreover have "\<not> om_contains (ds_genesis genesis4) r"
    using genesis_round_0 [OF genesis4(2) assms(2)] by (simp add: om_contains_iff)
  ultimately show ?thesis using dag4_accept [OF assms(1)] same_frame_simps(2) by blast
qed

section \<open>What the state promises\<close>

text \<open>\<^bold>\<open>C37\<close>. Accepting blocks. From a state that satisfies the invariant, a batch of blocks by
  committee members, above round 0 (or genesis) and below the last round number, is accepted
  without a panic; the invariant is kept; exactly the references of the batch are added; a lookup
  returns a block of the batch stored under its own reference or what it returned before; and the
  highest accepted round is the maximum.\<close>

theorem dag_accept_blocks_extends:
  assumes "dag_inv d" and "\<forall>b \<in> set bs. acceptable d b"
  shows "\<exists>d'. dag_accept_blocks bs d = Inr d' \<and> dag_inv d' \<and> same_frame d d' \<and>
    dag_refs d' = dag_refs d \<union> reference ` set bs \<and>
    (\<forall>r b. get_block d' r = Some b \<longrightarrow> b \<in> set bs \<and> reference b = r \<or> get_block d r = Some b) \<and>
    ds_highest_accepted_round d' = Max (insert (ds_highest_accepted_round d) (vb_round ` set bs))"
  using assms by (rule accept_blocks_extends)

theorem dag_accept_blocks_extends_witness:
  "\<exists>d'. dag_accept_blocks (full_round 1) genesis4 = Inr d' \<and> dag_inv d' \<and>
     dag_refs d' = dag_refs genesis4 \<union> reference ` set (full_round 1)"
proof -
  have "\<forall>b \<in> set (full_round 1). acceptable genesis4 b"
    by (simp add: full_round_def acceptable_def genesis4(3))
  from dag_accept_blocks_extends [OF genesis4(2) this] show ?thesis by blast
qed

text \<open>\<^bold>\<open>C38\<close>. The two range queries. The scan of a slot returns exactly the accepted uncommitted
  blocks of that slot, and the scan of a round exactly those of that round, both in ascending
  order of their references and without repetition.\<close>

theorem uncommitted_queries_exact:
  assumes "dag_inv d" and "rnd \<noteq> - 1"
  shows "(\<forall>b. b \<in> set (get_uncommitted_blocks_at_slot d slot) \<longleftrightarrow>
      om_get (ds_blocks d) (reference b) = Some b \<and> vb_slot b = slot \<and> \<not> is_committed d (reference b)) \<and>
    sorted_wrt (<) (map reference (get_uncommitted_blocks_at_slot d slot)) \<and>
    (\<exists>bs. get_uncommitted_blocks_at_round d rnd = Inr bs \<and> sorted_wrt (<) (map reference bs) \<and>
      (\<forall>b. b \<in> set bs \<longleftrightarrow> om_get (ds_blocks d) (reference b) = Some b \<and> vb_round b = rnd \<and>
         \<not> is_committed d (reference b)))"
  using at_slot_iff [OF assms(1)] at_round_iff [OF assms] sorted_range [OF assms(1)]
  by (simp add: get_uncommitted_blocks_at_slot_def)

theorem uncommitted_queries_exact_witness:
  "block4 2 1 (round_refs 1) \<in> set (get_uncommitted_blocks_at_slot (dag4 3) (Slot 2 1)) \<and>
   (\<exists>bs. get_uncommitted_blocks_at_round (dag4 3) 2 = Inr bs \<and> block4 2 1 (round_refs 1) \<in> set bs)"
proof -
  let ?b = "block4 2 1 (round_refs 1)"
  have "om_get (ds_blocks (dag4 3)) (reference ?b) = Some ?b"
    using dag4_get_block [of 3 2 1] get_block_above_genesis [OF dag4_graph(1) [of 3], of "BlockRef 2 1 0"]
    by simp
  moreover have "\<not> is_committed (dag4 3) (reference ?b)" by (rule dag4_uncommitted) simp_all
  moreover have "vb_slot ?b = Slot 2 1" by (simp add: slot_of_reference [symmetric] slot_of_ref_def)
  ultimately show ?thesis
    using uncommitted_queries_exact [OF dag4_graph(1) [of 3], of 2 "Slot 2 1"] by auto
qed

text \<open>\<^bold>\<open>C28\<close>. The search for ancestors at a round, in a DAG whose blocks refer to earlier rounds only,
  terminates and returns exactly the stored blocks of that round that are reached from the block's
  ancestor list along ancestor links.\<close>

theorem ancestors_at_round_exact:
  assumes "layered d"
  shows "\<exists>bs. ancestors_at_round d b e = Inr bs \<and>
    set bs = {x. \<exists>r. get_block d r = Some x \<and> br_round r = e \<and>
      (\<exists>a \<in> set (vb_ancestors b). (anc_edge d)\<^sup>*\<^sup>* a r)}"
  using assms by (rule ancestors_at_round_set)

theorem ancestors_at_round_exact_witness:
  "\<exists>bs. ancestors_at_round (dag4 3) (block4 3 0 (round_refs 2)) 1 = Inr bs \<and>
     block4 1 2 (round_refs 0) \<in> set bs"
proof -
  have "anc_edge (dag4 3) (BlockRef 2 0 0) (BlockRef 1 2 0)"
    using dag4_get_block [of 3 2 0] by (simp add: anc_edge_def round_refs_def)
  moreover have "BlockRef 2 0 0 \<in> set (round_refs 2)" by (simp add: round_refs_def)
  moreover have "get_block (dag4 3) (BlockRef 1 2 0) = Some (block4 1 2 (round_refs 0))"
    using dag4_get_block [of 3 1 2] by simp
  ultimately show ?thesis
    using ancestors_at_round_exact [OF dag4_graph(2) [of 3], of "block4 3 0 (round_refs 2)" 1]
    by (auto intro!: exI [of _ "BlockRef 1 2 0"] bexI [of _ "BlockRef 2 0 0"])
qed

text \<open>\<^bold>\<open>C14\<close>. The read-only causal traversal returns, without repetition, exactly the blocks
  reached from the leader through ancestors that are stored, uncommitted and above the given
  round, in any state whose blocks are stored under their own references: it needs no
  assumption on the rounds and terminates on cyclic links too.\<close>

theorem get_causal_blocks_exact:
  assumes "dag_inv d" and "gc < br_round leader"
  shows "\<exists>bs. get_causal_blocks d leader gc = Inr bs \<and> distinct (map reference bs) \<and>
    (\<forall>b \<in> set bs. get_block d (reference b) = Some b) \<and>
    reference ` set bs =
      (if leader \<in> dag_refs d \<and> \<not> is_committed d leader then causal_cone d gc leader else {})"
  using causal_loop_cone [OF get_block_reference [OF assms(1)], where leader = leader and gc = gc] assms(2)
  by (auto simp: get_causal_blocks_def dag_refs_def simp del: causal_loop.simps split: option.splits)

theorem get_causal_blocks_exact_witness:
  "\<exists>bs. get_causal_blocks (dag4 3) (BlockRef 3 3 0) 0 = Inr bs \<and> distinct (map reference bs) \<and>
     reference ` set bs = causal_cone (dag4 3) 0 (BlockRef 3 3 0)"
proof -
  have "BlockRef 3 3 0 \<in> dag_refs (dag4 3)" using dag4_get_block [of 3 3 3] by (simp add: dag_refs_def)
  moreover have "\<not> is_committed (dag4 3) (BlockRef 3 3 0)" by (rule dag4_uncommitted) simp_all
  ultimately show ?thesis
    using get_causal_blocks_exact [OF dag4_graph(1) [of 3], of 0 "BlockRef 3 3 0"] by auto
qed

end
