(* ===== verification/Block_Manager.thy ===== *)
theory Block_Manager
  imports Dag_Traversal
begin

text \<open>
  \<^verbatim>\<open>crates/consensus/src/block_manager.rs\<close>: the buffer between the network and the DAG, which
  suspends blocks whose ancestors are missing. It shares the DAG with the other components, so the
  operations take and return both states.
\<close>

section \<open>State and operations\<close>

record SuspendedBlock =
  sb_block :: VerifiedBlock
  sb_missing_ancestors :: "BlockRef fset"

datatype TryAcceptResult = Accepted VerifiedBlock | Suspended "BlockRef fset" | Processed

record BlockManager =
  bm_context :: Context
  bm_suspended_blocks :: "(BlockRef, SuspendedBlock) omap"
  bm_missing_ancestors :: "(BlockRef, BlockRef fset) omap"
  bm_missing_blocks :: "BlockRef fset"

definition bm_new :: "Context \<Rightarrow> BlockManager res" where
  "bm_new context =
     rbind (guard DebugAssert (committee_size (committee context) > 0)) (\<lambda>_.
     Inr \<lparr>bm_context = context, bm_suspended_blocks = om_empty, bm_missing_ancestors = om_empty,
       bm_missing_blocks = {||}\<rparr>)"

text \<open>\<^verbatim>\<open>self.missing_ancestors.entry(a).or_default().insert(r)\<close>.\<close>

definition add_waiting :: "BlockRef \<Rightarrow> BlockRef \<Rightarrow> BlockManager \<Rightarrow> BlockManager" where
  "add_waiting a r bm =
     bm\<lparr>bm_missing_ancestors :=
          om_insert a (finsert r (get_or {||} (bm_missing_ancestors bm) a)) (bm_missing_ancestors bm)\<rparr>"

definition missing_of :: "BlockManager \<Rightarrow> DagState \<Rightarrow> VerifiedBlock \<Rightarrow> BlockRef fset" where
  "missing_of bm d block =
     fset_of_list (filter (\<lambda>a. \<not> br_round a = GENESIS_ROUND \<and> \<not> br_round a \<le> gc_round d \<and>
       \<not> contains_block d a \<and> \<not> om_contains (bm_suspended_blocks bm) a) (vb_ancestors block))"

definition try_accept_one_block ::
  "VerifiedBlock \<Rightarrow> BlockManager \<Rightarrow> DagState \<Rightarrow> BlockManager \<times> TryAcceptResult"
where
  "try_accept_one_block block bm d =
     (let block_ref = reference block in
      if contains_block d block_ref then (bm, Processed)
      else
        let missing = missing_of bm d block in
        if missing \<noteq> {||} then
          let bm1 = fold (\<lambda>a bm. (add_waiting a block_ref bm)
                \<lparr>bm_missing_blocks := finsert a (bm_missing_blocks bm)\<rparr>) (sorted_list_of_fset missing) bm;
              bm2 = bm1\<lparr>bm_suspended_blocks :=
                om_insert block_ref \<lparr>sb_block = block, sb_missing_ancestors = missing\<rparr> (bm_suspended_blocks bm1)\<rparr>
          in (bm2, Suspended missing)
        else (bm, Accepted block))"

text \<open>The loop of \<^verbatim>\<open>try_unsuspend_children_blocks\<close> over the waiting children.\<close>

fun unsuspend_loop ::
  "BlockRef \<Rightarrow> BlockRef list \<Rightarrow> BlockManager \<Rightarrow> VerifiedBlock list \<Rightarrow> BlockManager \<times> VerifiedBlock list"
where
  "unsuspend_loop newly [] bm unsuspended = (bm, unsuspended)"
| "unsuspend_loop newly (child # rest) bm unsuspended =
     (case om_get (bm_suspended_blocks bm) child of
        None \<Rightarrow> unsuspend_loop newly rest bm unsuspended
      | Some s \<Rightarrow>
          let missing = sb_missing_ancestors s |-| {|newly|} in
          if missing = {||} then
            unsuspend_loop newly rest
              (bm\<lparr>bm_suspended_blocks := om_remove child (bm_suspended_blocks bm)\<rparr>) (unsuspended @ [sb_block s])
          else
            unsuspend_loop newly rest
              (bm\<lparr>bm_suspended_blocks := om_insert child (s\<lparr>sb_missing_ancestors := missing\<rparr>)
                 (bm_suspended_blocks bm)\<rparr>) unsuspended)"

definition try_unsuspend_children_blocks ::
  "BlockRef \<Rightarrow> BlockManager \<Rightarrow> BlockManager \<times> VerifiedBlock list"
where
  "try_unsuspend_children_blocks newly bm =
     (case om_get (bm_missing_ancestors bm) newly of
        None \<Rightarrow> (bm, [])
      | Some waiting \<Rightarrow>
          unsuspend_loop newly (sorted_list_of_fset waiting)
            (bm\<lparr>bm_missing_ancestors := om_remove newly (bm_missing_ancestors bm)\<rparr>) [])"

text \<open>One iteration of \<^verbatim>\<open>try_accept_blocks_internal\<close> with \<^verbatim>\<open>committed = false\<close>; the accumulated
  results are the accepted blocks and the missing references.\<close>

type_synonym accept_state = "BlockManager \<times> DagState \<times> VerifiedBlock list \<times> BlockRef fset"

fun accept_step :: "VerifiedBlock \<Rightarrow> accept_state \<Rightarrow> accept_state res" where
  "accept_step block (bm, d, accepted, missing_out) =
     (case try_accept_one_block block bm d of
        (bm', Processed) \<Rightarrow> Inr (bm', d, accepted, missing_out)
      | (bm', Suspended missing) \<Rightarrow> Inr (bm', d, accepted, missing_out |\<union>| missing)
      | (bm', Accepted b) \<Rightarrow>
          (case try_unsuspend_children_blocks (reference block) bm' of
             (bm'', unsuspended) \<Rightarrow>
               rbind (dag_accept_blocks (b # unsuspended) d) (\<lambda>d'.
               Inr (bm'', d', accepted @ b # unsuspended, missing_out))))"

definition try_accept_one_committed_block ::
  "VerifiedBlock \<Rightarrow> BlockManager \<Rightarrow> DagState \<Rightarrow> (BlockManager \<times> DagState \<times> TryAcceptResult) res"
where
  "try_accept_one_committed_block block bm d =
     (let block_ref = reference block in
      if contains_block d block_ref then Inr (bm, d, Processed)
      else
        let bm1 = bm\<lparr>bm_missing_blocks := bm_missing_blocks bm |-| {|block_ref|}\<rparr>;
            bm2 = (case om_get (bm_suspended_blocks bm1) block_ref of
                None \<Rightarrow> bm1
              | Some s \<Rightarrow>
                  bm1\<lparr>bm_suspended_blocks := om_remove block_ref (bm_suspended_blocks bm1),
                    bm_missing_ancestors :=
                      om_map_values (\<lambda>a refs. if a |\<in>| sb_missing_ancestors s then refs |-| {|block_ref|} else refs)
                        (bm_missing_ancestors bm1)\<rparr>)
        in rbind (dag_accept_blocks [block] d) (\<lambda>d'. Inr (bm2, d', Accepted block)))"

fun committed_step :: "VerifiedBlock \<Rightarrow> accept_state \<Rightarrow> accept_state res" where
  "committed_step block (bm, d, accepted, missing_out) =
     rbind (try_accept_one_committed_block block bm d) (\<lambda>(bm', d', r).
     case r of
       Accepted b \<Rightarrow> Inr (bm', d', accepted @ [b], missing_out)
     | Processed \<Rightarrow> Inr (bm', d', accepted, missing_out)
     | Suspended _ \<Rightarrow> Inl ExplicitPanic)"

definition try_accept_blocks_internal ::
  "VerifiedBlock list \<Rightarrow> bool \<Rightarrow> BlockManager \<Rightarrow> DagState \<Rightarrow> accept_state res"
where
  "try_accept_blocks_internal blocks committed bm d =
     rfold (if committed then committed_step else accept_step) (sort_key vb_round blocks) (bm, d, [], {||})"

definition try_accept_blocks :: "VerifiedBlock list \<Rightarrow> BlockManager \<Rightarrow> DagState \<Rightarrow> accept_state res" where
  "try_accept_blocks blocks bm d = try_accept_blocks_internal blocks False bm d"

definition try_accept_committed_blocks ::
  "VerifiedBlock list \<Rightarrow> BlockManager \<Rightarrow> DagState \<Rightarrow> (BlockManager \<times> DagState \<times> VerifiedBlock list) res"
where
  "try_accept_committed_blocks blocks bm d =
     rbind (try_accept_blocks_internal blocks True bm d) (\<lambda>(bm', d', accepted, missing).
     rbind (guard Assert (missing = {||})) (\<lambda>_. Inr (bm', d', accepted)))"

definition try_find_blocks :: "BlockRef list \<Rightarrow> BlockManager \<Rightarrow> DagState \<Rightarrow> BlockManager \<times> BlockRef fset" where
  "try_find_blocks block_refs bm d =
     (let refs = filter (\<lambda>r. br_round r > gc_round d) block_refs
      in fold (\<lambda>(found, r) (bm, missing).
           if \<not> found \<and> \<not> om_contains (bm_suspended_blocks bm) r
           then (bm\<lparr>bm_missing_blocks := finsert r (bm_missing_blocks bm),
                   bm_missing_ancestors :=
                     om_insert r (get_or {||} (bm_missing_ancestors bm) r) (bm_missing_ancestors bm)\<rparr>,
                 finsert r missing)
           else (bm, missing))
         (zip (contains_blocks d refs) refs) (bm, {||}))"

definition suspended_blocks_count :: "BlockManager \<Rightarrow> nat" where
  "suspended_blocks_count bm = om_len (bm_suspended_blocks bm)"

definition highest_received_round :: "DagState \<Rightarrow> Round" where
  "highest_received_round d = ds_highest_accepted_round d"

section \<open>No ancestor is lost\<close>

text \<open>A reference the node holds a block for, in the DAG or suspended.\<close>

definition known :: "BlockManager \<Rightarrow> DagState \<Rightarrow> BlockRef \<Rightarrow> bool" where
  "known bm d r \<longleftrightarrow> r \<in> dag_refs d \<or> om_contains (bm_suspended_blocks bm) r"

definition bm_ok :: "BlockManager \<Rightarrow> DagState \<Rightarrow> bool" where
  "bm_ok bm d \<longleftrightarrow> dag_inv d \<and>
     (\<forall>r s. om_get (bm_suspended_blocks bm) r = Some s \<longrightarrow>
        reference (sb_block s) = r \<and> acceptable d (sb_block s) \<and>
        (\<forall>a \<in> set (vb_ancestors (sb_block s)). 0 < br_round a \<longrightarrow> a |\<in>| sb_missing_ancestors s \<or> known bm d a)) \<and>
     (\<forall>r a. anc_edge d r a \<longrightarrow> 0 < br_round a \<longrightarrow> known bm d a)"

lemma missing_of_iff:
  "a |\<in>| missing_of bm d b \<longleftrightarrow> a \<in> set (vb_ancestors b) \<and> 0 < br_round a \<and> \<not> known bm d a"
  by (auto simp: missing_of_def fset_of_list_elem GENESIS_ROUND_def gc_round_def known_def
      contains_block_iff word_neq_0_conv)

lemma fold_waiting_suspended:
  "bm_suspended_blocks (fold (\<lambda>a bm. (add_waiting a r bm)
     \<lparr>bm_missing_blocks := finsert a (bm_missing_blocks bm)\<rparr>) xs bm) = bm_suspended_blocks bm"
  by (induction xs arbitrary: bm) (simp_all add: add_waiting_def)

text \<open>What a pass over the waiting children does to the suspended blocks: the blocks \<open>new\<close> leave,
  each waiting for nothing but the accepted one, the others stay and wait for the same except it.\<close>

definition unsuspends :: "BlockRef \<Rightarrow> BlockManager \<Rightarrow> VerifiedBlock list \<Rightarrow> BlockManager \<Rightarrow> bool" where
  "unsuspends newly bm new bm' \<longleftrightarrow>
     (\<forall>b \<in> set new. \<exists>r s. om_get (bm_suspended_blocks bm) r = Some s \<and> b = sb_block s \<and>
        fset (sb_missing_ancestors s) \<subseteq> {newly}) \<and>
     (\<forall>r s'. om_get (bm_suspended_blocks bm') r = Some s' \<longrightarrow>
        (\<exists>s. om_get (bm_suspended_blocks bm) r = Some s \<and> sb_block s' = sb_block s \<and>
          fset (sb_missing_ancestors s) \<subseteq> insert newly (fset (sb_missing_ancestors s')))) \<and>
     (\<forall>r s. om_get (bm_suspended_blocks bm) r = Some s \<longrightarrow>
        om_contains (bm_suspended_blocks bm') r \<or> sb_block s \<in> set new)"

lemma unsuspends_refl: "bm_suspended_blocks bm' = bm_suspended_blocks bm \<Longrightarrow> unsuspends newly bm [] bm'"
  by (auto simp: unsuspends_def om_contains_iff)

lemma unsuspends_remove:
  assumes "om_get (bm_suspended_blocks bm) child = Some s" and "fset (sb_missing_ancestors s) \<subseteq> {newly}"
    and new: "unsuspends newly (bm\<lparr>bm_suspended_blocks := om_remove child (bm_suspended_blocks bm)\<rparr>) new bm'"
      (is "unsuspends newly ?bm new bm'")
  shows "unsuspends newly bm (sb_block s # new) bm'"
  unfolding unsuspends_def
proof (intro conjI allI impI ballI)
  have old: "om_get (bm_suspended_blocks bm) r = Some x" if "om_get (bm_suspended_blocks ?bm) r = Some x" for r x
    using that by (simp split: if_splits)
  fix b assume "b \<in> set (sb_block s # new)"
  then consider "b = sb_block s" | "b \<in> set new" by auto
  then show "\<exists>r s. om_get (bm_suspended_blocks bm) r = Some s \<and> b = sb_block s \<and>
     fset (sb_missing_ancestors s) \<subseteq> {newly}"
  proof cases
    case 1
    with assms(1,2) show ?thesis by blast
  next
    case 2
    with new old show ?thesis unfolding unsuspends_def by blast
  qed
next
  have old: "om_get (bm_suspended_blocks bm) r = Some x" if "om_get (bm_suspended_blocks ?bm) r = Some x" for r x
    using that by (simp split: if_splits)
  fix r s' assume "om_get (bm_suspended_blocks bm') r = Some s'"
  with new old show "\<exists>s. om_get (bm_suspended_blocks bm) r = Some s \<and> sb_block s' = sb_block s \<and>
      fset (sb_missing_ancestors s) \<subseteq> insert newly (fset (sb_missing_ancestors s'))"
    unfolding unsuspends_def by blast
next
  fix r x assume x: "om_get (bm_suspended_blocks bm) r = Some x"
  show "om_contains (bm_suspended_blocks bm') r \<or> sb_block x \<in> set (sb_block s # new)"
  proof (cases "r = child")
    case True
    with x assms(1) show ?thesis by simp
  next
    case False
    then have "om_get (bm_suspended_blocks ?bm) r = Some x" using x by simp
    with new show ?thesis unfolding unsuspends_def by auto
  qed
qed

lemma unsuspends_shrink:
  assumes "om_get (bm_suspended_blocks bm) child = Some s" and "sb_missing_ancestors s |-| {|newly|} \<noteq> {||}"
    and new: "unsuspends newly (bm\<lparr>bm_suspended_blocks := om_insert child
      (s\<lparr>sb_missing_ancestors := sb_missing_ancestors s |-| {|newly|}\<rparr>) (bm_suspended_blocks bm)\<rparr>) new bm'"
      (is "unsuspends newly ?bm new bm'")
  shows "unsuspends newly bm new bm'"
  unfolding unsuspends_def
proof (intro conjI allI impI ballI)
  fix b assume "b \<in> set new"
  with new obtain r x where x: "om_get (bm_suspended_blocks ?bm) r = Some x" "b = sb_block x"
    "fset (sb_missing_ancestors x) \<subseteq> {newly}" unfolding unsuspends_def by blast
  have "r \<noteq> child"
  proof
    assume "r = child"
    with x have "fset (sb_missing_ancestors s |-| {|newly|}) \<subseteq> {newly}" by auto
    then have "fset (sb_missing_ancestors s |-| {|newly|}) = {}" by auto
    with assms(2) show False by (metis bot_fset.rep_eq fset_inject)
  qed
  with x show "\<exists>r s. om_get (bm_suspended_blocks bm) r = Some s \<and> b = sb_block s \<and>
     fset (sb_missing_ancestors s) \<subseteq> {newly}" by auto
next
  fix r s' assume "om_get (bm_suspended_blocks bm') r = Some s'"
  with new obtain x where "om_get (bm_suspended_blocks ?bm) r = Some x" "sb_block s' = sb_block x"
    "fset (sb_missing_ancestors x) \<subseteq> insert newly (fset (sb_missing_ancestors s'))"
    unfolding unsuspends_def by blast
  with assms(1) show "\<exists>s. om_get (bm_suspended_blocks bm) r = Some s \<and> sb_block s' = sb_block s \<and>
      fset (sb_missing_ancestors s) \<subseteq> insert newly (fset (sb_missing_ancestors s'))"
    by (cases "r = child") auto
next
  fix r x assume "om_get (bm_suspended_blocks bm) r = Some x"
  with assms(1) have "\<exists>y. om_get (bm_suspended_blocks ?bm) r = Some y \<and> sb_block y = sb_block x"
    by (cases "r = child") auto
  with new show "om_contains (bm_suspended_blocks bm') r \<or> sb_block x \<in> set new"
    unfolding unsuspends_def by (metis (no_types, lifting))
qed

lemma unsuspend_loop_spec:
  assumes "unsuspend_loop newly xs bm acc = (bm', us)"
  shows "\<exists>new. us = acc @ new \<and> unsuspends newly bm new bm'"
  using assms
proof (induction newly xs bm acc rule: unsuspend_loop.induct)
  case (1 newly bm acc)
  then show ?case by (auto intro: unsuspends_refl)
next
  case (2 newly child rest bm acc)
  show ?case
  proof (cases "om_get (bm_suspended_blocks bm) child")
    case None
    with 2 show ?thesis by simp
  next
    case (Some s)
    let ?m = "sb_missing_ancestors s |-| {|newly|}"
    show ?thesis
    proof (cases "?m = {||}")
      case True
      then have small: "fset (sb_missing_ancestors s) \<subseteq> {newly}" by (auto simp: fset_eq_iff)
      have "\<exists>new. us = (acc @ [sb_block s]) @ new \<and>
          unsuspends newly (bm\<lparr>bm_suspended_blocks := om_remove child (bm_suspended_blocks bm)\<rparr>) new bm'"
        using "2.prems" Some True by (intro "2.IH"(2) [OF Some refl True]) (simp add: Let_def)
      with unsuspends_remove [OF Some small] show ?thesis by fastforce
    next
      case False
      have "\<exists>new. us = acc @ new \<and> unsuspends newly (bm\<lparr>bm_suspended_blocks := om_insert child
          (s\<lparr>sb_missing_ancestors := ?m\<rparr>) (bm_suspended_blocks bm)\<rparr>) new bm'"
        using "2.prems" Some False by (intro "2.IH"(3) [OF Some refl False]) (simp add: Let_def)
      with unsuspends_shrink [OF Some False] show ?thesis by blast
    qed
  qed
qed

lemma try_unsuspend_spec:
  assumes "try_unsuspend_children_blocks newly bm = (bm', us)"
  shows "unsuspends newly bm us bm'"
proof (cases "om_get (bm_missing_ancestors bm) newly")
  case None
  with assms show ?thesis by (auto simp: try_unsuspend_children_blocks_def intro: unsuspends_refl)
next
  case (Some waiting)
  with assms have "unsuspend_loop newly (sorted_list_of_fset waiting)
      (bm\<lparr>bm_missing_ancestors := om_remove newly (bm_missing_ancestors bm)\<rparr>) [] = (bm', us)"
    by (simp add: try_unsuspend_children_blocks_def)
  from unsuspend_loop_spec [OF this] show ?thesis by (simp add: unsuspends_def)
qed

text \<open>One iteration of the loop keeps the invariant and never panics.\<close>

lemma known_mono:
  assumes "known bm d a" and "dag_refs d \<subseteq> dag_refs d'"
    and "\<And>r. om_contains (bm_suspended_blocks bm) r \<Longrightarrow> om_contains (bm_suspended_blocks bm') r \<or> r \<in> dag_refs d'"
  shows "known bm' d' a"
  using assms by (auto simp: known_def)

lemma suspend_ok:
  assumes ok: "bm_ok bm d" and acc: "acceptable d block" and missing: "missing_of bm d block \<noteq> {||}"
    and not_in: "\<not> contains_block d (reference block)"
    and run: "try_accept_one_block block bm d = (bm', Suspended m)"
  shows "bm_ok bm' d"
proof -
  have susp: "bm_suspended_blocks bm' = om_insert (reference block)
      \<lparr>sb_block = block, sb_missing_ancestors = missing_of bm d block\<rparr> (bm_suspended_blocks bm)"
    using run missing not_in by (auto simp: try_accept_one_block_def Let_def fold_waiting_suspended)
  have mono: "known bm' d a" if "known bm d a" for a
    using that by (rule known_mono) (simp_all add: susp)
  have "reference (sb_block s) = r \<and> acceptable d (sb_block s) \<and>
      (\<forall>a \<in> set (vb_ancestors (sb_block s)). 0 < br_round a \<longrightarrow> a |\<in>| sb_missing_ancestors s \<or> known bm' d a)"
    if s: "om_get (bm_suspended_blocks bm') r = Some s" for r s
  proof (cases "r = reference block")
    case True
    with s susp acc mono show ?thesis by (auto simp: missing_of_iff)
  next
    case False
    with s susp ok mono show ?thesis unfolding bm_ok_def by auto
  qed
  with ok mono show ?thesis unfolding bm_ok_def by blast
qed

text \<open>What a round of releases keeps: known ancestors stay known, and blocks that stay suspended wait for
  what they waited for, but for the accepted block.\<close>

lemma unsuspends_known:
  assumes ok: "bm_ok bm d" and us: "unsuspends r0 bm us bm'" and old: "dag_refs d \<subseteq> dag_refs d'" and new: "reference ` set us \<subseteq> dag_refs d'"
    and "known bm d a"
  shows "known bm' d' a"
proof (rule known_mono [OF assms(5)])
  fix r assume "om_contains (bm_suspended_blocks bm) r"
  then obtain s where s: "om_get (bm_suspended_blocks bm) r = Some s" by (auto simp: om_contains_iff)
  then have "reference (sb_block s) = r" using ok by (simp add: bm_ok_def)
  moreover have "om_contains (bm_suspended_blocks bm') r \<or> sb_block s \<in> set us" using us s unfolding unsuspends_def by blast
  ultimately show "om_contains (bm_suspended_blocks bm') r \<or> r \<in> dag_refs d'" using new by auto
qed (use old in auto)

lemma unsuspends_entry:
  assumes ok: "bm_ok bm d" and us: "unsuspends r0 bm us bm'" and frame: "same_frame d d'"
    and mono: "\<And>a. known bm d a \<Longrightarrow> known bm' d' a" and newly: "known bm' d' r0"
    and s': "om_get (bm_suspended_blocks bm') r = Some s'"
  shows "reference (sb_block s') = r \<and> acceptable d' (sb_block s') \<and>
    (\<forall>a \<in> set (vb_ancestors (sb_block s')). 0 < br_round a \<longrightarrow> a |\<in>| sb_missing_ancestors s' \<or> known bm' d' a)"
proof -
  from us s' obtain s where s: "om_get (bm_suspended_blocks bm) r = Some s" "sb_block s' = sb_block s"
    "fset (sb_missing_ancestors s) \<subseteq> insert r0 (fset (sb_missing_ancestors s'))"
    unfolding unsuspends_def by blast
  from ok s(1) have old: "reference (sb_block s) = r" "acceptable d (sb_block s)"
    "\<And>a. a \<in> set (vb_ancestors (sb_block s)) \<Longrightarrow> 0 < br_round a \<Longrightarrow> a |\<in>| sb_missing_ancestors s \<or> known bm d a"
    unfolding bm_ok_def by blast+
  have "a |\<in>| sb_missing_ancestors s' \<or> known bm' d' a"
    if "a \<in> set (vb_ancestors (sb_block s))" "0 < br_round a" for a
    using old(3) [OF that] mono newly s(3) by (cases "a = r0") auto
  with old(1,2) s(2) same_frame_simps(3) [OF frame] show ?thesis by simp
qed

lemma unsuspend_ok:
  assumes ok: "bm_ok bm d" and acc: "acceptable d block" and none: "missing_of bm d block = {||}"
    and us: "unsuspends (reference block) bm us bm'"
  shows "\<exists>d'. dag_accept_blocks (block # us) d = Inr d' \<and> bm_ok bm' d' \<and> same_frame d d' \<and>
    dag_refs d' = dag_refs d \<union> reference ` set (block # us) \<and>
    (\<forall>r b. get_block d' r = Some b \<longrightarrow> b \<in> set (block # us) \<or> get_block d r = Some b)"
proof -
  have inv: "dag_inv d" using ok by (simp add: bm_ok_def)
  have entry: "\<exists>r s. om_get (bm_suspended_blocks bm) r = Some s \<and> b = sb_block s \<and> reference b = r \<and>
      acceptable d b \<and> fset (sb_missing_ancestors s) \<subseteq> {reference block}" if "b \<in> set us" for b
  proof -
    from us that obtain r s where s: "om_get (bm_suspended_blocks bm) r = Some s" "b = sb_block s"
      "fset (sb_missing_ancestors s) \<subseteq> {reference block}" unfolding unsuspends_def by blast
    moreover have "reference (sb_block s) = r" "acceptable d (sb_block s)" using ok s(1) by (simp_all add: bm_ok_def)
    ultimately show ?thesis by blast
  qed
  have "\<forall>b \<in> set (block # us). acceptable d b" using acc entry by auto
  from accept_blocks_extends [OF inv this] obtain d' where
    d': "dag_accept_blocks (block # us) d = Inr d'" "dag_inv d'" "same_frame d d'"
      "dag_refs d' = dag_refs d \<union> reference ` set (block # us)"
      "\<And>r b. get_block d' r = Some b \<Longrightarrow> b \<in> set (block # us) \<and> reference b = r \<or> get_block d r = Some b"
    by blast
  have mono: "known bm' d' a" if "known bm d a" for a
    by (rule unsuspends_known [OF ok us _ _ that]) (auto simp: d'(4))
  have newly: "known bm' d' (reference block)" by (simp add: known_def d'(4))
  have anc: "known bm' d' a" if "b \<in> set (block # us)" "a \<in> set (vb_ancestors b)" "0 < br_round a" for a b
  proof (cases "b = block")
    case True
    have "a |\<notin>| missing_of bm d block" using none by simp
    with that True mono show ?thesis by (auto simp: missing_of_iff)
  next
    case False
    with that entry [of b] obtain r s where "om_get (bm_suspended_blocks bm) r = Some s" "b = sb_block s"
      "fset (sb_missing_ancestors s) \<subseteq> {reference block}" by auto
    with ok that mono newly show ?thesis unfolding bm_ok_def by blast
  qed
  have "reference (sb_block s') = r \<and> acceptable d' (sb_block s') \<and>
      (\<forall>a \<in> set (vb_ancestors (sb_block s')). 0 < br_round a \<longrightarrow> a |\<in>| sb_missing_ancestors s' \<or> known bm' d' a)"
    if s': "om_get (bm_suspended_blocks bm') r = Some s'" for r s'
    by (rule unsuspends_entry [OF ok us d'(3) mono newly s'])
  moreover have "known bm' d' a" if edge: "anc_edge d' r a" "0 < br_round a" for r a
  proof -
    from edge(1) obtain b where b: "get_block d' r = Some b" "a \<in> set (vb_ancestors b)" by (auto simp: anc_edge_def)
    from d'(5) [OF b(1)] show ?thesis
    proof
      assume "b \<in> set (block # us) \<and> reference b = r"
      with anc b(2) edge(2) show ?thesis by blast
    next
      assume "get_block d r = Some b"
      with b(2) have "anc_edge d r a" by (auto simp: anc_edge_def)
      with ok edge(2) mono show ?thesis by (auto simp: bm_ok_def)
    qed
  qed
  ultimately have "bm_ok bm' d'" using d'(2) unfolding bm_ok_def by blast
  with d'(1,3,4) d'(5) show ?thesis by blast
qed

lemma accept_step_ok:
  assumes "bm_ok bm d" and "acceptable d block"
  shows "\<exists>bm' d' accepted' missing'. accept_step block (bm, d, accepted, missing) = Inr (bm', d', accepted', missing') \<and>
    bm_ok bm' d' \<and> same_frame d d' \<and> dag_refs d \<subseteq> dag_refs d'"
proof (cases "contains_block d (reference block)")
  case True
  with assms(1) show ?thesis by (simp add: try_accept_one_block_def)
next
  case False
  show ?thesis
  proof (cases "missing_of bm d block = {||}")
    case True
    obtain bm' us where us: "try_unsuspend_children_blocks (reference block) bm = (bm', us)" by fastforce
    from unsuspend_ok [OF assms True try_unsuspend_spec [OF us]] False True us show ?thesis
      by (auto simp: try_accept_one_block_def)
  next
    case missing: False
    obtain bm' m where run: "try_accept_one_block block bm d = (bm', Suspended m)"
      using False missing by (simp add: try_accept_one_block_def Let_def)
    with suspend_ok [OF assms missing False run] show ?thesis by simp
  qed
qed

lemma accept_loop_ok:
  assumes "bm_ok bm d" and "\<forall>b \<in> set bs. acceptable d b"
  shows "\<exists>bm' d' accepted' missing'. rfold accept_step bs (bm, d, accepted, missing) = Inr (bm', d', accepted', missing') \<and>
    bm_ok bm' d' \<and> same_frame d d' \<and> dag_refs d \<subseteq> dag_refs d'"
  using assms
proof (induction bs arbitrary: bm d accepted missing)
  case (Cons b bs)
  obtain bm1 d1 a1 m1 where 1: "accept_step b (bm, d, accepted, missing) = Inr (bm1, d1, a1, m1)" "bm_ok bm1 d1"
    "same_frame d d1" "dag_refs d \<subseteq> dag_refs d1"
    using accept_step_ok [OF Cons.prems(1)] Cons.prems(2) by fastforce
  have "\<forall>x \<in> set bs. acceptable d1 x" using Cons.prems(2) same_frame_simps(3) [OF 1(3)] by simp
  from Cons.IH [OF 1(2) this, of a1 m1] 1 show ?case
    by (auto intro: same_frame_trans)
qed simp

section \<open>Delivery in causal order\<close>

text \<open>Nothing is suspended and every block comes after its ancestors.\<close>

definition idle :: "BlockManager \<Rightarrow> bool" where
  "idle bm \<longleftrightarrow> bm_suspended_blocks bm = om_empty"

fun deliverable :: "BlockRef set \<Rightarrow> VerifiedBlock list \<Rightarrow> bool" where
  "deliverable refs [] \<longleftrightarrow> True"
| "deliverable refs (b # bs) \<longleftrightarrow>
     (\<forall>a \<in> set (vb_ancestors b). 0 < br_round a \<longrightarrow> a \<in> refs) \<and> deliverable (insert (reference b) refs) bs"

lemma accept_step_deliverable:
  assumes ok: "bm_ok bm d" and acc: "acceptable d b" and idle: "idle bm"
    and anc: "\<forall>a \<in> set (vb_ancestors b). 0 < br_round a \<longrightarrow> a \<in> dag_refs d"
  shows "\<exists>bm' d' accepted'. accept_step b (bm, d, accepted, missing) = Inr (bm', d', accepted', missing) \<and>
    bm_ok bm' d' \<and> idle bm' \<and> same_frame d d' \<and> dag_refs d' = insert (reference b) (dag_refs d) \<and>
    set accepted' \<subseteq> insert b (set accepted) \<and> (\<forall>r x. get_block d' r = Some x \<longrightarrow> x = b \<or> get_block d r = Some x)"
proof (cases "contains_block d (reference b)")
  case True
  with ok idle show ?thesis by (auto simp: try_accept_one_block_def contains_block_iff)
next
  case False
  have none: "missing_of bm d b = {||}" using anc by (auto simp: fset_eq_iff missing_of_iff known_def)
  obtain bm' us where us: "try_unsuspend_children_blocks (reference b) bm = (bm', us)" by fastforce
  note un = try_unsuspend_spec [OF us]
  have empty: "om_get (bm_suspended_blocks bm) r = None" for r using idle by (simp add: idle_def)
  have "us = []" using un unfolding unsuspends_def empty by (cases us) auto
  moreover have "idle bm'"
    unfolding idle_def
  proof (rule om_ext)
    fix r show "om_get (bm_suspended_blocks bm') r = om_get om_empty r"
      using un unfolding unsuspends_def empty by (cases "om_get (bm_suspended_blocks bm') r") auto
  qed
  ultimately show ?thesis
    using unsuspend_ok [OF ok acc none un] False none us by (auto simp: try_accept_one_block_def)
qed

lemma accept_loop_deliverable:
  assumes "bm_ok bm d" and "\<forall>b \<in> set bs. acceptable d b" and "idle bm" and "deliverable (dag_refs d) bs"
  shows "\<exists>bm' d' accepted'. rfold accept_step bs (bm, d, accepted, missing) = Inr (bm', d', accepted', missing) \<and>
    bm_ok bm' d' \<and> idle bm' \<and> same_frame d d' \<and> dag_refs d' = dag_refs d \<union> reference ` set bs \<and>
    set accepted' \<subseteq> set accepted \<union> set bs \<and> (\<forall>r x. get_block d' r = Some x \<longrightarrow> x \<in> set bs \<or> get_block d r = Some x)"
  using assms
proof (induction bs arbitrary: bm d accepted)
  case (Cons b bs)
  obtain bm1 d1 a1 where 1: "accept_step b (bm, d, accepted, missing) = Inr (bm1, d1, a1, missing)" "bm_ok bm1 d1"
    "idle bm1" "same_frame d d1" "dag_refs d1 = insert (reference b) (dag_refs d)" "set a1 \<subseteq> insert b (set accepted)"
    "\<forall>r x. get_block d1 r = Some x \<longrightarrow> x = b \<or> get_block d r = Some x"
    using accept_step_deliverable [OF Cons.prems(1) _ Cons.prems(3), of b accepted missing] Cons.prems(2,4) by fastforce
  have "\<forall>x \<in> set bs. acceptable d1 x" using Cons.prems(2) same_frame_simps(3) [OF 1(4)] by simp
  moreover have "deliverable (dag_refs d1) bs" using Cons.prems(4) 1(5) by simp
  ultimately obtain bm2 d2 a2 where 2: "rfold accept_step bs (bm1, d1, a1, missing) = Inr (bm2, d2, a2, missing)"
    "bm_ok bm2 d2" "idle bm2" "same_frame d1 d2" "dag_refs d2 = dag_refs d1 \<union> reference ` set bs"
    "set a2 \<subseteq> set a1 \<union> set bs" "\<forall>r x. get_block d2 r = Some x \<longrightarrow> x \<in> set bs \<or> get_block d1 r = Some x"
    using Cons.IH [OF 1(2) _ 1(3), of a1] by blast
  have "set a2 \<subseteq> set accepted \<union> set (b # bs)" using 1(6) 2(6) by auto
  moreover have "\<forall>r x. get_block d2 r = Some x \<longrightarrow> x \<in> set (b # bs) \<or> get_block d r = Some x"
    using 1(7) 2(7) by (metis list.set_intros)
  ultimately show ?case using 1(1,5) 2(1-5) same_frame_trans [OF 1(4) 2(4)] by (auto simp: insert_commute)
qed simp

text \<open>Sorting by round, as the code does first, puts blocks after their ancestors.\<close>

lemma sorted_deliverable:
  assumes "sorted (map vb_round bs)"
    and "\<forall>b \<in> set bs. \<forall>a \<in> set (vb_ancestors b). 0 < br_round a \<longrightarrow>
      br_round a < vb_round b \<and> (a \<in> refs \<or> a \<in> reference ` set bs)"
  shows "deliverable refs bs"
  using assms
proof (induction bs arbitrary: refs)
  case (Cons b bs)
  have hd: "a \<in> refs" if a: "a \<in> set (vb_ancestors b)" "0 < br_round a" for a
  proof (rule ccontr)
    assume "a \<notin> refs"
    moreover have a': "br_round a < vb_round b" "a \<in> refs \<or> a \<in> reference ` set (b # bs)"
      using Cons.prems(2) a by (meson list.set_intros(1))+
    ultimately obtain c where c: "c \<in> set (b # bs)" "a = reference c" by blast
    have "vb_round b \<le> vb_round c" using Cons.prems(1) c(1) by auto
    with c(2) a'(1) show False by simp
  qed
  moreover have "deliverable (insert (reference b) refs) bs"
    using Cons.prems by (intro Cons.IH) auto
  ultimately show ?case by simp
qed simp

lemma causal_delivery:
  assumes "bm_ok bm d" and "idle bm" and "\<forall>b \<in> set blocks. acceptable d b"
    and "\<forall>b \<in> set blocks. \<forall>a \<in> set (vb_ancestors b). 0 < br_round a \<longrightarrow>
      br_round a < vb_round b \<and> (a \<in> dag_refs d \<or> a \<in> reference ` set blocks)"
  shows "\<exists>bm' d' accepted. try_accept_blocks blocks bm d = Inr (bm', d', accepted, {||}) \<and>
    bm_ok bm' d' \<and> idle bm' \<and> dag_refs d' = dag_refs d \<union> reference ` set blocks \<and>
    same_frame d d' \<and> set accepted \<subseteq> set blocks \<and>
    (\<forall>r x. get_block d' r = Some x \<longrightarrow> x \<in> set blocks \<or> get_block d r = Some x)"
proof -
  have "deliverable (dag_refs d) (sort_key vb_round blocks)"
    using assms(4) by (intro sorted_deliverable) simp_all
  with accept_loop_deliverable [OF assms(1) _ assms(2), of "sort_key vb_round blocks" "[]" "{||}"] assms(3)
  show ?thesis by (auto simp: try_accept_blocks_def try_accept_blocks_internal_def)
qed

section \<open>What the block manager promises\<close>

definition bm4 :: BlockManager where
  "bm4 = \<lparr>bm_context = ctx4, bm_suspended_blocks = om_empty, bm_missing_ancestors = om_empty,
     bm_missing_blocks = {||}\<rparr>"

lemma closed_bm_ok: "dag_inv d \<Longrightarrow> closed d \<Longrightarrow> idle bm \<Longrightarrow> bm_ok bm d"
  by (auto simp: bm_ok_def closed_def known_def idle_def)

lemma bm4_ok: "n < 2 ^ 32 - 1 \<Longrightarrow> bm_ok bm4 (dag4 n) \<and> idle bm4"
  using closed_bm_ok [OF dag4_graph(1) [of n] dag4_graph(3) [of n], of bm4] by (simp add: bm4_def idle_def)

text \<open>\<^bold>\<open>C24\<close>. Accepting blocks from the network never loses an ancestor. Whatever blocks arrive, from
  members and in any order: the call does not panic, and afterwards every ancestor (above round 0) of
  a block in the DAG is in the DAG or suspended, and every ancestor of a suspended block is in the
  DAG, suspended, or recorded as missing. In particular, when nothing is suspended the DAG is causally
  closed.\<close>

theorem block_manager_keeps_ancestors:
  assumes "bm_ok bm d" and "\<forall>b \<in> set blocks. acceptable d b"
  shows "\<exists>bm' d' accepted missing. try_accept_blocks blocks bm d = Inr (bm', d', accepted, missing) \<and>
    bm_ok bm' d' \<and> dag_refs d \<subseteq> dag_refs d' \<and> (idle bm' \<longrightarrow> closed d')"
proof -
  obtain bm' d' accepted missing where
    "rfold accept_step (sort_key vb_round blocks) (bm, d, [], {||}) = Inr (bm', d', accepted, missing)"
    "bm_ok bm' d'" "dag_refs d \<subseteq> dag_refs d'"
    using accept_loop_ok [OF assms(1), of "sort_key vb_round blocks" "[]" "{||}"] assms(2) by auto
  moreover from this(2) have "idle bm' \<longrightarrow> closed d'"
    by (auto simp: bm_ok_def closed_def known_def idle_def)
  ultimately show ?thesis by (simp add: try_accept_blocks_def try_accept_blocks_internal_def)
qed

theorem block_manager_keeps_ancestors_witness:
  "\<exists>bm' d' accepted missing. try_accept_blocks (full_round 3) bm4 (dag4 1) = Inr (bm', d', accepted, missing) \<and>
     bm_ok bm' d'"
proof -
  have "\<forall>b \<in> set (full_round 3). acceptable (dag4 1) b"
    by (simp add: full_round_def acceptable_def dag4_graph(4))
  with block_manager_keeps_ancestors [of bm4 "dag4 1" "full_round 3"] bm4_ok [of 1] show ?thesis by auto
qed

text \<open>\<^bold>\<open>C25\<close>. Delivery in causal order. When nothing is suspended and a batch brings, with blocks of
  earlier rounds of the batch or of the DAG, every ancestor it refers to, the whole batch enters the
  DAG, nothing is suspended and no reference is reported missing.\<close>

theorem causal_delivery_accepts_all:
  assumes "bm_ok bm d" and "idle bm" and "\<forall>b \<in> set blocks. acceptable d b"
    and "\<forall>b \<in> set blocks. \<forall>a \<in> set (vb_ancestors b). 0 < br_round a \<longrightarrow>
      br_round a < vb_round b \<and> (a \<in> dag_refs d \<or> a \<in> reference ` set blocks)"
  shows "\<exists>bm' d' accepted. try_accept_blocks blocks bm d = Inr (bm', d', accepted, {||}) \<and>
    bm_ok bm' d' \<and> idle bm' \<and> dag_refs d' = dag_refs d \<union> reference ` set blocks"
  using causal_delivery [OF assms] by blast

theorem causal_delivery_accepts_all_witness:
  "\<exists>bm' d' accepted. try_accept_blocks (full_round 2) bm4 (dag4 1) = Inr (bm', d', accepted, {||}) \<and>
     dag_refs d' = dag_refs (dag4 1) \<union> reference ` set (full_round 2)"
proof -
  have "BlockRef 1 a 0 \<in> dag_refs (dag4 1)" if "unat a < 4" for a
    using dag4_get_block [of 1 1 a] that by (simp add: dag_refs_def)
  then have "\<forall>b \<in> set (full_round 2). \<forall>a \<in> set (vb_ancestors b). 0 < br_round a \<longrightarrow>
      br_round a < vb_round b \<and> (a \<in> dag_refs (dag4 1) \<or> a \<in> reference ` set (full_round 2))"
    by (auto simp: full_round_def round_refs_iff)
  moreover have "\<forall>b \<in> set (full_round 2). acceptable (dag4 1) b"
    by (simp add: full_round_def acceptable_def dag4_graph(4))
  ultimately show ?thesis
    using causal_delivery_accepts_all [of bm4 "dag4 1" "full_round 2"] bm4_ok [of 1] by auto
qed

text \<open>Out of order, the manager does not wait for the full causal history as documented. A block
  whose parent is suspended counts that parent as present: after round 2 (suspended, its parents of
  round 1 are unknown) a block of round 3 is accepted into a DAG that has none of its ancestors.\<close>

theorem accepts_child_of_suspended_block:
  "rbind (try_accept_blocks (full_round 2) bm4 genesis4) (\<lambda>(bm, d, acc1, _).
   rbind (try_accept_blocks (full_round 3) bm d) (\<lambda>(bm', d', acc2, _).
   Inr (map reference acc1, map reference acc2, suspended_blocks_count bm',
     contains_block d' (BlockRef 3 0 0), contains_block d' (BlockRef 2 0 0)))) =
   Inr ([], round_refs 3, 4, True, False)"
  by code_simp

text \<open>Unsuspending is one level deep: a block that leaves the buffer does not release the blocks
  that wait for it. When a chain of three blocks arrives in reverse order, the last one stays
  suspended although its parent is in the DAG, and receiving the parent again does not help.\<close>

definition chain_block :: "Round \<Rightarrow> VerifiedBlock" where
  "chain_block r = block4 r 0 [BlockRef (r - 1) 0 0]"

theorem unsuspend_not_transitive:
  "rbind (try_accept_blocks [chain_block 3] bm4 genesis4) (\<lambda>(bm, d, _, _).
   rbind (try_accept_blocks [chain_block 2] bm d) (\<lambda>(bm, d, _, _).
   rbind (try_accept_blocks [chain_block 1] bm d) (\<lambda>(bm, d, _, _).
   rbind (try_accept_blocks [chain_block 2] bm d) (\<lambda>(bm, d, _, _).
   Inr (contains_block d (BlockRef 1 0 0), contains_block d (BlockRef 2 0 0),
     contains_block d (BlockRef 3 0 0), om_contains (bm_suspended_blocks bm) (BlockRef 3 0 0)))))) =
   Inr (True, True, False, True)"
  by code_simp

end
