(* ===== verification/Base_Committer.thy ===== *)
theory Base_Committer
  imports Dag_Traversal
begin

text \<open>
  \<^verbatim>\<open>crates/consensus/src/base_committer.rs\<close>: the direct and indirect commit rules for one leader
  per wave. A committer reads the shared DAG, passed explicitly here.
\<close>

section \<open>Options and waves\<close>

record BaseCommitterOptions =
  bo_wave_length :: Round
  bo_leader_offset :: u32
  bo_round_offset :: Round

definition default_options :: BaseCommitterOptions where
  "default_options = \<lparr>bo_wave_length = DEFAULT_WAVE_LENGTH, bo_leader_offset = 0, bo_round_offset = 0\<rparr>"

record BaseCommitter =
  bc_context :: Context
  bc_options :: BaseCommitterOptions

definition base_committer_new :: "Context \<Rightarrow> BaseCommitterOptions \<Rightarrow> BaseCommitter res" where
  "base_committer_new context options =
     rbind (guard DebugAssert (bo_wave_length options \<ge> 3)) (\<lambda>_.
     rbind (guard DebugAssert (committee_size (committee context) > 0)) (\<lambda>_.
     Inr \<lparr>bc_context = context, bc_options = options\<rparr>))"

definition elect_leader_index :: "BaseCommitter \<Rightarrow> Round \<Rightarrow> u32 \<Rightarrow> AuthorityIndex res" where
  "elect_leader_index bc rnd offset =
     (let size = word_of_nat (committee_size (committee (bc_context bc)))
      in checked_rem (rnd + offset) size)"

definition leader_round :: "BaseCommitter \<Rightarrow> WaveNumber \<Rightarrow> Round res" where
  "leader_round bc wave =
     rbind (checked_mul wave (bo_wave_length (bc_options bc))) (\<lambda>x.
     checked_add x (bo_round_offset (bc_options bc)))"

definition decision_round :: "BaseCommitter \<Rightarrow> WaveNumber \<Rightarrow> Round res" where
  "decision_round bc wave =
     (let wl = bo_wave_length (bc_options bc) in
      rbind (checked_mul wave wl) (\<lambda>x.
      rbind (checked_add x wl) (\<lambda>y.
      rbind (checked_sub y 1) (\<lambda>z.
      checked_add z (bo_round_offset (bc_options bc))))))"

definition wave_number :: "BaseCommitter \<Rightarrow> Round \<Rightarrow> WaveNumber res" where
  "wave_number bc rnd =
     checked_div (saturating_sub rnd (bo_round_offset (bc_options bc))) (bo_wave_length (bc_options bc))"

definition elect_leader :: "BaseCommitter \<Rightarrow> Round \<Rightarrow> Slot option res" where
  "elect_leader bc rnd =
     rbind (wave_number bc rnd) (\<lambda>wave.
     rbind (leader_round bc wave) (\<lambda>lr.
     if lr \<noteq> rnd then Inr None
     else rbind (elect_leader_index bc rnd (bo_leader_offset (bc_options bc))) (\<lambda>i.
       Inr (Some (Slot rnd i)))))"

section \<open>Votes and certificates\<close>

text \<open>\<^verbatim>\<open>find_supported_block\<close> calls itself on the ancestors above the leader's round, in order,
  until one call finds a block. \<open>find_in\<close> is the second loop with the recursive call written
  out; on cyclic links it does not return, which is the value \<open>None\<close>.\<close>

definition ancestor_at_slot :: "Slot \<Rightarrow> VerifiedBlock \<Rightarrow> BlockRef option" where
  "ancestor_at_slot slot b = List.find (\<lambda>a. slot_of_ref a = slot) (vb_ancestors b)"

partial_function (option) find_in ::
  "DagState \<Rightarrow> Slot \<Rightarrow> BlockRef list \<Rightarrow> BlockRef option res option"
where
  [code]: "find_in d slot refs =
     (case refs of
        [] \<Rightarrow> Some (Inr None)
      | a # rest \<Rightarrow>
          if br_round a \<le> sl_round slot then find_in d slot rest
          else case get_block d a of
            None \<Rightarrow> Some (Inl ExplicitPanic)
          | Some b \<Rightarrow>
              if vb_round b < sl_round slot then find_in d slot rest
              else case ancestor_at_slot slot b of
                Some r \<Rightarrow> Some (Inr (Some r))
              | None \<Rightarrow>
                  Option.bind (find_in d slot (vb_ancestors b)) (\<lambda>res.
                  case res of
                    Inl p \<Rightarrow> Some (Inl p)
                  | Inr (Some support) \<Rightarrow> Some (Inr (Some support))
                  | Inr None \<Rightarrow> find_in d slot rest))"

definition find_supported_block :: "DagState \<Rightarrow> Slot \<Rightarrow> VerifiedBlock \<Rightarrow> BlockRef option res" where
  "find_supported_block d slot from =
     (if vb_round from < sl_round slot then Inr None
      else case ancestor_at_slot slot from of
        Some r \<Rightarrow> Inr (Some r)
      | None \<Rightarrow> returns (find_in d slot (vb_ancestors from)))"

definition is_vote :: "DagState \<Rightarrow> VerifiedBlock \<Rightarrow> VerifiedBlock \<Rightarrow> bool res" where
  "is_vote d potential_vote leader_block =
     rbind (find_supported_block d (slot_of_ref (reference leader_block)) potential_vote) (\<lambda>s.
     Inr (s = Some (reference leader_block)))"

text \<open>The vote of one ancestor of a potential certificate, without the cache.\<close>

definition ancestor_vote :: "DagState \<Rightarrow> VerifiedBlock \<Rightarrow> BlockRef \<Rightarrow> bool res" where
  "ancestor_vote d leader_block r =
     (case get_block d r of
        Some potential_vote \<Rightarrow> is_vote d potential_vote leader_block
      | None \<Rightarrow> rbind (guard Assert (br_round r \<le> gc_round d)) (\<lambda>_. Inr False))"

text \<open>\<^verbatim>\<open>is_certificate\<close>: its loop over the ancestors, with the vote cache threaded through.\<close>

type_synonym vote_cache = "(BlockRef, bool) omap"

definition cached_vote ::
  "DagState \<Rightarrow> VerifiedBlock \<Rightarrow> BlockRef \<Rightarrow> vote_cache \<Rightarrow> (vote_cache \<times> bool) res"
where
  "cached_vote d leader_block r cache =
     (case om_get cache r of
        Some v \<Rightarrow> Inr (cache, v)
      | None \<Rightarrow> rbind (ancestor_vote d leader_block r) (\<lambda>v. Inr (om_insert r v cache, v)))"

fun certificate_loop ::
  "DagState \<Rightarrow> Committee \<Rightarrow> VerifiedBlock \<Rightarrow> BlockRef list \<Rightarrow> StakeAggregator \<Rightarrow> vote_cache \<Rightarrow>
     (vote_cache \<times> bool) res"
where
  "certificate_loop d c leader_block [] agg cache = Inr (cache, False)"
| "certificate_loop d c leader_block (r # rs) agg cache =
     rbind (cached_vote d leader_block r cache) (\<lambda>(cache', v).
     if v then
       rbind (sa_add QuorumThreshold (br_author r) c agg) (\<lambda>(agg', reached).
       if reached then Inr (cache', True) else certificate_loop d c leader_block rs agg' cache')
     else certificate_loop d c leader_block rs agg cache')"

definition is_certificate ::
  "BaseCommitter \<Rightarrow> DagState \<Rightarrow> VerifiedBlock \<Rightarrow> VerifiedBlock \<Rightarrow> vote_cache \<Rightarrow> (vote_cache \<times> bool) res"
where
  "is_certificate bc d potential_certificate leader_block all_votes =
     certificate_loop d (committee (bc_context bc)) leader_block (vb_ancestors potential_certificate)
       sa_new all_votes"

section \<open>Counting over a round\<close>

definition enough_leader_blame :: "BaseCommitter \<Rightarrow> DagState \<Rightarrow> Round \<Rightarrow> AuthorityIndex \<Rightarrow> bool res" where
  "enough_leader_blame bc d voting_round leader =
     rbind (guard DebugAssert (voting_round > 0)) (\<lambda>_.
     rbind (get_uncommitted_blocks_at_round d voting_round) (\<lambda>voting_blocks.
     tally (\<lambda>b. Inr (if list_all (\<lambda>a. br_author a \<noteq> leader) (vb_ancestors b)
                     then Some (br_author (reference b)) else None))
       (committee (bc_context bc)) voting_blocks sa_new))"

fun support_loop ::
  "BaseCommitter \<Rightarrow> DagState \<Rightarrow> VerifiedBlock \<Rightarrow> VerifiedBlock list \<Rightarrow> StakeAggregator \<Rightarrow> vote_cache \<Rightarrow> bool res"
where
  "support_loop bc d leader_block [] support cache = Inr False"
| "support_loop bc d leader_block (b # bs) support cache =
     rbind (is_certificate bc d b leader_block cache) (\<lambda>(cache', cert).
     if cert then
       rbind (sa_add QuorumThreshold (br_author (reference b)) (committee (bc_context bc)) support)
         (\<lambda>(support', reached).
         if reached then Inr True else support_loop bc d leader_block bs support' cache')
     else support_loop bc d leader_block bs support cache')"

definition enough_leader_support :: "BaseCommitter \<Rightarrow> DagState \<Rightarrow> Round \<Rightarrow> VerifiedBlock \<Rightarrow> bool res" where
  "enough_leader_support bc d dround leader_block =
     rbind (guard DebugAssert (dround > 0)) (\<lambda>_.
     rbind (get_uncommitted_blocks_at_round d dround) (\<lambda>decision_blocks.
     support_loop bc d leader_block decision_blocks sa_new om_empty))"

section \<open>The direct and the indirect rule\<close>

definition try_direct_decide :: "BaseCommitter \<Rightarrow> DagState \<Rightarrow> Slot \<Rightarrow> LeaderStatus res" where
  "try_direct_decide bc d leader =
     rbind (guard DebugAssert (sl_round leader > 0)) (\<lambda>_.
     rbind (checked_add (sl_round leader) 1) (\<lambda>voting_round.
     rbind (enough_leader_blame bc d voting_round (sl_authority leader)) (\<lambda>blame.
     if blame then Inr (Skip leader)
     else
       rbind (wave_number bc (sl_round leader)) (\<lambda>wave.
       rbind (decision_round bc wave) (\<lambda>dround.
       rbind (rfilter (enough_leader_support bc d dround) (get_uncommitted_blocks_at_slot d leader))
         (\<lambda>supported.
         rbind (guard ExplicitPanic (length supported \<le> 1)) (\<lambda>_.
         Inr (if supported = [] then Undecided leader else Commit (last supported)))))))))"

text \<open>\<^verbatim>\<open>potential_certificates.iter().any(..)\<close> with the cache shared between the calls.\<close>

fun any_certificate ::
  "BaseCommitter \<Rightarrow> DagState \<Rightarrow> VerifiedBlock \<Rightarrow> VerifiedBlock list \<Rightarrow> vote_cache \<Rightarrow> bool res"
where
  "any_certificate bc d leader_block [] cache = Inr False"
| "any_certificate bc d leader_block (c # cs) cache =
     rbind (is_certificate bc d c leader_block cache) (\<lambda>(cache', cert).
     if cert then Inr True else any_certificate bc d leader_block cs cache')"

definition decide_leader_from_anchor ::
  "BaseCommitter \<Rightarrow> DagState \<Rightarrow> VerifiedBlock \<Rightarrow> Slot \<Rightarrow> LeaderStatus res"
where
  "decide_leader_from_anchor bc d anchor leader_slot =
     rbind (wave_number bc (sl_round leader_slot)) (\<lambda>wave.
     rbind (decision_round bc wave) (\<lambda>dround.
     rbind (ancestors_at_round d anchor dround) (\<lambda>potential_certificates.
     rbind (rfilter (\<lambda>leader_block. any_certificate bc d leader_block potential_certificates om_empty)
         (get_uncommitted_blocks_at_slot d leader_slot)) (\<lambda>certified.
     rbind (guard ExplicitPanic (length certified \<le> 1)) (\<lambda>_.
     Inr (if certified = [] then Skip leader_slot else Commit (last certified)))))))"

text \<open>The loop over the anchors: the statuses of later leaders that are at least a wave away.\<close>

fun indirect_loop :: "BaseCommitter \<Rightarrow> DagState \<Rightarrow> Slot \<Rightarrow> LeaderStatus list \<Rightarrow> LeaderStatus res" where
  "indirect_loop bc d leader_slot [] = Inr (Undecided leader_slot)"
| "indirect_loop bc d leader_slot (x # xs) =
     rbind (checked_add (sl_round leader_slot) (bo_wave_length (bc_options bc))) (\<lambda>limit.
     if limit \<le> ls_round x then
       (case x of
          Commit anchor \<Rightarrow> decide_leader_from_anchor bc d anchor leader_slot
        | Skip _ \<Rightarrow> indirect_loop bc d leader_slot xs
        | Undecided _ \<Rightarrow> Inr (Undecided leader_slot))
     else indirect_loop bc d leader_slot xs)"

definition try_indirect_decide ::
  "BaseCommitter \<Rightarrow> DagState \<Rightarrow> Slot \<Rightarrow> LeaderStatus list \<Rightarrow> LeaderStatus res"
where
  "try_indirect_decide bc d leader_slot leaders =
     rbind (guard DebugAssert (sl_round leader_slot > 0)) (\<lambda>_.
     indirect_loop bc d leader_slot leaders)"

section \<open>What a vote is\<close>

text \<open>The recursion of the code: the value of the loop is that of the recursive calls, taken in
  order until one of them finds a block or panics.\<close>

definition supported :: "DagState \<Rightarrow> Slot \<Rightarrow> VerifiedBlock \<Rightarrow> BlockRef option res option" where
  "supported d slot from =
     (if vb_round from < sl_round slot then Some (Inr None)
      else case ancestor_at_slot slot from of
        Some r \<Rightarrow> Some (Inr (Some r))
      | None \<Rightarrow> find_in d slot (vb_ancestors from))"

lemma find_supported_block_eq: "find_supported_block d slot b = returns (supported d slot b)"
  by (simp add: find_supported_block_def supported_def split: option.splits)

lemma find_in_Nil [simp]: "find_in d slot [] = Some (Inr None)"
  by (simp add: find_in.simps)

lemma find_in_Cons:
  "find_in d slot (a # rest) =
     (if br_round a \<le> sl_round slot then find_in d slot rest
      else case get_block d a of
        None \<Rightarrow> Some (Inl ExplicitPanic)
      | Some b \<Rightarrow> Option.bind (supported d slot b) (\<lambda>res.
          case res of
            Inl p \<Rightarrow> Some (Inl p)
          | Inr (Some support) \<Rightarrow> Some (Inr (Some support))
          | Inr None \<Rightarrow> find_in d slot rest))"
  by (subst find_in.simps) (simp add: supported_def split: option.splits)

lemma ancestor_at_slot_Some:
  "ancestor_at_slot slot b = Some r \<Longrightarrow> r \<in> set (vb_ancestors b) \<and> slot_of_ref r = slot"
  by (auto simp: ancestor_at_slot_def find_Some_iff)

lemma ancestor_at_slot_None:
  "ancestor_at_slot slot b = None \<longleftrightarrow> (\<forall>r \<in> set (vb_ancestors b). slot_of_ref r \<noteq> slot)"
  by (auto simp: ancestor_at_slot_def find_None_iff)

text \<open>A DAG the commit rules can work on.\<close>

definition dag_ok :: "DagState \<Rightarrow> bool" where
  "dag_ok d \<longleftrightarrow> dag_inv d \<and> layered d \<and> closed d"

lemma find_in_total:
  assumes ok: "dag_ok d"
    and "\<forall>a \<in> set refs. unat (br_round a) < n \<and> (sl_round slot < br_round a \<longrightarrow> a \<in> dag_refs d)"
  shows "\<exists>x. find_in d slot refs = Some (Inr x) \<and>
    (\<forall>r. x = Some r \<longrightarrow> slot_of_ref r = slot \<and> (\<exists>a \<in> set refs. (anc_edge d)\<^sup>+\<^sup>+ a r))"
  using assms(2)
proof (induction n arbitrary: refs rule: less_induct)
  case (less n)
  from less.prems show ?case
  proof (induction refs)
    case (Cons a rest)
    then obtain y where y: "find_in d slot rest = Some (Inr y)"
      "\<And>r. y = Some r \<Longrightarrow> slot_of_ref r = slot \<and> (\<exists>a \<in> set rest. (anc_edge d)\<^sup>+\<^sup>+ a r)" by auto
    show ?case
    proof (cases "br_round a \<le> sl_round slot")
      case True
      with y show ?thesis by (auto simp: find_in_Cons)
    next
      case False
      with Cons.prems obtain b where b: "get_block d a = Some b" by (auto simp: dag_refs_def not_le)
      have edge: "anc_edge d a r" if "r \<in> set (vb_ancestors b)" for r
        using that b by (auto simp: anc_edge_def)
      have bound: "\<forall>r \<in> set (vb_ancestors b). unat (br_round r) < unat (br_round a) \<and>
          (sl_round slot < br_round r \<longrightarrow> r \<in> dag_refs d)"
        using edge ok layered_edge closed_above unfolding dag_ok_def word_less_nat_alt by blast
      have "\<exists>x. supported d slot b = Some (Inr x) \<and>
          (\<forall>r. x = Some r \<longrightarrow> slot_of_ref r = slot \<and> (anc_edge d)\<^sup>+\<^sup>+ a r)"
      proof (cases "ancestor_at_slot slot b")
        case None
        have "\<exists>x. find_in d slot (vb_ancestors b) = Some (Inr x) \<and>
            (\<forall>r. x = Some r \<longrightarrow> slot_of_ref r = slot \<and> (\<exists>a' \<in> set (vb_ancestors b). (anc_edge d)\<^sup>+\<^sup>+ a' r))"
          using Cons.prems by (intro less.IH [OF _ bound]) simp
        with None tranclp_into_tranclp2 [of "anc_edge d", OF edge] show ?thesis by (auto simp: supported_def)
      next
        case (Some r)
        with ancestor_at_slot_Some [OF Some] edge show ?thesis by (auto simp: supported_def)
      qed
      then obtain x where "supported d slot b = Some (Inr x)"
        "\<And>r. x = Some r \<Longrightarrow> slot_of_ref r = slot \<and> (anc_edge d)\<^sup>+\<^sup>+ a r" by blast
      with y b False show ?thesis by (cases x) (auto simp: find_in_Cons)
    qed
  qed simp
qed

lemma find_supported_block_total:
  assumes "dag_ok d" and "get_block d q = Some b"
  shows "\<exists>x. find_supported_block d slot b = Inr x \<and>
    (\<forall>r. x = Some r \<longrightarrow> slot_of_ref r = slot \<and> (anc_edge d)\<^sup>+\<^sup>+ q r)"
proof -
  have edge: "anc_edge d q r" if "r \<in> set (vb_ancestors b)" for r
    using that assms(2) by (auto simp: anc_edge_def)
  have "\<forall>r \<in> set (vb_ancestors b). unat (br_round r) < 2 ^ 32 \<and> (sl_round slot < br_round r \<longrightarrow> r \<in> dag_refs d)"
    using edge assms(1) closed_above unsigned_less [where ?'a = nat and ?'b = 32]
    unfolding dag_ok_def by (simp only: len_num1 len_bit0) (simp, blast)
  from find_in_total [OF assms(1) this] obtain x where x: "find_in d slot (vb_ancestors b) = Some (Inr x)"
    "\<forall>r. x = Some r \<longrightarrow> slot_of_ref r = slot \<and> (\<exists>a \<in> set (vb_ancestors b). (anc_edge d)\<^sup>+\<^sup>+ a r)" by blast
  show ?thesis
  proof (cases "ancestor_at_slot slot b")
    case None
    with x tranclp_into_tranclp2 [of "anc_edge d", OF edge] show ?thesis by (auto simp: find_supported_block_def)
  next
    case (Some r)
    with ancestor_at_slot_Some [OF Some] edge show ?thesis by (auto simp: find_supported_block_def)
  qed
qed

lemma ancestor_vote_total:
  assumes "dag_ok d" and "r \<in> dag_refs d \<or> br_round r = 0"
  shows "\<exists>v. ancestor_vote d L r = Inr v"
proof (cases "get_block d r")
  case None
  with assms(2) show ?thesis by (auto simp: ancestor_vote_def gc_round_def dag_refs_def)
next
  case (Some b)
  from find_supported_block_total [OF assms(1) Some, of "slot_of_ref (reference L)"]
  obtain x where "find_supported_block d (slot_of_ref (reference L)) b = Inr x" by blast
  with Some show ?thesis by (simp add: ancestor_vote_def is_vote_def)
qed

lemma ancestor_voteD:
  assumes "dag_ok d" and "ancestor_vote d L r = Inr True"
  shows "\<exists>b. get_block d r = Some b \<and>
      find_supported_block d (slot_of_ref (reference L)) b = Inr (Some (reference L))"
    and "(anc_edge d)\<^sup>+\<^sup>+ r (reference L)" and "br_round (reference L) < br_round r"
proof -
  from assms(2) obtain b where b: "get_block d r = Some b"
    "find_supported_block d (slot_of_ref (reference L)) b = Inr (Some (reference L))"
    by (auto simp: ancestor_vote_def is_vote_def res_simps split: option.splits)
  then show "\<exists>b. get_block d r = Some b \<and>
      find_supported_block d (slot_of_ref (reference L)) b = Inr (Some (reference L))" by blast
  show path: "(anc_edge d)\<^sup>+\<^sup>+ r (reference L)"
    using find_supported_block_total [OF assms(1) b(1), of "slot_of_ref (reference L)"] b(2) by auto
  show "br_round (reference L) < br_round r"
    using layered_trancl [OF _ path] assms(1) by (simp add: dag_ok_def)
qed

text \<open>A block votes for at most one block of a slot.\<close>

lemma ancestor_vote_unique:
  assumes "ancestor_vote d L r = Inr True" and "ancestor_vote d L' r = Inr True" and "vb_slot L = vb_slot L'"
  shows "reference L = reference L'"
  using assms by (auto simp: ancestor_vote_def is_vote_def slot_of_reference res_simps split: option.splits)

text \<open>A vote from the round after the leader's names the leader as an ancestor.\<close>

lemma ancestor_vote_direct:
  assumes "dag_ok d" and "ancestor_vote d L r = Inr True" and "get_block d r = Some b"
    and "unat (br_round r) = unat (vb_round L) + 1"
  shows "reference L \<in> set (vb_ancestors b)"
proof -
  have low: "br_round a \<le> vb_round L" if "a \<in> set (vb_ancestors b)" for a
    using layered_block [OF _ assms(3) that] assms(1,4)
    by (simp add: dag_ok_def word_less_nat_alt word_le_nat_alt)
  have none: "find_in d (slot_of_ref (reference L)) refs = Some (Inr None)"
    if "\<forall>a \<in> set refs. br_round a \<le> vb_round L" for refs
    using that by (induction refs) (simp_all add: find_in_Cons slot_of_ref_def)
  have "find_supported_block d (slot_of_ref (reference L)) b = Inr (Some (reference L))"
    using ancestor_voteD(1) [OF assms(1,2)] assms(3) by simp
  then show ?thesis
    using none [of "vb_ancestors b"] low ancestor_at_slot_Some [of "slot_of_ref (reference L)" b]
    by (auto simp: find_supported_block_def split: if_splits option.splits)
qed

section \<open>The vote cache\<close>

text \<open>The rules without the cache: the counting loop over the votes of the ancestors, and the
  counting loop over the certificates of a round.\<close>

definition certifies :: "DagState \<Rightarrow> Committee \<Rightarrow> VerifiedBlock \<Rightarrow> VerifiedBlock \<Rightarrow> bool res" where
  "certifies d c leader_block cert =
     tally (\<lambda>r. rbind (ancestor_vote d leader_block r) (\<lambda>v. Inr (if v then Some (br_author r) else None)))
       c (vb_ancestors cert) sa_new"

definition certificate_voter ::
  "DagState \<Rightarrow> Committee \<Rightarrow> VerifiedBlock \<Rightarrow> VerifiedBlock \<Rightarrow> AuthorityIndex option res"
where
  "certificate_voter d c leader_block b =
     rbind (certifies d c leader_block b) (\<lambda>v. Inr (if v then Some (br_author (reference b)) else None))"

definition cache_valid :: "DagState \<Rightarrow> VerifiedBlock \<Rightarrow> vote_cache \<Rightarrow> bool" where
  "cache_valid d L cache \<longleftrightarrow> (\<forall>r v. om_get cache r = Some v \<longrightarrow> ancestor_vote d L r = Inr v)"

text \<open>A computation that also returns a cache agrees with one that does not, and leaves a valid
  cache.\<close>

definition cached_as :: "DagState \<Rightarrow> VerifiedBlock \<Rightarrow> (vote_cache \<times> bool) res \<Rightarrow> bool res \<Rightarrow> bool" where
  "cached_as d L x y \<longleftrightarrow>
     (case x of Inl p \<Rightarrow> y = Inl p | Inr (cache, b) \<Rightarrow> y = Inr b \<and> cache_valid d L cache)"

lemma cache_valid_empty [simp]: "cache_valid d L om_empty"
  by (simp add: cache_valid_def)

lemma cached_as_simps [simp]:
  "cached_as d L (Inl p) y \<longleftrightarrow> y = Inl p"
  "cached_as d L (Inr (cache, b)) y \<longleftrightarrow> y = Inr b \<and> cache_valid d L cache"
  by (simp_all add: cached_as_def)

lemma cached_asE:
  assumes "cached_as d L x y"
  obtains (panic) p where "x = Inl p" "y = Inl p"
    | (ret) cache b where "x = Inr (cache, b)" "y = Inr b" "cache_valid d L cache"
  using assms by (cases x) auto

lemma cached_vote_ok:
  assumes "cache_valid d L cache"
  shows "cached_as d L (cached_vote d L r cache) (ancestor_vote d L r)"
proof (cases "om_get cache r")
  case None
  with assms show ?thesis
    by (cases "ancestor_vote d L r") (auto simp: cached_vote_def cache_valid_def)
next
  case (Some v)
  with assms show ?thesis by (simp add: cached_vote_def cache_valid_def)
qed

lemma certificate_loop_ok:
  assumes "cache_valid d L cache"
  shows "cached_as d L (certificate_loop d c L rs agg cache)
    (tally (\<lambda>r. rbind (ancestor_vote d L r) (\<lambda>v. Inr (if v then Some (br_author r) else None))) c rs agg)"
  using assms
proof (induction rs arbitrary: agg cache)
  case (Cons r rs)
  from cached_vote_ok [OF Cons.prems, of r] show ?case
  proof (cases rule: cached_asE)
    case (ret cache' v)
    show ?thesis
    proof (cases v)
      case True
      show ?thesis
      proof (cases "sa_add QuorumThreshold (br_author r) c agg")
        case (Inr x)
        with ret True Cons.IH show ?thesis by (cases x) auto
      qed (simp add: ret True)
    qed (simp add: ret Cons.IH)
  qed simp
qed simp

lemma is_certificate_ok:
  assumes "cache_valid d L cache"
  shows "cached_as d L (is_certificate bc d b L cache) (certifies d (committee (bc_context bc)) L b)"
  unfolding is_certificate_def certifies_def by (rule certificate_loop_ok [OF assms])

lemma support_loop_ok:
  assumes "cache_valid d L cache"
  shows "support_loop bc d L bs agg cache =
    tally (certificate_voter d (committee (bc_context bc)) L) (committee (bc_context bc)) bs agg"
  using assms
proof (induction bs arbitrary: agg cache)
  case (Cons b bs)
  from is_certificate_ok [OF Cons.prems, of bc b] show ?case
  proof (cases rule: cached_asE)
    case (ret cache' v)
    show ?thesis
    proof (cases v)
      case True
      show ?thesis
      proof (cases "sa_add QuorumThreshold (br_author (reference b)) (committee (bc_context bc)) agg")
        case (Inr x)
        with ret True Cons.IH show ?thesis by (cases x) (auto simp: certificate_voter_def)
      qed (use ret True in \<open>simp add: certificate_voter_def\<close>)
    qed (use ret Cons.IH in \<open>simp add: certificate_voter_def\<close>)
  qed (simp add: certificate_voter_def)
qed simp

text \<open>\<^verbatim>\<open>any\<close> without the cache: the first certificate stops the search.\<close>

fun any_certifies :: "DagState \<Rightarrow> Committee \<Rightarrow> VerifiedBlock \<Rightarrow> VerifiedBlock list \<Rightarrow> bool res" where
  "any_certifies d c L [] = Inr False"
| "any_certifies d c L (b # bs) = rbind (certifies d c L b) (\<lambda>v. if v then Inr True else any_certifies d c L bs)"

lemma any_certificate_ok:
  assumes "cache_valid d L cache"
  shows "any_certificate bc d L bs cache = any_certifies d (committee (bc_context bc)) L bs"
  using assms
proof (induction bs arbitrary: cache)
  case (Cons b bs)
  from is_certificate_ok [OF Cons.prems, of bc b] Cons.IH show ?case
    by (cases rule: cached_asE) auto
qed simp

section \<open>What the counts mean\<close>

text \<open>The authors of the votes for \<open>L\<close> among the ancestors of a block, and of the blocks of a round
  that have no ancestor by the leader.\<close>

definition supporters :: "DagState \<Rightarrow> VerifiedBlock \<Rightarrow> VerifiedBlock \<Rightarrow> AuthorityIndex set" where
  "supporters d L cert = {br_author r |r. r \<in> set (vb_ancestors cert) \<and> ancestor_vote d L r = Inr True}"

definition blamers :: "DagState \<Rightarrow> Round \<Rightarrow> AuthorityIndex \<Rightarrow> AuthorityIndex set" where
  "blamers d rnd leader = {br_author r |r b. om_get (ds_blocks d) r = Some b \<and> br_round r = rnd \<and>
     \<not> is_committed d r \<and> (\<forall>a \<in> set (vb_ancestors b). br_author a \<noteq> leader)}"

definition is_cert :: "DagState \<Rightarrow> VerifiedBlock \<Rightarrow> VerifiedBlock \<Rightarrow> bool" where
  "is_cert d L cert \<longleftrightarrow>
     unat (cm_quorum_threshold (dag_committee d)) \<le> sum (weight (dag_committee d)) (supporters d L cert)"

definition certifiers :: "DagState \<Rightarrow> Round \<Rightarrow> VerifiedBlock \<Rightarrow> AuthorityIndex set" where
  "certifiers d rnd L = {br_author r |r b. om_get (ds_blocks d) r = Some b \<and> br_round r = rnd \<and>
     \<not> is_committed d r \<and> is_cert d L b}"

lemma ancestors_known:
  assumes "dag_ok d" and "get_block d q = Some b" and "r \<in> set (vb_ancestors b)"
  shows "r \<in> dag_refs d \<or> br_round r = 0"
  using assms word_neq_0_conv [of "br_round r"] unfolding dag_ok_def closed_def anc_edge_def by blast

lemma supporter_valid:
  assumes "dag_ok d" and "ancestor_vote d L r = Inr True"
  shows "is_valid_index (dag_committee d) (br_author r)"
proof -
  have "0 < br_round r" using ancestor_voteD(3) [OF assms] by (rule le_less_trans [OF word_zero_le])
  with ancestor_voteD(1) [OF assms] assms(1) show ?thesis
    using get_block_above_genesis [of d r] dag_inv_blockD(2) [of d r] by (auto simp: dag_ok_def)
qed

lemma certifies_value:
  assumes "dag_ok d" and "get_block d q = Some b"
  shows "certifies d (dag_committee d) L b = Inr (is_cert d L b)"
proof -
  let ?voter = "\<lambda>r. rbind (ancestor_vote d L r) (\<lambda>v. Inr (if v then Some (br_author r) else None))"
  have "\<exists>v. ?voter r = Inr v \<and> (\<forall>a. v = Some a \<longrightarrow> is_valid_index (dag_committee d) a)"
    if r: "r \<in> set (vb_ancestors b)" for r
  proof -
    from ancestor_vote_total [OF assms(1) ancestors_known [OF assms r], of L]
    obtain v where "ancestor_vote d L r = Inr v" by blast
    with supporter_valid [OF assms(1), of L r] show ?thesis by auto
  qed
  moreover have "ballots ?voter (vb_ancestors b) = supporters d L b"
    by (auto simp: ballots_def supporters_def res_simps split: if_splits)
  moreover have "wf_committee (dag_committee d)" using assms(1) by (simp add: dag_ok_def dag_inv_def)
  ultimately show ?thesis
    unfolding certifies_def is_cert_def by (subst tally_counts) auto
qed

text \<open>The committer belongs to the DAG it reads.\<close>

definition reads :: "BaseCommitter \<Rightarrow> DagState \<Rightarrow> bool" where
  "reads bc d \<longleftrightarrow> committee (bc_context bc) = dag_committee d"

lemma round_block:
  assumes "dag_inv d" and "om_get (ds_blocks d) (reference b) = Some b"
  shows "\<exists>q. get_block d q = Some b" and "is_valid_index (dag_committee d) (vb_author b)"
  using assms dag_inv_blockD(2) [OF assms] by (auto simp: get_block_def intro!: exI [of _ "reference b"])

lemma round_authors:
  assumes "dag_inv d" and "\<And>b. b \<in> set bs \<longleftrightarrow> om_get (ds_blocks d) (reference b) = Some b \<and>
      vb_round b = rnd \<and> \<not> is_committed d (reference b)"
  shows "{a. \<exists>b \<in> set bs. P b \<and> vb_author b = a} = {br_author r |r b. om_get (ds_blocks d) r = Some b \<and>
    br_round r = rnd \<and> \<not> is_committed d r \<and> P b}" (is "?A = ?B")
proof
  show "?A \<subseteq> ?B"
  proof
    fix a assume "a \<in> ?A"
    then obtain b where "b \<in> set bs" "P b" "vb_author b = a" by blast
    then show "a \<in> ?B"
      unfolding assms(2) by (auto intro!: exI [of _ "reference b"] exI [of _ b])
  qed
  show "?B \<subseteq> ?A"
  proof
    fix a assume "a \<in> ?B"
    then obtain r b where b: "om_get (ds_blocks d) r = Some b" "br_round r = rnd" "\<not> is_committed d r" "P b"
      "a = br_author r" by blast
    have r: "reference b = r" by (rule dag_inv_blockD(1) [OF assms(1) b(1)])
    with b have "b \<in> set bs" unfolding assms(2) by (metis reference_sel(1))
    with b r show "a \<in> ?A" by auto
  qed
qed

lemma blame_value:
  assumes "dag_ok d" and "reads bc d" and "0 < rnd" and "rnd \<noteq> - 1"
  shows "enough_leader_blame bc d rnd leader =
    Inr (unat (cm_quorum_threshold (dag_committee d)) \<le> sum (weight (dag_committee d)) (blamers d rnd leader))"
proof -
  let ?voter = "\<lambda>b. Inr (if list_all (\<lambda>a. br_author a \<noteq> leader) (vb_ancestors b)
      then Some (br_author (reference b)) else None) :: AuthorityIndex option res"
  have inv: "dag_inv d" and wf: "wf_committee (dag_committee d)"
    using assms(1) by (simp_all add: dag_ok_def dag_inv_def)
  obtain bs where bs: "get_uncommitted_blocks_at_round d rnd = Inr bs"
    "\<And>b. b \<in> set bs \<longleftrightarrow> om_get (ds_blocks d) (reference b) = Some b \<and> vb_round b = rnd \<and>
       \<not> is_committed d (reference b)"
    using at_round_iff [OF inv assms(4)] by blast
  have "ballots ?voter bs = blamers d rnd leader"
    unfolding blamers_def round_authors [OF inv bs(2), symmetric]
    by (auto simp: ballots_def list_all_iff split: if_splits)
  moreover have "tally ?voter (dag_committee d) bs sa_new =
      Inr (unat (cm_quorum_threshold (dag_committee d)) \<le> sum (weight (dag_committee d)) (ballots ?voter bs))"
    using round_block(2) [OF inv] by (intro tally_counts [OF wf]) (auto simp: bs(2))
  ultimately show ?thesis
    using assms(2,3) bs(1) by (simp add: enough_leader_blame_def reads_def)
qed

lemma support_value:
  assumes "dag_ok d" and "reads bc d" and "0 < rnd" and "rnd \<noteq> - 1"
  shows "enough_leader_support bc d rnd L =
    Inr (unat (cm_quorum_threshold (dag_committee d)) \<le> sum (weight (dag_committee d)) (certifiers d rnd L))"
proof -
  let ?voter = "certificate_voter d (dag_committee d) L"
  have inv: "dag_inv d" and wf: "wf_committee (dag_committee d)"
    using assms(1) by (simp_all add: dag_ok_def dag_inv_def)
  obtain bs where bs: "get_uncommitted_blocks_at_round d rnd = Inr bs"
    "\<And>b. b \<in> set bs \<longleftrightarrow> om_get (ds_blocks d) (reference b) = Some b \<and> vb_round b = rnd \<and>
       \<not> is_committed d (reference b)"
    using at_round_iff [OF inv assms(4)] by blast
  have voter: "?voter b = Inr (if is_cert d L b then Some (vb_author b) else None)" if "b \<in> set bs" for b
    using that round_block(1) [OF inv, of b] certifies_value [OF assms(1), of _ b L]
    by (auto simp: certificate_voter_def bs(2))
  then have "ballots ?voter bs = certifiers d rnd L"
    unfolding certifiers_def round_authors [OF inv bs(2), symmetric]
    by (auto simp: ballots_def split: if_splits)
  moreover have "tally ?voter (dag_committee d) bs sa_new =
      Inr (unat (cm_quorum_threshold (dag_committee d)) \<le> sum (weight (dag_committee d)) (ballots ?voter bs))"
    using round_block(2) [OF inv] by (intro tally_counts [OF wf]) (auto simp: bs(2) voter)
  ultimately show ?thesis
    using assms(2,3) bs(1) by (simp add: enough_leader_support_def reads_def support_loop_ok)
qed

section \<open>Two views of the DAG\<close>

text \<open>The DAGs of two nodes, or of one node at two times: whatever both store, they agree on.\<close>

definition consistent :: "DagState \<Rightarrow> DagState \<Rightarrow> bool" where
  "consistent d d' \<longleftrightarrow> dag_committee d = dag_committee d' \<and>
     (\<forall>r b b'. get_block d r = Some b \<longrightarrow> get_block d' r = Some b' \<longrightarrow> b = b')"

lemma consistent_refl [simp]: "consistent d d"
  by (simp add: consistent_def)

lemma consistent_sym: "consistent d d' \<Longrightarrow> consistent d' d"
  unfolding consistent_def by metis

lemma consistent_get:
  "consistent d d' \<Longrightarrow> r \<in> dag_refs d' \<Longrightarrow> get_block d r = Some b \<Longrightarrow> get_block d' r = Some b"
  by (auto simp: consistent_def dag_refs_def)

lemma find_in_view:
  assumes ok: "dag_ok d" "dag_ok d'" and cons: "consistent d d'"
    and "\<forall>a \<in> set refs. unat (br_round a) < n \<and>
      (sl_round slot < br_round a \<longrightarrow> a \<in> dag_refs d \<and> a \<in> dag_refs d')"
  shows "find_in d slot refs = find_in d' slot refs"
  using assms(4)
proof (induction n arbitrary: refs rule: less_induct)
  case (less n)
  from less.prems show ?case
  proof (induction refs)
    case (Cons a rest)
    then have rest: "find_in d slot rest = find_in d' slot rest" by simp
    show ?case
    proof (cases "br_round a \<le> sl_round slot")
      case True
      with rest show ?thesis by (simp add: find_in_Cons)
    next
      case False
      with Cons.prems obtain b where b: "get_block d a = Some b" by (auto simp: dag_refs_def not_le)
      with consistent_get [OF cons] Cons.prems False have b': "get_block d' a = Some b" by (simp add: not_le)
      have edge: "anc_edge d a r \<and> anc_edge d' a r" if "r \<in> set (vb_ancestors b)" for r
        using that b b' by (auto simp: anc_edge_def)
      have bound: "\<forall>r \<in> set (vb_ancestors b). unat (br_round r) < unat (br_round a) \<and>
          (sl_round slot < br_round r \<longrightarrow> r \<in> dag_refs d \<and> r \<in> dag_refs d')"
        using edge ok layered_edge closed_above unfolding dag_ok_def word_less_nat_alt by blast
      have "find_in d slot (vb_ancestors b) = find_in d' slot (vb_ancestors b)"
        using Cons.prems by (intro less.IH [OF _ bound]) simp
      then have "supported d slot b = supported d' slot b" by (simp add: supported_def split: option.splits)
      with rest b b' False show ?thesis by (simp add: find_in_Cons)
    qed
  qed simp
qed

lemma ancestor_vote_view:
  assumes ok: "dag_ok d" "dag_ok d'" and cons: "consistent d d'" and "r \<in> dag_refs d" and "r \<in> dag_refs d'"
  shows "ancestor_vote d L r = ancestor_vote d' L r"
proof -
  from assms(4) obtain b where b: "get_block d r = Some b" by (auto simp: dag_refs_def)
  then have b': "get_block d' r = Some b" by (rule consistent_get [OF cons assms(5)])
  have edge: "anc_edge d r a \<and> anc_edge d' r a" if "a \<in> set (vb_ancestors b)" for a
    using that b b' by (auto simp: anc_edge_def)
  have "\<forall>a \<in> set (vb_ancestors b). unat (br_round a) < 2 ^ 32 \<and>
      (s < br_round a \<longrightarrow> a \<in> dag_refs d \<and> a \<in> dag_refs d')" for s
    using edge ok closed_above unsigned_less [where ?'a = nat and ?'b = 32]
    unfolding dag_ok_def by (simp only: len_num1 len_bit0) (simp, blast)
  from find_in_view [OF ok cons this] b b' show ?thesis
    by (simp add: ancestor_vote_def is_vote_def find_supported_block_def split: option.splits)
qed

lemma supporters_view:
  assumes ok: "dag_ok d" "dag_ok d'" and cons: "consistent d d'"
    and q: "get_block d q = Some C" "get_block d' q = Some C"
  shows "supporters d L C \<subseteq> supporters d' L C"
proof
  fix a assume "a \<in> supporters d L C"
  then obtain r where r: "r \<in> set (vb_ancestors C)" "ancestor_vote d L r = Inr True" "a = br_author r"
    by (auto simp: supporters_def)
  have pos: "0 < br_round r" using ancestor_voteD(3) [OF ok(1) r(2)] by (rule le_less_trans [OF word_zero_le])
  with ancestors_known [OF ok(1) q(1) r(1)] ancestors_known [OF ok(2) q(2) r(1)]
  have "r \<in> dag_refs d" "r \<in> dag_refs d'" by auto
  from ancestor_vote_view [OF ok cons this] r show "a \<in> supporters d' L C" by (auto simp: supporters_def)
qed

lemma is_cert_view:
  assumes "dag_ok d" "dag_ok d'" "consistent d d'" "get_block d q = Some C" "get_block d' q = Some C"
  shows "is_cert d L C = is_cert d' L C"
proof -
  have "supporters d L C = supporters d' L C"
    using supporters_view [OF assms] supporters_view [OF assms(2,1) consistent_sym [OF assms(3)] assms(5,4)]
    by blast
  with assms(3) show ?thesis by (simp add: is_cert_def consistent_def)
qed

section \<open>Safety of the commit rules\<close>

text \<open>The authorities with two different blocks in a round, in one of the views or between them.\<close>

definition equivocators :: "DagState \<Rightarrow> DagState \<Rightarrow> Round \<Rightarrow> AuthorityIndex set" where
  "equivocators d d' rnd = {br_author r |r r'. r \<in> dag_refs d \<union> dag_refs d' \<and> r' \<in> dag_refs d \<union> dag_refs d' \<and>
     r \<noteq> r' \<and> br_round r = rnd \<and> br_round r' = rnd \<and> br_author r = br_author r'}"

definition few_equivocators :: "DagState \<Rightarrow> DagState \<Rightarrow> Round \<Rightarrow> bool" where
  "few_equivocators d d' rnd \<longleftrightarrow>
     sum (weight (dag_committee d)) (equivocators d d' rnd) \<le> fault_tolerance (dag_committee d)"

text \<open>Two quorums of authors of blocks of one round, one in each view, share a block.\<close>

lemma shared_block:
  assumes "wf_committee (dag_committee d)" and "few_equivocators d d' rnd"
    and "cq.is_quorum (dag_committee d) A" and "cq.is_quorum (dag_committee d) B"
    and "\<And>a. a \<in> A \<Longrightarrow> \<exists>r \<in> dag_refs d. br_author r = a \<and> br_round r = rnd \<and> P r"
    and "\<And>a. a \<in> B \<Longrightarrow> \<exists>r \<in> dag_refs d'. br_author r = a \<and> br_round r = rnd \<and> Q r"
  shows "\<exists>r. r \<in> dag_refs d \<and> r \<in> dag_refs d' \<and> br_round r = rnd \<and> P r \<and> Q r"
proof -
  obtain a where a: "a \<in> A" "a \<in> B" "a \<notin> equivocators d d' rnd"
    using cq.correct_member [OF assms(1,3,4) assms(2) [unfolded few_equivocators_def]] by auto
  obtain r where r: "r \<in> dag_refs d" "br_author r = a" "br_round r = rnd" "P r" using assms(5) [OF a(1)] by blast
  obtain r' where r': "r' \<in> dag_refs d'" "br_author r' = a" "br_round r' = rnd" "Q r'"
    using assms(6) [OF a(2)] by blast
  have "r = r'"
  proof (rule ccontr)
    assume "r \<noteq> r'"
    with r r' have "br_author r \<in> equivocators d d' rnd"
      unfolding equivocators_def by (intro CollectI exI [of _ r] exI [of _ r']) simp
    with r(2) a(3) show False by simp
  qed
  with r r' show ?thesis by blast
qed

text \<open>The leader, voting and decision rounds of a wave of length three.\<close>

definition wave3 :: "Round \<Rightarrow> Round \<Rightarrow> Round \<Rightarrow> bool" where
  "wave3 l v c \<longleftrightarrow> unat v = unat l + 1 \<and> unat c = unat l + 2"

lemma supporter_voting_block:
  assumes "dag_ok d" and "get_block d q = Some C" and "wave3 (vb_round L) v (br_round q)"
    and "a \<in> supporters d L C"
  shows "\<exists>r \<in> dag_refs d. br_author r = a \<and> br_round r = v \<and> ancestor_vote d L r = Inr True"
proof -
  from assms(4) obtain r where r: "br_author r = a" "r \<in> set (vb_ancestors C)" "ancestor_vote d L r = Inr True"
    by (auto simp: supporters_def)
  have "vb_round L < br_round r" using ancestor_voteD(3) [OF assms(1) r(3)] by simp
  moreover have "br_round r < br_round q"
    using layered_block [OF _ assms(2) r(2)] assms(1) by (simp add: dag_ok_def)
  ultimately have "br_round r = v"
    using assms(3) by (simp add: word_less_nat_alt word_unat_eq_iff wave3_def)
  moreover have "r \<in> dag_refs d" using ancestor_voteD(1) [OF assms(1) r(3)] by (auto simp: dag_refs_def)
  ultimately show ?thesis using r by blast
qed

lemma supporters_quorum:
  assumes "dag_ok d" and "is_cert d L C"
  shows "cq.is_quorum (dag_committee d) (supporters d L C)"
  using assms supporter_valid [OF assms(1), of L]
  by (auto simp: cq.is_quorum_def is_cert_def supporters_def members_def)

lemma dag_ok_wf: "dag_ok d \<Longrightarrow> wf_committee (dag_committee d)"
  by (simp add: dag_ok_def dag_inv_def)

lemma certified_unique:
  assumes ok: "dag_ok d" "dag_ok d'" and cons: "consistent d d'" and few: "few_equivocators d d' v"
    and C: "get_block d q = Some C" "wave3 (vb_round L) v (br_round q)" "is_cert d L C"
    and C': "get_block d' q' = Some C'" "wave3 (vb_round L) v (br_round q')" "is_cert d' L' C'"
    and slot: "vb_slot L = vb_slot L'"
  shows "reference L = reference L'"
proof -
  have rnd: "vb_round L' = vb_round L" using slot by (simp flip: slot_of_reference add: slot_of_ref_def)
  then have wave: "wave3 (vb_round L') v (br_round q')" using C'(2) by simp
  have comm: "dag_committee d' = dag_committee d" using cons by (simp add: consistent_def)
  obtain r where r: "r \<in> dag_refs d" "r \<in> dag_refs d'" "ancestor_vote d L r = Inr True"
    "ancestor_vote d' L' r = Inr True"
    using shared_block [OF dag_ok_wf [OF ok(1)] few supporters_quorum [OF ok(1) C(3)]
        supporters_quorum [OF ok(2) C'(3), unfolded comm]
        supporter_voting_block [OF ok(1) C(1,2)] supporter_voting_block [OF ok(2) C'(1) wave]] by blast
  with ancestor_vote_view [OF ok cons r(1,2), of L] slot show ?thesis using ancestor_vote_unique by metis
qed

lemma blamer_block:
  assumes "dag_inv d" and "a \<in> blamers d v leader"
  shows "\<exists>r \<in> dag_refs d. br_author r = a \<and> br_round r = v \<and>
    (\<forall>b. get_block d r = Some b \<longrightarrow> (\<forall>x \<in> set (vb_ancestors b). br_author x \<noteq> leader))"
  using assms(2) by (force simp: blamers_def dag_refs_def get_block_def)

lemma blamers_members: "dag_inv d \<Longrightarrow> blamers d v leader \<subseteq> members (dag_committee d)"
  by (auto simp: blamers_def members_def dest: dag_inv_blockD(2))

lemma certifiers_members: "dag_inv d \<Longrightarrow> certifiers d v L \<subseteq> members (dag_committee d)"
  by (auto simp: certifiers_def members_def dest: dag_inv_blockD(2))

lemma blame_excludes_certificate:
  assumes ok: "dag_ok d" "dag_ok d'" and cons: "consistent d d'" and few: "few_equivocators d d' v"
    and C: "get_block d q = Some C" "wave3 (vb_round L) v (br_round q)" "is_cert d L C"
  shows "\<not> unat (cm_quorum_threshold (dag_committee d')) \<le>
    sum (weight (dag_committee d')) (blamers d' v (vb_author L))"
proof
  assume blame: "unat (cm_quorum_threshold (dag_committee d')) \<le>
    sum (weight (dag_committee d')) (blamers d' v (vb_author L))"
  have comm: "dag_committee d' = dag_committee d" using cons by (simp add: consistent_def)
  have inv: "dag_inv d'" using ok(2) by (simp add: dag_ok_def)
  have quorum: "cq.is_quorum (dag_committee d) (blamers d' v (vb_author L))"
    using blame blamers_members [OF inv] by (simp add: cq.is_quorum_def comm)
  obtain r where r: "r \<in> dag_refs d" "r \<in> dag_refs d'" "br_round r = v" "ancestor_vote d L r = Inr True"
    and no: "\<And>b. get_block d' r = Some b \<Longrightarrow> \<forall>x \<in> set (vb_ancestors b). br_author x \<noteq> vb_author L"
    using shared_block [OF dag_ok_wf [OF ok(1)] few supporters_quorum [OF ok(1) C(3)] quorum
        supporter_voting_block [OF ok(1) C(1,2)] blamer_block [OF inv, of _ v "vb_author L"]] by blast
  from r(1) obtain b where b: "get_block d r = Some b" by (auto simp: dag_refs_def)
  have "reference L \<in> set (vb_ancestors b)"
    using C(2) r(3) by (intro ancestor_vote_direct [OF ok(1) r(4) b]) (simp add: wave3_def)
  with no [OF consistent_get [OF cons r(2) b]] show False by auto
qed

section \<open>Leader election\<close>

text \<open>A committer as its constructor builds it, on a committee the committee constructor built.\<close>

definition bc_ok :: "BaseCommitter \<Rightarrow> bool" where
  "bc_ok bc \<longleftrightarrow> 3 \<le> bo_wave_length (bc_options bc) \<and> wf_committee (committee (bc_context bc))"

definition size32 :: "BaseCommitter \<Rightarrow> u32" where
  "size32 bc = word_of_nat (committee_size (committee (bc_context bc)))"

text \<open>The rounds the committer is responsible for.\<close>

definition is_leader :: "BaseCommitter \<Rightarrow> Round \<Rightarrow> bool" where
  "is_leader bc rnd \<longleftrightarrow> bo_round_offset (bc_options bc) \<le> rnd \<and>
     (unat rnd - unat (bo_round_offset (bc_options bc))) mod unat (bo_wave_length (bc_options bc)) = 0"

lemma size32_pos: "bc_ok bc \<Longrightarrow> size32 bc \<noteq> 0 \<and> unat (size32 bc) = committee_size (committee (bc_context bc))"
proof -
  assume "bc_ok bc"
  then have "0 < committee_size (committee (bc_context bc))"
    "committee_size (committee (bc_context bc)) < 2 ^ 32"
    by (auto simp: bc_ok_def wf_committee_def committee_size_def)
  then have "unat (size32 bc) = committee_size (committee (bc_context bc))"
    by (simp add: size32_def unat_of_nat)
  with \<open>0 < committee_size (committee (bc_context bc))\<close> show ?thesis by (auto simp flip: unat_0_iff)
qed

lemma wave_number_value:
  assumes "bc_ok bc"
  shows "\<exists>w. wave_number bc rnd = Inr w \<and> unat w =
    (unat rnd - unat (bo_round_offset (bc_options bc))) div unat (bo_wave_length (bc_options bc))"
proof -
  have "bo_wave_length (bc_options bc) \<noteq> 0" using assms by (auto simp: bc_ok_def)
  then show ?thesis by (simp add: wave_number_def checked_div_def unat_div unat_saturating_sub)
qed

lemma leader_round_value:
  assumes "unat w * unat (bo_wave_length (bc_options bc)) + unat (bo_round_offset (bc_options bc)) < 2 ^ 32"
  shows "\<exists>r. leader_round bc w = Inr r \<and>
    unat r = unat w * unat (bo_wave_length (bc_options bc)) + unat (bo_round_offset (bc_options bc))"
proof -
  have m: "unat w * unat (bo_wave_length (bc_options bc)) < 2 ^ LENGTH(32)" using assms by simp
  have "checked_mul w (bo_wave_length (bc_options bc)) = Inr (w * bo_wave_length (bc_options bc))"
    using m by (simp add: checked_mul_def)
  moreover note unat_mult_lt [OF m]
  moreover have "unat (w * bo_wave_length (bc_options bc)) + unat (bo_round_offset (bc_options bc)) < 2 ^ LENGTH(32)"
    using assms by (simp add: unat_mult_lt [OF m])
  ultimately show ?thesis
    by (simp add: leader_round_def checked_add_def unat_add_lt)
qed

lemma elect_leader_value:
  assumes "bc_ok bc"
  shows "elect_leader bc rnd =
    Inr (if is_leader bc rnd then Some (Slot rnd ((rnd + bo_leader_offset (bc_options bc)) mod size32 bc)) else None)"
proof -
  let ?wl = "unat (bo_wave_length (bc_options bc))" and ?off = "unat (bo_round_offset (bc_options bc))"
  let ?n = "unat rnd - ?off"
  obtain w where w: "wave_number bc rnd = Inr w" "unat w = ?n div ?wl"
    using wave_number_value [OF assms] by blast
  have div_le: "?n div ?wl * ?wl \<le> ?n" by (rule div_times_less_eq_dividend)
  have "unat rnd < 2 ^ 32" "?off < 2 ^ 32"
    using unsigned_less [where ?'a = nat, of rnd] unsigned_less [where ?'a = nat, of "bo_round_offset (bc_options bc)"]
    by simp_all
  then have "unat w * ?wl + ?off < 2 ^ 32" unfolding w(2) using div_le by linarith
  then obtain lr where lr: "leader_round bc w = Inr lr" "unat lr = ?n div ?wl * ?wl + ?off"
    using leader_round_value [of w bc] w(2) by auto
  have "lr = rnd \<longleftrightarrow> is_leader bc rnd"
  proof -
    have "lr = rnd \<longleftrightarrow> ?n div ?wl * ?wl + ?off = unat rnd" by (simp add: word_unat_eq_iff lr(2))
    also have "\<dots> \<longleftrightarrow> ?off \<le> unat rnd \<and> ?n div ?wl * ?wl = ?n" using div_le by linarith
    also have "?n div ?wl * ?wl = ?n \<longleftrightarrow> ?n mod ?wl = 0"
      using div_mult_mod_eq [of ?n ?wl] by linarith
    finally show ?thesis by (simp add: is_leader_def word_le_nat_alt)
  qed
  with w lr size32_pos [OF assms] show ?thesis
    by (simp add: elect_leader_def elect_leader_index_def size32_def [symmetric] checked_rem_def Let_def)
qed

lemma decision_round_value:
  assumes "bc_ok bc" and "is_leader bc rnd" and "unat rnd + unat (bo_wave_length (bc_options bc)) < 2 ^ 32"
  shows "\<exists>w dr. wave_number bc rnd = Inr w \<and> decision_round bc w = Inr dr \<and>
    unat dr = unat rnd + unat (bo_wave_length (bc_options bc)) - 1"
proof -
  let ?wl = "bo_wave_length (bc_options bc)" and ?off = "bo_round_offset (bc_options bc)"
  let ?n = "unat rnd - unat ?off"
  obtain w where w: "wave_number bc rnd = Inr w" "unat w = ?n div unat ?wl"
    using wave_number_value [OF assms(1)] by blast
  have wn: "unat w * unat ?wl = ?n" using assms(2) w(2) by (auto simp: is_leader_def)
  have off: "unat ?off \<le> unat rnd" using assms(2) by (simp add: is_leader_def word_le_nat_alt)
  have wl: "1 \<le> unat ?wl" using assms(1) by (simp add: bc_ok_def word_le_nat_alt)
  have x: "checked_mul w ?wl = Inr (w * ?wl)" "unat (w * ?wl) = ?n"
    using wn assms(3) by (simp_all add: checked_mul_def unat_mult_lt)
  have y: "checked_add (w * ?wl) ?wl = Inr (w * ?wl + ?wl)" "unat (w * ?wl + ?wl) = ?n + unat ?wl"
    using x(2) assms(3) by (simp_all add: checked_add_def unat_add_lt)
  have one: "1 \<le> w * ?wl + ?wl" using y(2) wl by (simp add: word_le_nat_alt)
  then have z: "checked_sub (w * ?wl + ?wl) 1 = Inr (w * ?wl + ?wl - 1)"
    "unat (w * ?wl + ?wl - 1) = ?n + unat ?wl - 1"
    using y(2) by (simp_all add: checked_sub_def unat_sub)
  have "checked_add (w * ?wl + ?wl - 1) ?off = Inr (w * ?wl + ?wl - 1 + ?off)"
    "unat (w * ?wl + ?wl - 1 + ?off) = unat rnd + unat ?wl - 1"
    using z(2) off wl assms(3) by (simp_all add: checked_add_def unat_add_lt)
  with w x(1) y(1) z(1) show ?thesis by (simp add: decision_round_def Let_def)
qed

section \<open>The outcome of the rules\<close>

text \<open>A leader slot of a committer with waves of three rounds, with the voting and the decision
  round, away from the last round number.\<close>

definition leader_slot3 :: "BaseCommitter \<Rightarrow> DagState \<Rightarrow> Slot \<Rightarrow> bool" where
  "leader_slot3 bc d s \<longleftrightarrow> dag_ok d \<and> bc_ok bc \<and> reads bc d \<and> bo_wave_length (bc_options bc) = 3 \<and>
     is_leader bc (sl_round s) \<and> 0 < sl_round s \<and> unat (sl_round s) + 3 < 2 ^ 32"

definition candidates :: "DagState \<Rightarrow> Slot \<Rightarrow> (VerifiedBlock \<Rightarrow> bool) \<Rightarrow> VerifiedBlock set" where
  "candidates d s P = {L. om_get (ds_blocks d) (reference L) = Some L \<and> vb_slot L = s \<and>
     \<not> is_committed d (reference L) \<and> P L}"

text \<open>The end of both rules: at most one candidate, or a panic.\<close>

lemma pick_candidate:
  assumes "dag_inv d" and "\<And>L L'. L \<in> candidates d s P \<Longrightarrow> L' \<in> candidates d s P \<Longrightarrow> reference L = reference L'"
  shows "\<exists>Ls. filter P (get_uncommitted_blocks_at_slot d s) = Ls \<and> set Ls = candidates d s P \<and>
    (Ls = [] \<or> (\<exists>L. Ls = [L]))"
proof -
  let ?Ls = "filter P (get_uncommitted_blocks_at_slot d s)"
  have set: "set ?Ls = candidates d s P"
    by (auto simp: candidates_def at_slot_iff [OF assms(1)])
  have dist: "distinct ?Ls"
    using sorted_refs_distinct [OF sorted_range [OF assms(1)]]
    by (simp add: get_uncommitted_blocks_at_slot_def)
  have eq: "L = L'" if "L \<in> set ?Ls" "L' \<in> set ?Ls" for L L'
  proof -
    have L: "L \<in> candidates d s P" "L' \<in> candidates d s P" using that by (simp_all only: set)
    then have "om_get (ds_blocks d) (reference L) = Some L" "om_get (ds_blocks d) (reference L') = Some L'"
      by (simp_all add: candidates_def)
    with assms(2) [OF L] show ?thesis by (metis option.inject)
  qed
  have "?Ls = [] \<or> (\<exists>L. ?Ls = [L])"
  proof (cases ?Ls)
    case (Cons L rest)
    have "rest = []"
    proof (cases rest)
      case (Cons L' rest')
      with \<open>?Ls = L # rest\<close> eq [of L L'] have "L = L'" by simp
      with dist \<open>?Ls = L # rest\<close> Cons show ?thesis by simp
    qed simp
    with Cons show ?thesis by simp
  qed simp
  with set show ?thesis by blast
qed

lemma leader_slot3_rounds:
  assumes "leader_slot3 bc d s"
  shows "\<exists>v w dr. checked_add (sl_round s) 1 = Inr v \<and> wave_number bc (sl_round s) = Inr w \<and>
    decision_round bc w = Inr dr \<and> v = sl_round s + 1 \<and> dr = sl_round s + 2 \<and> wave3 (sl_round s) v dr \<and>
    0 < v \<and> v \<noteq> - 1 \<and> 0 < dr \<and> dr \<noteq> - 1"
proof -
  let ?R = "sl_round s"
  have R: "unat ?R + 3 < 2 ^ 32" using assms by (simp add: leader_slot3_def)
  then have u: "unat (?R + 1) = unat ?R + 1" "unat (?R + 2) = unat ?R + 2"
    by (simp_all add: unat_add_lt)
  obtain w dr where w: "wave_number bc ?R = Inr w" "decision_round bc w = Inr dr" "unat dr = unat ?R + 2"
    using decision_round_value [of bc ?R] assms by (auto simp: leader_slot3_def)
  have dr: "dr = ?R + 2" using w(3) u(2) by (simp add: word_unat_eq_iff)
  have neg: "x \<noteq> - 1" if "unat x + 1 < 2 ^ 32" for x :: Round
    using that by (auto simp: unsigned_minus_1_eq_mask mask_eq_exp_minus_1)
  have "checked_add ?R 1 = Inr (?R + 1)" using R by (simp add: checked_add_def)
  moreover have "0 < ?R + 1" "0 < dr" using u w(3) by (simp_all add: word_less_nat_alt)
  moreover have "?R + 1 \<noteq> - 1" "dr \<noteq> - 1" using neg [of "?R + 1"] neg [of dr] u w(3) R by simp_all
  ultimately show ?thesis using w dr u by (simp add: wave3_def)
qed

lemma is_cert_certifiers:
  assumes "dag_ok d" and "unat (cm_quorum_threshold (dag_committee d)) \<le> sum (weight (dag_committee d)) (certifiers d dr L)"
  shows "\<exists>q C. get_block d q = Some C \<and> br_round q = dr \<and> is_cert d L C"
proof -
  have "certifiers d dr L \<noteq> {}"
    using assms(2) wf_quorum_pos [OF dag_ok_wf [OF assms(1)]] by auto
  then obtain q C where "om_get (ds_blocks d) q = Some C" "br_round q = dr" "is_cert d L C"
    by (auto simp: certifiers_def)
  with get_block_accepted show ?thesis by blast
qed

text \<open>Blame by a quorum of the voting round, and support by a quorum of the decision round.\<close>

definition blamed :: "DagState \<Rightarrow> Slot \<Rightarrow> bool" where
  "blamed d s \<longleftrightarrow> unat (cm_quorum_threshold (dag_committee d)) \<le>
     sum (weight (dag_committee d)) (blamers d (sl_round s + 1) (sl_authority s))"

definition certified :: "DagState \<Rightarrow> VerifiedBlock \<Rightarrow> bool" where
  "certified d L \<longleftrightarrow> unat (cm_quorum_threshold (dag_committee d)) \<le>
     sum (weight (dag_committee d)) (certifiers d (vb_round L + 2) L)"

lemma vb_slot_sel: "vb_slot L = s \<Longrightarrow> vb_round L = sl_round s \<and> vb_author L = sl_authority s"
  by (auto simp flip: slot_of_reference simp: slot_of_ref_def)

lemma certified_cert:
  assumes "leader_slot3 bc d s" and "L \<in> candidates d s (certified d)"
  shows "\<exists>q C. get_block d q = Some C \<and> wave3 (vb_round L) (sl_round s + 1) (br_round q) \<and> is_cert d L C"
proof -
  have rnd: "vb_round L = sl_round s" and "certified d L" "dag_ok d"
    using assms vb_slot_sel [of L s] by (auto simp: candidates_def leader_slot3_def)
  with is_cert_certifiers [of d "sl_round s + 2" L] obtain q C
    where "get_block d q = Some C" "br_round q = sl_round s + 2" "is_cert d L C"
    by (auto simp: certified_def)
  moreover have "wave3 (sl_round s) (sl_round s + 1) (sl_round s + 2)"
    using leader_slot3_rounds [OF assms(1)] by blast
  ultimately show ?thesis unfolding rnd by metis
qed

lemma direct_outcome:
  assumes ls: "leader_slot3 bc d s" and few: "few_equivocators d d (sl_round s + 1)"
  shows "\<exists>st. try_direct_decide bc d s = Inr st \<and>
    (blamed d s \<and> candidates d s (certified d) = {} \<and> st = Skip s \<or>
     \<not> blamed d s \<and> candidates d s (certified d) = {} \<and> st = Undecided s \<or>
     (\<exists>L. \<not> blamed d s \<and> candidates d s (certified d) = {L} \<and> st = Commit L))"
proof -
  let ?R = "sl_round s"
  have ok: "dag_ok d" and inv: "dag_inv d" and rd: "reads bc d" and pos: "0 < ?R"
    using ls by (simp_all add: leader_slot3_def dag_ok_def)
  obtain w where r: "checked_add ?R 1 = Inr (?R + 1)" "wave_number bc ?R = Inr w"
    "decision_round bc w = Inr (?R + 2)" "0 < ?R + 1" "?R + 1 \<noteq> - 1" "0 < ?R + 2" "?R + 2 \<noteq> - 1"
    using leader_slot3_rounds [OF ls] by blast
  have cert: "certified d L \<longleftrightarrow> enough_leader_support bc d (?R + 2) L = Inr True"
    if "vb_slot L = s" for L
    using vb_slot_sel [OF that] support_value [OF ok rd r(6,7)] by (simp add: certified_def)
  have uniq: "reference L = reference L'"
    if L: "L \<in> candidates d s (certified d)" and L': "L' \<in> candidates d s (certified d)" for L L'
  proof -
    have slots: "vb_slot L = s" "vb_slot L' = s" using L L' by (simp_all add: candidates_def)
    obtain q C where C: "get_block d q = Some C" "wave3 (vb_round L) (?R + 1) (br_round q)" "is_cert d L C"
      using certified_cert [OF ls L] by blast
    obtain q' C' where C': "get_block d q' = Some C'" "wave3 (vb_round L') (?R + 1) (br_round q')" "is_cert d L' C'"
      using certified_cert [OF ls L'] by blast
    have "wave3 (vb_round L) (?R + 1) (br_round q')" using C'(2) slots [THEN vb_slot_sel] by simp
    from certified_unique [OF ok ok consistent_refl few C C'(1) this C'(3)] slots show ?thesis by simp
  qed
  obtain Ls where Ls: "filter (certified d) (get_uncommitted_blocks_at_slot d s) = Ls"
    "set Ls = candidates d s (certified d)" "Ls = [] \<or> (\<exists>L. Ls = [L])"
    using pick_candidate [OF inv uniq] by blast
  have "rfilter (enough_leader_support bc d (?R + 2)) (get_uncommitted_blocks_at_slot d s) =
      Inr (filter (certified d) (get_uncommitted_blocks_at_slot d s))"
  proof (rule rfilter_Inr)
    fix L assume "L \<in> set (get_uncommitted_blocks_at_slot d s)"
    then have "vb_round L = ?R" using vb_slot_sel by (auto simp: at_slot_iff [OF inv])
    then show "enough_leader_support bc d (?R + 2) L = Inr (certified d L)"
      by (simp add: support_value [OF ok rd r(6,7)] certified_def)
  qed
  then have run: "try_direct_decide bc d s =
      Inr (if blamed d s then Skip s else if Ls = [] then Undecided s else Commit (last Ls))"
    using pos r Ls(1,3) blame_value [OF ok rd r(4,5)]
    by (auto simp: try_direct_decide_def blamed_def)
  have excl: "\<not> blamed d s" if "Ls = [L]" for L
  proof -
    have L: "L \<in> candidates d s (certified d)" using that Ls(2) by auto
    obtain q C where C: "get_block d q = Some C" "wave3 (vb_round L) (?R + 1) (br_round q)" "is_cert d L C"
      using certified_cert [OF ls L] by blast
    have "vb_author L = sl_authority s" using L vb_slot_sel by (auto simp: candidates_def)
    with blame_excludes_certificate [OF ok ok consistent_refl few C] show ?thesis by (simp add: blamed_def)
  qed
  from Ls(3) show ?thesis
  proof (elim disjE exE)
    assume "Ls = []"
    with run Ls(2) show ?thesis by auto
  next
    fix L assume L: "Ls = [L]"
    with run Ls(2) excl [OF L] show ?thesis by auto
  qed
qed

text \<open>The indirect rule: the certificates in the history of the anchor.\<close>

definition anchor_history :: "DagState \<Rightarrow> VerifiedBlock \<Rightarrow> Round \<Rightarrow> BlockRef set" where
  "anchor_history d anchor rnd = {q \<in> dag_refs d. br_round q = rnd \<and>
     (\<exists>a \<in> set (vb_ancestors anchor). (anc_edge d)\<^sup>*\<^sup>* a q)}"

definition anchor_certified :: "DagState \<Rightarrow> VerifiedBlock \<Rightarrow> VerifiedBlock \<Rightarrow> bool" where
  "anchor_certified d anchor L \<longleftrightarrow>
     (\<exists>q C. q \<in> anchor_history d anchor (vb_round L + 2) \<and> get_block d q = Some C \<and> is_cert d L C)"

lemma any_certifies_value:
  assumes "dag_ok d" and "\<forall>C \<in> set bs. \<exists>q. get_block d q = Some C"
  shows "any_certifies d (dag_committee d) L bs = Inr (\<exists>C \<in> set bs. is_cert d L C)"
  using assms(2)
proof (induction bs)
  case (Cons C bs)
  then obtain q where "get_block d q = Some C" by auto
  from certifies_value [OF assms(1) this] Cons show ?case by simp
qed simp

lemma candidate_unique:
  assumes ls: "leader_slot3 bc d s" "leader_slot3 bc' d' s" and cons: "consistent d d'"
    and few: "few_equivocators d d' (sl_round s + 1)"
    and L: "vb_slot L = s" "get_block d q = Some C" "br_round q = sl_round s + 2" "is_cert d L C"
    and L': "vb_slot L' = s" "get_block d' q' = Some C'" "br_round q' = sl_round s + 2" "is_cert d' L' C'"
  shows "reference L = reference L'"
proof -
  have ok: "dag_ok d" "dag_ok d'" using ls by (simp_all add: leader_slot3_def)
  have wave: "wave3 (vb_round L) (sl_round s + 1) (sl_round s + 2)"
    using leader_slot3_rounds [OF ls(1)] vb_slot_sel [OF L(1)] by auto
  show ?thesis
    by (rule certified_unique [OF ok cons few L(2) wave [folded L(3)] L(4) L'(2) wave [folded L'(3)] L'(4)])
       (simp add: L(1) L'(1))
qed

lemma anchor_outcome:
  assumes ls: "leader_slot3 bc d s" and few: "few_equivocators d d (sl_round s + 1)"
  shows "\<exists>st. decide_leader_from_anchor bc d anchor s = Inr st \<and>
    (candidates d s (anchor_certified d anchor) = {} \<and> st = Skip s \<or>
     (\<exists>L. candidates d s (anchor_certified d anchor) = {L} \<and> st = Commit L))"
proof -
  let ?R = "sl_round s" and ?P = "anchor_certified d anchor"
  have ok: "dag_ok d" and inv: "dag_inv d" and lay: "layered d" and rd: "committee (bc_context bc) = dag_committee d"
    using ls by (simp_all add: leader_slot3_def dag_ok_def reads_def)
  obtain w where r: "wave_number bc ?R = Inr w" "decision_round bc w = Inr (?R + 2)"
    using leader_slot3_rounds [OF ls] by blast
  obtain Cs where Cs: "ancestors_at_round d anchor (?R + 2) = Inr Cs"
    "set Cs = {C. \<exists>q. get_block d q = Some C \<and> br_round q = ?R + 2 \<and>
       (\<exists>a \<in> set (vb_ancestors anchor). (anc_edge d)\<^sup>*\<^sup>* a q)}"
    using ancestors_at_round_set [OF lay, of anchor "?R + 2"] by blast
  have stored: "\<forall>C \<in> set Cs. \<exists>q. get_block d q = Some C" by (auto simp: Cs(2))
  have any: "any_certificate bc d L Cs om_empty = Inr (?P L)" if "vb_slot L = s" for L
  proof -
    have "(\<exists>C \<in> set Cs. is_cert d L C) \<longleftrightarrow> ?P L"
      using vb_slot_sel [OF that] unfolding Cs(2) anchor_certified_def anchor_history_def dag_refs_def
      by auto
    then show ?thesis
      by (simp add: any_certificate_ok rd any_certifies_value [OF ok stored])
  qed
  have uniq: "reference L = reference L'" if LL: "L \<in> candidates d s ?P" "L' \<in> candidates d s ?P" for L L'
  proof -
    have slots: "vb_slot L = s" "vb_slot L' = s" using LL by (simp_all add: candidates_def)
    obtain q C q' C' where "get_block d q = Some C" "br_round q = ?R + 2" "is_cert d L C"
      "get_block d q' = Some C'" "br_round q' = ?R + 2" "is_cert d L' C'"
      using LL slots [THEN vb_slot_sel] by (auto simp: candidates_def anchor_certified_def anchor_history_def)
    with slots show ?thesis using candidate_unique [OF ls ls consistent_refl few] by blast
  qed
  obtain Ls where Ls: "filter ?P (get_uncommitted_blocks_at_slot d s) = Ls"
    "set Ls = candidates d s ?P" "Ls = [] \<or> (\<exists>L. Ls = [L])"
    using pick_candidate [OF inv uniq] by blast
  have "rfilter (\<lambda>L. any_certificate bc d L Cs om_empty) (get_uncommitted_blocks_at_slot d s) =
      Inr (filter ?P (get_uncommitted_blocks_at_slot d s))"
    by (rule rfilter_Inr) (simp add: any at_slot_iff [OF inv])
  then have run: "decide_leader_from_anchor bc d anchor s = Inr (if Ls = [] then Skip s else Commit (last Ls))"
    using Ls(3) unfolding decide_leader_from_anchor_def r Cs(1) rbind_Inr Ls(1) by auto
  show ?thesis
    unfolding run Ls(2) [symmetric] using Ls(3) by (elim disjE exE) simp_all
qed

lemma few_equivocators_mono:
  assumes "few_equivocators d d' rnd" and "consistent d d'"
  shows "few_equivocators d d rnd" "few_equivocators d' d' rnd"
proof -
  have comm: "dag_committee d' = dag_committee d" using assms(2) by (simp add: consistent_def)
  have "equivocators d d rnd \<subseteq> equivocators d d' rnd" "equivocators d' d' rnd \<subseteq> equivocators d d' rnd"
    unfolding equivocators_def by blast+
  then have "sum (weight (dag_committee d)) (equivocators d d rnd) \<le> sum (weight (dag_committee d)) (equivocators d d' rnd)"
    "sum (weight (dag_committee d)) (equivocators d' d' rnd) \<le> sum (weight (dag_committee d)) (equivocators d d' rnd)"
    by (simp_all add: sum_fset_le)
  with assms(1) show "few_equivocators d d rnd" "few_equivocators d' d' rnd"
    by (simp_all add: few_equivocators_def comm)
qed

section \<open>Agreement between two views\<close>

lemma direct_commitD:
  assumes "leader_slot3 bc d s" and "few_equivocators d d (sl_round s + 1)"
    and "try_direct_decide bc d s = Inr (Commit L)"
  shows "L \<in> candidates d s (certified d)"
  using direct_outcome [OF assms(1,2)] assms(3) by auto

lemma direct_skipD:
  assumes "leader_slot3 bc d s" and "few_equivocators d d (sl_round s + 1)"
    and "try_direct_decide bc d s = Inr (Skip s)"
  shows "blamed d s"
  using direct_outcome [OF assms(1,2)] assms(3) by auto

lemma candidate_block:
  assumes "L \<in> candidates d s P"
  shows "get_block d (reference L) = Some L" "vb_slot L = s" "P L"
  using assms get_block_accepted by (auto simp: candidates_def)

lemma certified_block:
  assumes "leader_slot3 bc d s" and "L \<in> candidates d s (certified d)"
  shows "\<exists>q C. get_block d q = Some C \<and> br_round q = sl_round s + 2 \<and> is_cert d L C"
  using is_cert_certifiers [of d "sl_round s + 2" L] candidate_block(2,3) [OF assms(2)] assms(1)
    vb_slot_sel [of L s] by (simp add: certified_def leader_slot3_def)

lemma consistent_same:
  assumes "consistent d d'" and "get_block d (reference L) = Some L" and "get_block d' (reference L') = Some L'"
    and "reference L = reference L'"
  shows "L = L'"
  using assms by (auto simp: consistent_def)

text \<open>A certificate reaches the block it certifies, so a closed view has it.\<close>

lemma certificate_leader_known:
  assumes "dag_ok d" and "is_cert d L C" and "0 < vb_round L"
  shows "reference L \<in> dag_refs d"
proof -
  have "supporters d L C \<noteq> {}"
    using cq.quorum_nonempty [OF dag_ok_wf [OF assms(1)] supporters_quorum [OF assms(1,2)]] .
  then obtain v where "ancestor_vote d L v = Inr True" by (auto simp: supporters_def)
  from ancestor_voteD(2) [OF assms(1) this] obtain x where "anc_edge d x (reference L)"
    by cases blast+
  with assms(1,3) show ?thesis by (auto simp: dag_ok_def closed_def)
qed

text \<open>A quorum of certificates in one view meets the history of an anchor in the other.\<close>

lemma anchor_sees_certificate:
  assumes ls: "leader_slot3 bc d s" "leader_slot3 bc' d' s" and cons: "consistent d d'"
    and few: "few_equivocators d d' (sl_round s + 2)"
    and L: "L \<in> candidates d s (certified d)"
    and cover: "cq.is_quorum (dag_committee d') (br_author ` anchor_history d' anchor (sl_round s + 2))"
  shows "anchor_certified d' anchor L \<and> get_block d' (reference L) = Some L"
proof -
  let ?D = "sl_round s + 2"
  have ok: "dag_ok d" "dag_ok d'" using ls by (simp_all add: leader_slot3_def)
  have comm: "dag_committee d' = dag_committee d" using cons by (simp add: consistent_def)
  have rnd: "vb_round L = sl_round s" using vb_slot_sel candidate_block(2) [OF L] by blast
  have quorum: "cq.is_quorum (dag_committee d) (certifiers d ?D L)"
    using candidate_block(3) [OF L] rnd certifiers_members ok(1)
    by (simp add: certified_def cq.is_quorum_def dag_ok_def)
  have certs: "\<exists>r \<in> dag_refs d. br_author r = a \<and> br_round r = ?D \<and> (\<exists>C. get_block d r = Some C \<and> is_cert d L C)"
    if "a \<in> certifiers d ?D L" for a
    using that get_block_accepted by (fastforce simp: certifiers_def dag_refs_def)
  have hist: "\<exists>r \<in> dag_refs d'. br_author r = a \<and> br_round r = ?D \<and> r \<in> anchor_history d' anchor ?D"
    if "a \<in> br_author ` anchor_history d' anchor ?D" for a
    using that by (auto simp: anchor_history_def)
  obtain r C where r: "r \<in> dag_refs d'" "get_block d r = Some C" "is_cert d L C" "r \<in> anchor_history d' anchor ?D"
    using shared_block [OF dag_ok_wf [OF ok(1)] few quorum cover [unfolded comm] certs hist] by blast
  have C': "get_block d' r = Some C" by (rule consistent_get [OF cons r(1,2)])
  have cert': "is_cert d' L C" using is_cert_view [OF ok cons r(2) C'] r(3) by simp
  have "reference L \<in> dag_refs d'"
    using certificate_leader_known [OF ok(2) cert'] rnd ls(1) by (simp add: leader_slot3_def)
  with consistent_get [OF cons _ candidate_block(1) [OF L]] cert' C' r(4) rnd show ?thesis
    by (auto simp: anchor_certified_def)
qed

lemma direct_commit_agreement:
  assumes ls: "leader_slot3 bc d s" "leader_slot3 bc' d' s" and cons: "consistent d d'"
    and few: "few_equivocators d d' (sl_round s + 1)" "few_equivocators d d' (sl_round s + 2)"
    and commit: "try_direct_decide bc d s = Inr (Commit L)"
  shows "(try_direct_decide bc' d' s = Inr (Commit L) \<or> try_direct_decide bc' d' s = Inr (Undecided s)) \<and>
    (\<forall>L'. decide_leader_from_anchor bc' d' anchor s = Inr (Commit L') \<longrightarrow> L' = L) \<and>
    (cq.is_quorum (dag_committee d') (br_author ` anchor_history d' anchor (sl_round s + 2)) \<longrightarrow>
     \<not> is_committed d' (reference L) \<longrightarrow> decide_leader_from_anchor bc' d' anchor s = Inr (Commit L))"
proof -
  note few_d = few_equivocators_mono [OF few(1) cons]
  have ok: "dag_ok d" "dag_ok d'" using ls by (simp_all add: leader_slot3_def)
  have L: "L \<in> candidates d s (certified d)" by (rule direct_commitD [OF ls(1) few_d(1) commit])
  obtain q C where C: "get_block d q = Some C" "br_round q = sl_round s + 2" "is_cert d L C"
    using certified_block [OF ls(1) L] by blast
  have slot: "vb_slot L = s" "get_block d (reference L) = Some L" using candidate_block [OF L] by simp_all
  have same: "L' = L" if L': "get_block d' (reference L') = Some L'" "vb_slot L' = s"
    "get_block d' q' = Some C'" "br_round q' = sl_round s + 2" "is_cert d' L' C'" for L' q' C'
    using candidate_unique [OF ls cons few(1) slot(1) C L'(2-5)]
      consistent_same [OF cons slot(2) L'(1)] by simp
  have "\<not> blamed d' s"
  proof -
    obtain q C where "get_block d q = Some C" "wave3 (vb_round L) (sl_round s + 1) (br_round q)" "is_cert d L C"
      using certified_cert [OF ls(1) L] by blast
    from blame_excludes_certificate [OF ok cons few(1) this] vb_slot_sel [OF slot(1)] show ?thesis
      by (simp add: blamed_def)
  qed
  moreover have "L' = L" if L': "L' \<in> candidates d' s (certified d')" for L'
    using certified_block [OF ls(2) L'] candidate_block [OF L'] same by blast
  ultimately have direct: "try_direct_decide bc' d' s = Inr (Commit L) \<or> try_direct_decide bc' d' s = Inr (Undecided s)"
    using direct_outcome [OF ls(2) few_d(2)] by auto
  have anchored: "L' = L" if L': "L' \<in> candidates d' s (anchor_certified d' anchor)" for L'
  proof -
    have "vb_round L' = sl_round s" using vb_slot_sel candidate_block(2) [OF L'] by blast
    with candidate_block(3) [OF L'] obtain q C where "get_block d' q = Some C" "br_round q = sl_round s + 2" "is_cert d' L' C"
      by (auto simp: anchor_certified_def anchor_history_def)
    with same candidate_block(1,2) [OF L'] show ?thesis by blast
  qed
  have "decide_leader_from_anchor bc' d' anchor s = Inr (Commit L)"
    if cover: "cq.is_quorum (dag_committee d') (br_author ` anchor_history d' anchor (sl_round s + 2))"
      and new: "\<not> is_committed d' (reference L)"
  proof -
    from anchor_sees_certificate [OF ls cons few(2) L cover]
    have "anchor_certified d' anchor L" "get_block d' (reference L) = Some L" by simp_all
    moreover have "0 < br_round (reference L)"
      using vb_slot_sel [OF slot(1)] ls(1) by (simp add: leader_slot3_def)
    ultimately have "L \<in> candidates d' s (anchor_certified d' anchor)"
      using new slot(1) get_block_above_genesis ok(2) by (simp add: candidates_def dag_ok_def)
    with anchor_outcome [OF ls(2) few_d(2), of anchor] show ?thesis by auto
  qed
  moreover have "L' = L" if "decide_leader_from_anchor bc' d' anchor s = Inr (Commit L')" for L'
    using anchor_outcome [OF ls(2) few_d(2), of anchor] that anchored by auto
  ultimately show ?thesis using direct by blast
qed

section \<open>The committer on a DAG of full rounds\<close>

definition bc4 :: BaseCommitter where
  "bc4 = \<lparr>bc_context = ctx4, bc_options = default_options\<rparr>"

lemma bc4_new: "base_committer_new ctx4 default_options = Inr bc4"
  by (simp add: base_committer_new_def bc4_def default_options_def DEFAULT_WAVE_LENGTH_def
      MINIMUM_WAVE_LENGTH_def committee_size_def committee4_def)

lemma bc4_ok: "bc_ok bc4"
  by (simp add: bc_ok_def bc4_def default_options_def DEFAULT_WAVE_LENGTH_def MINIMUM_WAVE_LENGTH_def)

lemma dag4_ok: "n < 2 ^ 32 - 1 \<Longrightarrow> dag_ok (dag4 n)"
  using dag4_graph by (simp add: dag_ok_def)

lemma dag4_leader_slot: "n < 2 ^ 32 - 1 \<Longrightarrow> leader_slot3 bc4 (dag4 n) (Slot 3 3)"
  using dag4_ok [of n] bc4_ok dag4_graph(4) [of n]
  by (simp add: leader_slot3_def reads_def bc4_def default_options_def DEFAULT_WAVE_LENGTH_def
      MINIMUM_WAVE_LENGTH_def is_leader_def)

lemma dag4_ref:
  assumes "n < 2 ^ 32 - 1" and "r \<in> dag_refs (dag4 n)" and "0 < br_round r"
  shows "unat (br_round r) \<le> n \<and> unat (br_author r) < 4 \<and> r = BlockRef (br_round r) (br_author r) 0"
proof -
  from assms(2) obtain b where b: "get_block (dag4 n) r = Some b" by (auto simp: dag_refs_def)
  moreover have "get_block genesis4 r = None"
    using get_block_above_genesis [OF genesis4(2) assms(3)] genesis4(4) by simp
  ultimately have "b \<in> set (dag4_blocks n)" "reference b = r"
    using dag4_accept [OF assms(1)] by (metis option.distinct(1))+
  then show ?thesis using dag4_blocks_iff [OF assms(1)] by auto
qed

lemma dag4_few:
  assumes "n < 2 ^ 32 - 1" and "m < 2 ^ 32 - 1" and "0 < rnd"
  shows "few_equivocators (dag4 n) (dag4 m) rnd"
proof -
  have "br_digest r = 0" if "r \<in> dag_refs (dag4 n) \<union> dag_refs (dag4 m)" "br_round r = rnd" for r
    using that assms(3) dag4_ref [OF assms(1), of r] dag4_ref [OF assms(2), of r]
    by (metis BlockRef.sel(3) Un_iff)
  then have "equivocators (dag4 n) (dag4 m) rnd = {}"
    unfolding equivocators_def by (auto intro: BlockRef.expand)
  then show ?thesis by (simp add: few_equivocators_def)
qed

lemma dag4_consistent:
  assumes "n < 2 ^ 32 - 1" and "m < 2 ^ 32 - 1"
  shows "consistent (dag4 n) (dag4 m)"
  unfolding consistent_def
proof (intro conjI allI impI)
  show "dag_committee (dag4 n) = dag_committee (dag4 m)" using dag4_graph(4) assms by simp
  fix r b b' assume b: "get_block (dag4 n) r = Some b" and b': "get_block (dag4 m) r = Some b'"
  have same: "ds_genesis (dag4 n) = ds_genesis (dag4 m)"
    using dag4_accept [OF assms(1)] dag4_accept [OF assms(2)] by (simp add: same_frame_def)
  show "b = b'"
  proof (cases "0 < br_round r")
    case True
    have r: "r \<in> dag_refs (dag4 n)" "r \<in> dag_refs (dag4 m)" using b b' by (auto simp: dag_refs_def)
    from dag4_ref [OF assms(1) r(1) True] dag4_ref [OF assms(2) r(2) True] obtain a
      where "r = BlockRef (br_round r) a 0" "unat a < 4" "unat (br_round r) \<le> n" "unat (br_round r) \<le> m" by metis
    with True b b' dag4_get_block [OF assms(1), of "br_round r" a] dag4_get_block [OF assms(2), of "br_round r" a]
    show ?thesis by auto
  next
    case False
    then have r0: "br_round r = 0" by (simp add: word_neq_0_conv [symmetric])
    have "x \<in> set (dag4_blocks k) \<Longrightarrow> 0 < vb_round x" if "k < 2 ^ 32 - 1" for k x
      using dag4_blocks_iff [OF that] by auto
    then have "get_block genesis4 r = Some b" "get_block genesis4 r = Some b'"
      using dag4_accept [OF assms(1)] dag4_accept [OF assms(2)] b b' r0 assms
      by (metis False reference_sel(1))+
    then show ?thesis by simp
  qed
qed

lemma dag4_direct_commit: "try_direct_decide bc4 (dag4 5) (Slot 3 3) = Inr (Commit (block4 3 3 (round_refs 2)))"
  by code_simp

section \<open>What the committer promises\<close>

text \<open>Round-robin leader election never panics, elects a leader exactly in the rounds that are
  a multiple of the wave length above the round offset, and the elected authority is a member of
  the committee.\<close>

theorem elect_leader_exact:
  assumes "bc_ok bc"
  shows "elect_leader bc rnd =
      Inr (if is_leader bc rnd then Some (Slot rnd ((rnd + bo_leader_offset (bc_options bc)) mod size32 bc)) else None) \<and>
    is_valid_index (committee (bc_context bc)) ((rnd + bo_leader_offset (bc_options bc)) mod size32 bc)"
proof -
  have "unat ((rnd + bo_leader_offset (bc_options bc)) mod size32 bc) < unat (size32 bc)"
    using size32_pos [OF assms] by (simp add: unat_mod flip: unat_0_iff)
  with elect_leader_value [OF assms] size32_pos [OF assms] show ?thesis
    by (simp add: is_valid_index_def)
qed

theorem elect_leader_exact_witness: "elect_leader bc4 3 = Inr (Some (Slot 3 3)) \<and> elect_leader bc4 4 = Inr None"
  using elect_leader_exact [OF bc4_ok, of 3] elect_leader_exact [OF bc4_ok, of 4]
  by (simp add: is_leader_def size32_def bc4_def default_options_def DEFAULT_WAVE_LENGTH_def
      MINIMUM_WAVE_LENGTH_def committee_size_def committee4_def)

text \<open>The recursive search for the supported block terminates without a panic on every block of
  a DAG whose links go to earlier rounds and are closed, and what it finds is a block reference of
  the slot in the causal history of the block.\<close>

theorem find_supported_block_returns:
  assumes "dag_ok d" and "get_block d q = Some b"
  shows "\<exists>x. find_supported_block d slot b = Inr x \<and>
    (\<forall>r. x = Some r \<longrightarrow> slot_of_ref r = slot \<and> (anc_edge d)\<^sup>+\<^sup>+ q r)"
  using assms by (rule find_supported_block_total)

theorem find_supported_block_returns_witness:
  "\<exists>x. find_supported_block (dag4 5) (Slot 3 3) (block4 5 0 (round_refs 4)) = Inr x"
  using find_supported_block_returns [OF dag4_ok, of 5 "BlockRef 5 0 0" "block4 5 0 (round_refs 4)" "Slot 3 3"]
    dag4_get_block [of 5 5 0] by auto

text \<open>\<^bold>\<open>C29\<close>. The vote cache, shared by all calls for one leader block, changes no result: on every
  state and input, panics included, the support count and the search for a certificate return what
  they return when every vote is recomputed.\<close>

theorem vote_cache_transparent:
  "enough_leader_support bc d dround L =
     rbind (guard DebugAssert (dround > 0)) (\<lambda>_. rbind (get_uncommitted_blocks_at_round d dround) (\<lambda>bs.
     tally (certificate_voter d (committee (bc_context bc)) L) (committee (bc_context bc)) bs sa_new)) \<and>
   any_certificate bc d L bs om_empty = any_certifies d (committee (bc_context bc)) L bs"
  by (simp add: enough_leader_support_def support_loop_ok any_certificate_ok)

text \<open>\<^bold>\<open>C11\<close>. The direct rule, with at most \<open>f\<close> stake of equivocators in the voting round: it never
  panics (in particular there are never two candidates), a slot is skipped exactly when a quorum of
  the voting round blames the leader, and committed exactly when a block of the slot is certified by
  a quorum of the decision round; the two exclude each other.\<close>

theorem direct_decide_outcome:
  assumes "leader_slot3 bc d s" and "few_equivocators d d (sl_round s + 1)"
  shows "\<exists>st. try_direct_decide bc d s = Inr st \<and>
    (blamed d s \<and> candidates d s (certified d) = {} \<and> st = Skip s \<or>
     \<not> blamed d s \<and> candidates d s (certified d) = {} \<and> st = Undecided s \<or>
     (\<exists>L. \<not> blamed d s \<and> candidates d s (certified d) = {L} \<and> st = Commit L))"
  using assms by (rule direct_outcome)

theorem direct_decide_outcome_witness:
  "\<not> blamed (dag4 5) (Slot 3 3) \<and>
   candidates (dag4 5) (Slot 3 3) (certified (dag4 5)) = {block4 3 3 (round_refs 2)}"
  using direct_decide_outcome [OF dag4_leader_slot [of 5] dag4_few] dag4_direct_commit by auto

text \<open>\<^bold>\<open>C12\<close>. Deciding a leader from an anchor, under the same assumption: it never panics, and
  commits a block of the slot exactly when the history of the anchor has a certificate for it in the
  decision round; otherwise it skips the slot.\<close>

theorem anchor_decide_outcome:
  assumes "leader_slot3 bc d s" and "few_equivocators d d (sl_round s + 1)"
  shows "\<exists>st. decide_leader_from_anchor bc d anchor s = Inr st \<and>
    (candidates d s (anchor_certified d anchor) = {} \<and> st = Skip s \<or>
     (\<exists>L. candidates d s (anchor_certified d anchor) = {L} \<and> st = Commit L))"
  using assms by (rule anchor_outcome)

theorem anchor_decide_outcome_witness:
  "\<exists>st. decide_leader_from_anchor bc4 (dag4 6) (block4 6 2 (round_refs 5)) (Slot 3 3) = Inr st \<and> is_decided st"
  using anchor_decide_outcome [OF dag4_leader_slot [of 6] dag4_few, of "block4 6 2 (round_refs 5)"] by fastforce

text \<open>\<^bold>\<open>C9\<close>. Agreement. When one view of the DAG directly commits a leader block, no consistent view
  directly skips the slot or commits another block in it, no anchor leads to another block, and an
  anchor whose history covers a quorum of the decision round leads to the same block unless the view
  has committed it already. The assumption is that the authorities with two different blocks in the
  voting round, or in the decision round, across the two views, hold at most \<open>f\<close> stake.\<close>

theorem direct_commit_agrees:
  assumes "leader_slot3 bc d s" and "leader_slot3 bc' d' s" and "consistent d d'"
    and "few_equivocators d d' (sl_round s + 1)" and "few_equivocators d d' (sl_round s + 2)"
    and "try_direct_decide bc d s = Inr (Commit L)"
  shows "(try_direct_decide bc' d' s = Inr (Commit L) \<or> try_direct_decide bc' d' s = Inr (Undecided s)) \<and>
    (\<forall>L'. decide_leader_from_anchor bc' d' anchor s = Inr (Commit L') \<longrightarrow> L' = L) \<and>
    (quorum_of (dag_committee d') (br_author ` anchor_history d' anchor (sl_round s + 2)) \<longrightarrow>
     \<not> is_committed d' (reference L) \<longrightarrow> decide_leader_from_anchor bc' d' anchor s = Inr (Commit L))"
  using direct_commit_agreement [OF assms] by (simp add: is_quorum_iff)

theorem direct_commit_agrees_witness:
  "try_direct_decide bc4 (dag4 5) (Slot 3 3) = Inr (Commit (block4 3 3 (round_refs 2))) \<and>
   (try_direct_decide bc4 (dag4 6) (Slot 3 3) = Inr (Commit (block4 3 3 (round_refs 2))) \<or>
    try_direct_decide bc4 (dag4 6) (Slot 3 3) = Inr (Undecided (Slot 3 3))) \<and>
   decide_leader_from_anchor bc4 (dag4 6) (block4 6 2 (round_refs 5)) (Slot 3 3) \<noteq>
     Inr (Commit (block4 3 3 (round_refs 1)))"
  using direct_commit_agrees [OF dag4_leader_slot [of 5] dag4_leader_slot [of 6] dag4_consistent
      dag4_few dag4_few dag4_direct_commit, of "block4 6 2 (round_refs 5)"] dag4_direct_commit
  by (auto simp: round_refs_def dest!: arg_cong [where f = vb_ancestors])

end
