(* ===== verification/Linearizer.thy ===== *)
theory Linearizer
  imports Base_Committer
begin

text \<open>
  \<^verbatim>\<open>crates/consensus/src/linearizer.rs\<close>: a committed leader block is expanded into the ordered
  list of its uncommitted causal history, which is marked as committed in the DAG. The buffer of
  the traversal is a list whose head is the top of the stack.
\<close>

section \<open>Operations\<close>

text \<open>\<^verbatim>\<open>Linearizer::new\<close> keeps the context (unused) and the shared DAG.\<close>

definition linearizer_new :: "Context \<Rightarrow> unit res" where
  "linearizer_new context = guard DebugAssert (committee_size (committee context) > 0)"

text \<open>\<^verbatim>\<open>.map(|opt| opt.expect(..)).collect()\<close>.\<close>

fun expect_all :: "'a option list \<Rightarrow> 'a list res" where
  "expect_all [] = Inr []"
| "expect_all (x # xs) = rbind (unwrap x) (\<lambda>v. rbind (expect_all xs) (\<lambda>vs. Inr (v # vs)))"

definition uncommitted_ancestors :: "DagState \<Rightarrow> VerifiedBlock \<Rightarrow> VerifiedBlock list res" where
  "uncommitted_ancestors d b =
     expect_all (get_blocks d
       (filter (\<lambda>a. br_round a > gc_round d \<and> \<not> is_committed d a) (vb_ancestors b)))"

definition commit_once :: "VerifiedBlock \<Rightarrow> DagState \<Rightarrow> DagState res" where
  "commit_once b d =
     (case set_committed (reference b) d of (d', new) \<Rightarrow> rbind (guard Assert new) (\<lambda>_. Inr d'))"

text \<open>Facts for the termination of the loop: only the committed set changes, and every block
  pushed is committed for the first time.\<close>

definition stored_refs :: "DagState \<Rightarrow> BlockRef set" where
  "stored_refs d = {reference b |b r. get_block d r = Some b}"

lemma finite_stored_refs [simp]: "finite (stored_refs d)"
proof -
  have "stored_refs d \<subseteq> (\<lambda>r. reference (the (get_block d r))) ` dag_refs d"
    by (auto simp: stored_refs_def dag_refs_def image_iff) (metis option.sel)
  then show ?thesis by (rule finite_subset) simp
qed

lemma get_block_set_committed [simp]: "get_block (d\<lparr>ds_committed := C\<rparr>) r = get_block d r"
  by (cases "om_get (ds_blocks d) r") (simp_all add: get_block_def)

lemma commit_once_eq:
  "commit_once b d =
     (if is_committed d (reference b) then Inl Assert
      else Inr (d\<lparr>ds_committed := finsert (reference b) (ds_committed d)\<rparr>))"
  by (simp add: commit_once_def set_committed_def is_committed_def)

lemma commit_all_eq:
  "rfold commit_once bs d = Inr d' \<Longrightarrow>
     d' = d\<lparr>ds_committed := fset_of_list (map reference bs) |\<union>| ds_committed d\<rparr> \<and>
     distinct (map reference bs) \<and> (\<forall>b \<in> set bs. \<not> is_committed d (reference b))"
proof (induction bs arbitrary: d)
  case (Cons b bs)
  then have nc: "\<not> is_committed d (reference b)"
    and rest: "rfold commit_once bs (d\<lparr>ds_committed := finsert (reference b) (ds_committed d)\<rparr>) = Inr d'"
    by (auto simp: commit_once_eq [of b d] split: if_splits)
  from Cons.IH [OF rest] nc show ?case by (auto simp: is_committed_def)
qed simp

lemma expect_all_map: "expect_all (map f xs) = Inr ys \<Longrightarrow> map f xs = map Some ys"
  by (induction xs arbitrary: ys) (auto simp: res_simps)

lemma uncommitted_ancestors_stored:
  "uncommitted_ancestors d b = Inr ancs \<Longrightarrow> reference ` set ancs \<subseteq> stored_refs d"
proof
  fix r assume "uncommitted_ancestors d b = Inr ancs" and "r \<in> reference ` set ancs"
  then obtain refs a where "map (get_block d) refs = map Some ancs" "a \<in> set ancs" "r = reference a"
    unfolding uncommitted_ancestors_def get_blocks_def by (blast dest: expect_all_map)
  then have "Some a \<in> get_block d ` set refs" by (metis image_eqI list.set_map)
  then obtain q where "get_block d q = Some a" by auto
  then show "r \<in> stored_refs d" using \<open>r = reference a\<close> by (auto simp: stored_refs_def)
qed

function linearize_loop ::
  "DagState \<Rightarrow> VerifiedBlock list \<Rightarrow> VerifiedBlock list \<Rightarrow> (DagState \<times> VerifiedBlock list) res"
where
  "linearize_loop d [] to_commit = Inr (d, to_commit)"
| "linearize_loop d (b # buffer) to_commit =
     rbind (uncommitted_ancestors d b) (\<lambda>ancs.
     rbind (rfold commit_once ancs d) (\<lambda>d'.
     linearize_loop d' (rev ancs @ buffer) (to_commit @ [b])))"
  by pat_completeness auto
termination
proof (relation "measures [\<lambda>(d, _, _). card (stored_refs d - fset (ds_committed d)),
    \<lambda>(_, buffer, _). length buffer]", goal_cases)
  case (2 d b buffer to_commit ancs d')
  from commit_all_eq [OF 2(2)] have d': "d' = d\<lparr>ds_committed := fset_of_list (map reference ancs) |\<union>| ds_committed d\<rparr>"
    and new: "\<forall>b \<in> set ancs. \<not> is_committed d (reference b)" by auto
  have stored: "stored_refs d' = stored_refs d" by (simp add: d' stored_refs_def)
  show ?case
  proof (cases ancs)
    case Nil
    with stored d' show ?thesis by simp
  next
    case (Cons a rest)
    then have "reference a \<in> stored_refs d" "reference a \<notin> fset (ds_committed d)"
      using uncommitted_ancestors_stored [OF 2(1)] new by (auto simp: is_committed_def)
    then have "stored_refs d' - fset (ds_committed d') \<subset> stored_refs d - fset (ds_committed d)"
      unfolding stored using d' Cons by auto
    then have "card (stored_refs d' - fset (ds_committed d')) < card (stored_refs d - fset (ds_committed d))"
      by (intro psubset_card_mono) auto
    then show ?thesis by simp
  qed
qed simp

definition linearize_sub_dag :: "VerifiedBlock \<Rightarrow> DagState \<Rightarrow> (DagState \<times> VerifiedBlock list) res" where
  "linearize_sub_dag leader_block d =
     rbind (commit_once leader_block d) (\<lambda>d1.
     rbind (linearize_loop d1 [leader_block] []) (\<lambda>(d2, to_commit).
     rbind (guard Assert (list_all (\<lambda>b. vb_round b > gc_round d) to_commit)) (\<lambda>_.
     Inr (d2, sort_sub_dag_blocks to_commit))))"

definition commit_leader :: "hash \<Rightarrow> VerifiedBlock \<Rightarrow> DagState \<Rightarrow> (DagState \<times> CommittedSubDag) res" where
  "commit_leader H leader_block d =
     rbind (guard DebugAssert (vb_round leader_block > 0)) (\<lambda>_.
     rbind (checked_add (ds_last_commit_index d) 1) (\<lambda>next_index.
     rbind (linearize_sub_dag leader_block d) (\<lambda>(d', to_commit).
     let timestamp = max (vb_timestamp_ms leader_block) (ds_last_commit_timestamp_ms d);
         leader_ref = reference leader_block;
         subdag = \<lparr>sd_leader = leader_ref, sd_blocks = to_commit, sd_timestamp_ms = timestamp,
           sd_commit_ref = \<lparr>cr_index = next_index, cr_digest = derive_commit_digest H next_index leader_ref\<rparr>\<rparr>
     in rbind (record_commit subdag d') (\<lambda>d''. Inr (d'', subdag)))))"

section \<open>The traversal is the read-only one\<close>

definition open_ref :: "DagState \<Rightarrow> BlockRef fset \<Rightarrow> BlockRef \<Rightarrow> bool" where
  "open_ref d visited a \<longleftrightarrow> 0 < br_round a \<and> \<not> is_committed d a \<and> a |\<notin>| visited"

lemma visit_distinct_ancestors:
  assumes "distinct rs" and "\<forall>r \<in> set rs. 0 < br_round r \<longrightarrow> r \<in> dag_refs d"
  shows "visit_ancestors d 0 rs stack visited =
    (rev (map (the \<circ> get_block d) (filter (open_ref d visited) rs)) @ stack,
     fset_of_list (filter (open_ref d visited) rs) |\<union>| visited)"
  using assms
proof (induction rs arbitrary: stack visited)
  case (Cons r rs)
  show ?case
  proof (cases "open_ref d visited r")
    case True
    then have cond: "br_round r > 0 \<and> \<not> is_committed d r \<and> r |\<notin>| visited" by (simp add: open_ref_def)
    then obtain b where "get_block d r = Some b" using Cons.prems(2) by (auto simp: dag_refs_def)
    moreover have eq: "filter (open_ref d (finsert r visited)) rs = filter (open_ref d visited) rs"
      using Cons.prems(1) by (intro filter_cong) (auto simp: open_ref_def)
    ultimately show ?thesis
      using True cond Cons.IH [of "b # stack" "finsert r visited"] Cons.prems unfolding eq by simp
  next
    case False
    then have "\<not> (br_round r > 0 \<and> \<not> is_committed d r \<and> r |\<notin>| visited)" by (simp add: open_ref_def)
    with False Cons show ?thesis by (simp only: visit_ancestors.simps if_False filter.simps distinct.simps) simp
  qed
qed simp

text \<open>No stored block lists an ancestor twice.\<close>

definition dup_free :: "DagState \<Rightarrow> bool" where
  "dup_free d \<longleftrightarrow> (\<forall>r b. get_block d r = Some b \<longrightarrow> distinct (vb_ancestors b))"

lemma expect_all_Some: "(\<And>x. x \<in> set xs \<Longrightarrow> f x \<noteq> None) \<Longrightarrow> expect_all (map f xs) = Inr (map (the \<circ> f) xs)"
proof (induction xs)
  case (Cons x xs)
  then obtain y where "f x = Some y" by fastforce
  with Cons show ?case by simp
qed simp

lemma commit_all_ok:
  assumes "distinct (map reference bs)" and "\<forall>b \<in> set bs. \<not> is_committed d (reference b)"
  shows "rfold commit_once bs d = Inr (d\<lparr>ds_committed := fset_of_list (map reference bs) |\<union>| ds_committed d\<rparr>)"
  using assms
proof (induction bs arbitrary: d)
  case (Cons b bs)
  from Cons.prems have "commit_once b d = Inr (d\<lparr>ds_committed := finsert (reference b) (ds_committed d)\<rparr>)"
    by (simp add: commit_once_eq)
  moreover have "\<forall>x \<in> set bs. \<not> is_committed (d\<lparr>ds_committed := finsert (reference b) (ds_committed d)\<rparr>) (reference x)"
    using Cons.prems by (auto simp: is_committed_def) (metis image_eqI)
  ultimately show ?case using Cons.IH Cons.prems(1) by simp
qed simp

lemma visit_ancestors_stack: "set stack \<subseteq> set (fst (visit_ancestors d gc rs stack visited))"
  by (induction d gc rs stack visited rule: visit_ancestors.induct) (auto split: option.splits)

lemma causal_loop_stack: "set stack \<subseteq> set (causal_loop d gc stack visited)"
proof (induction d gc stack visited rule: causal_loop.induct)
  case (2 d gc b stack visited)
  obtain stack' visited' where step: "visit_ancestors d gc (vb_ancestors b) stack visited = (stack', visited')"
    by fastforce
  with "2.IH" [OF step [symmetric] refl] visit_ancestors_stack [of stack d gc "vb_ancestors b" visited]
  show ?case by auto
qed simp

text \<open>One iteration: the uncommitted ancestors of the block are marked and pushed.\<close>

lemma linearize_step:
  assumes ref: "\<And>r. r \<in> set refs \<Longrightarrow> reference (the (get_block d r)) = r \<and> get_block d r = Some (the (get_block d r))"
    and refs: "refs = filter (open_ref d visited) (vb_ancestors b)" and dist: "distinct (vb_ancestors b)"
    and ancs: "ancs = map (the \<circ> get_block d) refs"
  shows "linearize_loop (d\<lparr>ds_committed := visited |\<union>| ds_committed d\<rparr>) (b # stack) acc =
    linearize_loop (d\<lparr>ds_committed := (fset_of_list refs |\<union>| visited) |\<union>| ds_committed d\<rparr>) (rev ancs @ stack) (acc @ [b])"
proof -
  let ?d = "d\<lparr>ds_committed := visited |\<union>| ds_committed d\<rparr>"
  have map: "map reference ancs = refs" unfolding ancs map_map using ref by (intro map_idI) simp
  have "filter (\<lambda>a. br_round a > gc_round ?d \<and> \<not> is_committed ?d a) (vb_ancestors b) = refs"
    unfolding refs by (intro filter_cong) (auto simp: gc_round_def is_committed_def open_ref_def)
  moreover have "map (get_block ?d) refs = map (get_block d) refs" by simp
  ultimately have "uncommitted_ancestors ?d b = Inr ancs"
    using ref unfolding ancs by (simp only: uncommitted_ancestors_def get_blocks_def) (intro expect_all_Some, metis option.distinct(1))
  moreover have "rfold commit_once ancs ?d = Inr (?d\<lparr>ds_committed := fset_of_list (map reference ancs) |\<union>| ds_committed ?d\<rparr>)"
  proof (rule commit_all_ok)
    show "distinct (map reference ancs)" unfolding map refs using dist by simp
    show "\<forall>x \<in> set ancs. \<not> is_committed ?d (reference x)"
    proof
      fix x assume "x \<in> set ancs"
      then have "reference x \<in> set refs" using map by (metis image_eqI list.set_map)
      then show "\<not> is_committed ?d (reference x)" by (auto simp: refs open_ref_def is_committed_def)
    qed
  qed
  ultimately show ?thesis by (simp add: map sup_assoc)
qed

lemma linearize_causal_loop:
  assumes "dag_inv d" and "closed d" and "dup_free d"
    and "\<forall>b \<in> set buffer. get_block d (reference b) = Some b \<and> reference b |\<in>| visited"
  shows "linearize_loop (d\<lparr>ds_committed := visited |\<union>| ds_committed d\<rparr>) buffer acc =
    Inr (d\<lparr>ds_committed := fset_of_list (map reference (causal_loop d 0 buffer visited)) |\<union>|
           (visited |\<union>| ds_committed d)\<rparr>, acc @ causal_loop d 0 buffer visited)"
  using assms
proof (induction d "0 :: Round" buffer visited arbitrary: acc rule: causal_loop.induct)
  case (1 d visited)
  then show ?case by simp
next
  case (2 d b stack visited)
  let ?refs = "filter (open_ref d visited) (vb_ancestors b)"
  let ?ancs = "map (the \<circ> get_block d) ?refs"
  have b: "get_block d (reference b) = Some b" using "2.prems"(4) by simp
  have present: "r \<in> dag_refs d" if "r \<in> set (vb_ancestors b)" "0 < br_round r" for r
    using that b "2.prems"(2) by (auto simp: closed_def anc_edge_def)
  have dist: "distinct (vb_ancestors b)" using b "2.prems"(3) by (auto simp: dup_free_def)
  have ref: "reference (the (get_block d r)) = r \<and> get_block d r = Some (the (get_block d r))"
    if "r \<in> set ?refs" for r
    using that present [of r] get_block_reference [OF "2.prems"(1), of r]
    by (auto simp: open_ref_def dag_refs_def)
  then have refs: "map reference ?ancs = ?refs" unfolding map_map by (intro map_idI) simp
  have step: "visit_ancestors d 0 (vb_ancestors b) stack visited =
      (rev ?ancs @ stack, fset_of_list ?refs |\<union>| visited)"
    using dist present by (intro visit_distinct_ancestors) auto
  have unfold: "linearize_loop (d\<lparr>ds_committed := visited |\<union>| ds_committed d\<rparr>) (b # stack) acc =
      linearize_loop (d\<lparr>ds_committed := (fset_of_list ?refs |\<union>| visited) |\<union>| ds_committed d\<rparr>) (rev ?ancs @ stack) (acc @ [b])"
    by (rule linearize_step [OF ref refl dist refl])
  have in_refs: "reference x \<in> set ?refs" if "x \<in> set ?ancs" for x
    using that refs by (metis image_eqI list.set_map)
  have buf: "\<forall>x \<in> set (rev ?ancs @ stack). get_block d (reference x) = Some x \<and>
      reference x |\<in>| fset_of_list ?refs |\<union>| visited"
  proof
    fix x assume "x \<in> set (rev ?ancs @ stack)"
    then consider "x \<in> set ?ancs" | "x \<in> set stack" by auto
    then show "get_block d (reference x) = Some x \<and> reference x |\<in>| fset_of_list ?refs |\<union>| visited"
    proof cases
      case 1
      then show ?thesis using in_refs [OF 1] ref by (auto simp: fset_of_list_elem)
    next
      case 2
      then show ?thesis using "2.prems"(4) by simp
    qed
  qed
  let ?L = "causal_loop d 0 (rev ?ancs @ stack) (fset_of_list ?refs |\<union>| visited)"
  have "set ?refs = reference ` set ?ancs" using refs by (metis list.set_map)
  also have "\<dots> \<subseteq> reference ` set ?L"
    using causal_loop_stack [of "rev ?ancs @ stack" d 0 "fset_of_list ?refs |\<union>| visited"] by auto
  finally have sub: "set ?refs \<subseteq> reference ` set ?L" .
  have "fset_of_list (map reference ?L) |\<union>| ((fset_of_list ?refs |\<union>| visited) |\<union>| ds_committed d) =
      fset_of_list (map reference (b # ?L)) |\<union>| (visited |\<union>| ds_committed d)"
    using sub "2.prems"(4) by (intro fset_eqI) (auto simp: fset_of_list_elem)
  moreover have "causal_loop d 0 (b # stack) visited = b # ?L" by (simp add: step)
  ultimately show ?case
    unfolding unfold using "2.hyps" [OF step [symmetric] refl "2.prems"(1-3) buf, of "acc @ [b]"] by simp
qed

section \<open>What a committed sub-dag holds\<close>

lemma causal_cone_round: "r \<in> causal_cone d gc leader \<Longrightarrow> r = leader \<or> gc < br_round r \<and> \<not> is_committed d r"
  unfolding causal_cone_def by (auto simp: open_edge_def elim: rtranclp.cases)

lemma reference_round: "reference x = reference y \<Longrightarrow> vb_round x = vb_round y"
  by (metis reference_sel(1))

lemma linearize_sub_dag_ok:
  assumes ok: "dag_ok d" and dup: "dup_free d" and leader: "get_block d (reference b) = Some b"
    and "0 < vb_round b" and "\<not> is_committed d (reference b)"
  shows "\<exists>L. linearize_sub_dag b d = Inr (d\<lparr>ds_committed := fset_of_list (map reference L) |\<union>| ds_committed d\<rparr>,
      sort_sub_dag_blocks L) \<and> get_causal_blocks d (reference b) 0 = Inr L \<and> distinct (map reference L) \<and>
    reference ` set L = causal_cone d 0 (reference b) \<and> (\<forall>x \<in> set L. get_block d (reference x) = Some x)"
proof -
  let ?r = "reference b" and ?L = "causal_loop d 0 [b] {|reference b|}"
  have inv: "dag_inv d" and cl: "closed d" using ok by (simp_all add: dag_ok_def)
  have start: "commit_once b d = Inr (d\<lparr>ds_committed := {|?r|} |\<union>| ds_committed d\<rparr>)"
    using assms(5) by (simp add: commit_once_eq)
  have cone: "distinct (map reference ?L)" "reference ` set ?L = causal_cone d 0 ?r"
    "\<forall>x \<in> set ?L. get_block d (reference x) = Some x"
    using causal_loop_cone [OF get_block_reference [OF inv] leader, of 0] by simp_all
  have loop: "linearize_loop (d\<lparr>ds_committed := {|?r|} |\<union>| ds_committed d\<rparr>) [b] [] =
      Inr (d\<lparr>ds_committed := fset_of_list (map reference ?L) |\<union>| ({|?r|} |\<union>| ds_committed d)\<rparr>, ?L)"
    using linearize_causal_loop [OF inv cl dup, of "[b]" "{|?r|}" "[]"] leader by simp
  have "?r \<in> reference ` set ?L" by (simp add: cone(2) causal_cone_def)
  then have comm: "fset_of_list (map reference ?L) |\<union>| ({|?r|} |\<union>| ds_committed d) =
      fset_of_list (map reference ?L) |\<union>| ds_committed d"
    by (intro fset_eqI) (auto simp: fset_of_list_elem)
  have "0 < vb_round x" if "x \<in> set ?L" for x
    using causal_cone_round [of "reference x" d 0 ?r] that assms(4) unfolding cone(2) [symmetric]
    by (auto simp del: causal_loop.simps dest: reference_round)
  then have "list_all (\<lambda>x. vb_round x > gc_round d) ?L" by (simp add: list_all_iff gc_round_def)
  then have "linearize_sub_dag b d =
      Inr (d\<lparr>ds_committed := fset_of_list (map reference ?L) |\<union>| ds_committed d\<rparr>, sort_sub_dag_blocks ?L)"
    unfolding linearize_sub_dag_def start rbind_Inr loop comm by (simp del: causal_loop.simps)
  moreover have "get_causal_blocks d ?r 0 = Inr ?L"
    using assms(4,5) leader by (simp add: get_causal_blocks_def del: causal_loop.simps)
  ultimately show ?thesis using cone by blast
qed

text \<open>Causal order: a block never precedes one of its ancestors.\<close>

definition causally_ordered :: "DagState \<Rightarrow> VerifiedBlock list \<Rightarrow> bool" where
  "causally_ordered d bs \<longleftrightarrow> sorted_wrt (\<lambda>x y. \<not> (anc_edge d)\<^sup>+\<^sup>+ (reference x) (reference y)) bs"

lemma sort_causal:
  assumes "layered d"
  shows "causally_ordered d (sort_sub_dag_blocks bs)"
proof -
  have "sorted_wrt (\<lambda>x y. (vb_round x, vb_author x) \<le> (vb_round y, vb_author y)) (sort_sub_dag_blocks bs)"
    using sorted_sort_sub_dag [of bs] by (simp add: sorted_wrt_map)
  then show ?thesis
    unfolding causally_ordered_def
  proof (rule sorted_wrt_mono_rel [rotated])
    fix x y assume "(vb_round x, vb_author x) \<le> (vb_round y, vb_author y)"
    then have "vb_round x \<le> vb_round y" by auto
    then show "\<not> (anc_edge d)\<^sup>+\<^sup>+ (reference x) (reference y)"
      using layered_trancl [OF assms, of "reference x" "reference y"] by auto
  qed
qed

text \<open>The committed sub-dag of a leader: what the commit returns and how it changes the state.\<close>

definition is_commit_of :: "DagState \<Rightarrow> VerifiedBlock \<Rightarrow> DagState \<Rightarrow> CommittedSubDag \<Rightarrow> bool" where
  "is_commit_of d b d' sub \<longleftrightarrow>
     sd_leader sub = reference b \<and>
     reference ` set (sd_blocks sub) = causal_cone d 0 (reference b) \<and>
     distinct (map reference (sd_blocks sub)) \<and>
     (\<forall>x \<in> set (sd_blocks sub). get_block d (reference x) = Some x \<and> \<not> is_committed d (reference x)) \<and>
     sorted (map (\<lambda>x. (vb_round x, vb_author x)) (sd_blocks sub)) \<and> causally_ordered d (sd_blocks sub) \<and>
     unat (cr_index (sd_commit_ref sub)) = unat (ds_last_commit_index d) + 1 \<and>
     sd_timestamp_ms sub = max (vb_timestamp_ms b) (ds_last_commit_timestamp_ms d) \<and>
     ds_last_commit_index d' = cr_index (sd_commit_ref sub) \<and>
     ds_last_commit_timestamp_ms d' = sd_timestamp_ms sub \<and>
     ds_blocks d' = ds_blocks d \<and> ds_genesis d' = ds_genesis d \<and> ds_context d' = ds_context d \<and>
     (\<forall>r. is_committed d' r \<longleftrightarrow> is_committed d r \<or> r \<in> causal_cone d 0 (reference b))"

lemma commit_leader_ok:
  assumes "dag_ok d" and "dup_free d" and "get_block d (reference b) = Some b"
    and "0 < vb_round b" and "\<not> is_committed d (reference b)" and "ds_last_commit_index d \<noteq> - 1"
  shows "\<exists>d' sub. commit_leader H b d = Inr (d', sub) \<and> is_commit_of d b d' sub"
proof -
  obtain L where L: "linearize_sub_dag b d =
      Inr (d\<lparr>ds_committed := fset_of_list (map reference L) |\<union>| ds_committed d\<rparr>, sort_sub_dag_blocks L)"
    "distinct (map reference L)" "reference ` set L = causal_cone d 0 (reference b)"
    "\<forall>x \<in> set L. get_block d (reference x) = Some x"
    using linearize_sub_dag_ok [OF assms(1-5)] by blast
  have open_blocks: "\<not> is_committed d (reference x)" if "x \<in> set L" for x
    using causal_cone_round [of "reference x" d 0 "reference b"] that assms(5) unfolding L(3) [symmetric] by auto
  have dist: "distinct (map reference (sort_sub_dag_blocks L))"
    using L(2) by (simp add: sort_sub_dag_blocks_def distinct_map)
  define idx where "idx = ds_last_commit_index d + 1"
  define sub where "sub = \<lparr>sd_leader = reference b, sd_blocks = sort_sub_dag_blocks L,
    sd_timestamp_ms = max (vb_timestamp_ms b) (ds_last_commit_timestamp_ms d),
    sd_commit_ref = \<lparr>cr_index = idx, cr_digest = derive_commit_digest H idx (reference b)\<rparr>\<rparr>"
  define d' where "d' = d\<lparr>ds_committed := fset_of_list (map reference L) |\<union>| ds_committed d,
    ds_last_commit_index := idx, ds_last_commit_digest := derive_commit_digest H idx (reference b),
    ds_last_commit_timestamp_ms := sd_timestamp_ms sub\<rparr>"
  have run: "commit_leader H b d = Inr (d', sub)"
    using assms(4) L(1) checked_succ(1) [OF assms(6)]
    by (simp add: commit_leader_def record_commit_def d'_def sub_def idx_def Let_def)
  have "is_committed d' r \<longleftrightarrow> is_committed d r \<or> r \<in> causal_cone d 0 (reference b)" for r
    unfolding L(3) [symmetric] by (auto simp: d'_def is_committed_def fset_of_list_elem)
  moreover have "unat idx = unat (ds_last_commit_index d) + 1"
    unfolding idx_def by (rule checked_succ(2) [OF assms(6)])
  ultimately have "is_commit_of d b d' sub"
    unfolding is_commit_of_def using L(3,4) dist open_blocks sorted_sort_sub_dag [of L] sort_causal [of d L] assms(1)
    by (intro conjI) (simp_all add: sub_def d'_def dag_ok_def)
  with run show ?thesis by blast
qed

lemma dag4_dup_free: "n < 2 ^ 32 - 1 \<Longrightarrow> dup_free (dag4 n)"
proof -
  assume n: "n < 2 ^ 32 - 1"
  have gen: "distinct (vb_ancestors b)" if "get_block genesis4 r = Some b" for r b
    using that genesis4(2,4) by (auto simp: get_block_def dag_inv_def)
  have "distinct (vb_ancestors b)" if "b \<in> set (dag4_blocks n)" for b
    using that by (auto simp: dag4_blocks_iff [OF n] round_refs_def)
  with gen dag4_accept [OF n] show ?thesis unfolding dup_free_def by blast
qed

text \<open>\<^bold>\<open>C15\<close>. Committing a leader, in a DAG whose links go to earlier rounds, are closed, and are not
  repeated within a block: the call never panics; the sub-dag holds exactly the uncommitted causal
  history of the leader, each block once, ordered by round and author, so that no block precedes
  one of its ancestors; the commit index is the next one, the timestamp is not smaller than the last
  commit's, and exactly these blocks become committed.\<close>

theorem commit_leader_exact:
  assumes "dag_ok d" and "dup_free d" and "get_block d (reference b) = Some b"
    and "0 < vb_round b" and "\<not> is_committed d (reference b)" and "ds_last_commit_index d \<noteq> - 1"
  shows "\<exists>d' sub. commit_leader H b d = Inr (d', sub) \<and> is_commit_of d b d' sub"
  using assms by (rule commit_leader_ok)

lemma dag_new_commit_index: "dag_new H ctx = Inr d \<Longrightarrow> ds_last_commit_index d = 0"
  by (auto simp: dag_new_def Let_def res_simps GENESIS_COMMIT_INDEX_def)

lemma dag4_commit_index: "n < 2 ^ 32 - 1 \<Longrightarrow> ds_last_commit_index (dag4 n) \<noteq> - 1"
  using dag4_accept [of n] dag_new_commit_index [OF genesis4(1)] by (simp add: same_frame_def)

theorem commit_leader_exact_witness:
  "\<exists>d' sub. commit_leader H0 (block4 3 3 (round_refs 2)) (dag4 5) = Inr (d', sub) \<and>
     is_commit_of (dag4 5) (block4 3 3 (round_refs 2)) d' sub"
proof (rule commit_leader_exact)
  show "dag_ok (dag4 5)" "dup_free (dag4 5)" "ds_last_commit_index (dag4 5) \<noteq> - 1"
    by (simp_all add: dag4_ok dag4_dup_free dag4_commit_index)
  show "get_block (dag4 5) (reference (block4 3 3 (round_refs 2))) = Some (block4 3 3 (round_refs 2))"
    using dag4_get_block [of 5 3 3] by simp
  show "\<not> is_committed (dag4 5) (reference (block4 3 3 (round_refs 2)))"
    by (rule dag4_uncommitted) simp_all
qed simp

text \<open>The hard commit of a leader and the read-only traversal behind its soft commit agree: in
  the same state they select the same blocks, and the hard commit lists them in the order of the
  stable sort by round and author.\<close>

theorem linearize_sorts_causal_blocks:
  assumes "dag_ok d" and "dup_free d" and "get_block d (reference b) = Some b"
    and "0 < vb_round b" and "\<not> is_committed d (reference b)"
  shows "\<exists>d' L. linearize_sub_dag b d = Inr (d', sort_sub_dag_blocks L) \<and>
    get_causal_blocks d (reference b) 0 = Inr L"
  using linearize_sub_dag_ok [OF assms] by blast

theorem linearize_sorts_causal_blocks_witness:
  "\<exists>d' L. linearize_sub_dag (block4 3 3 (round_refs 2)) (dag4 5) = Inr (d', sort_sub_dag_blocks L) \<and>
     get_causal_blocks (dag4 5) (BlockRef 3 3 0) 0 = Inr L"
proof -
  have "\<not> is_committed (dag4 5) (reference (block4 3 3 (round_refs 2)))"
    by (rule dag4_uncommitted) simp_all
  with linearize_sorts_causal_blocks [OF dag4_ok dag4_dup_free, of 5 "block4 3 3 (round_refs 2)"]
    dag4_get_block [of 5 3 3] show ?thesis by simp
qed

text \<open>A block that lists an uncommitted ancestor twice panics the commit: the filter over the
  ancestors keeps both copies, and marking the second one fails the assertion. Nothing on the way
  from the network to the linearizer removes or rejects such a block.\<close>

definition repeated_ancestor_dag :: "DagState res" where
  "repeated_ancestor_dag = dag_accept_blocks [block4 3 3 [BlockRef 2 0 0, BlockRef 2 0 0]] (dag4 2)"

theorem repeated_ancestor_panics:
  "rbind repeated_ancestor_dag (commit_leader H0 (block4 3 3 [BlockRef 2 0 0, BlockRef 2 0 0])) = Inl Assert"
  by code_simp

end
