(* ===== verification/Soft_Commit.thy ===== *)
theory Soft_Commit
  imports Base_Committer
begin

text \<open>
  \<^verbatim>\<open>crates/consensus/src/soft_commit.rs\<close>: the tracker of votes for wave leaders, which fires the
  optimistic commit as soon as a quorum of the voting round refers to the leader block.
\<close>

section \<open>State and operations\<close>

record SoftCommitTracker =
  sct_votes :: "(BlockRef, StakeAggregator) omap"
  sct_soft_committed :: "BlockRef fset"

definition sct_new :: SoftCommitTracker where
  "sct_new = \<lparr>sct_votes = om_empty, sct_soft_committed = {||}\<rparr>"

definition is_leader_round :: "Round \<Rightarrow> bool" where
  "is_leader_round rnd \<longleftrightarrow> rnd > 0 \<and> rnd mod DEFAULT_WAVE_LENGTH = 0"

definition leader_at_round :: "Round \<Rightarrow> nat \<Rightarrow> AuthorityIndex res" where
  "leader_at_round rnd csize =
     rbind (guard DebugAssert (is_leader_round rnd)) (\<lambda>_.
     rbind (guard DebugAssert (csize > 0)) (\<lambda>_.
     checked_rem rnd (word_of_nat csize)))"

definition is_soft_committed :: "SoftCommitTracker \<Rightarrow> BlockRef \<Rightarrow> bool" where
  "is_soft_committed t leader_ref \<longleftrightarrow> leader_ref |\<in>| sct_soft_committed t"

definition add_vote ::
  "BlockRef \<Rightarrow> AuthorityIndex \<Rightarrow> Committee \<Rightarrow> SoftCommitTracker \<Rightarrow> (SoftCommitTracker \<times> bool) res"
where
  "add_vote leader_ref voter c t =
     rbind (guard DebugAssert (is_valid_index c voter)) (\<lambda>_.
     rbind (guard DebugAssert (is_leader_round (br_round leader_ref))) (\<lambda>_.
     if leader_ref |\<in>| sct_soft_committed t then Inr (t, False)
     else
       rbind (sa_add QuorumThreshold voter c (get_or sa_new (sct_votes t) leader_ref)) (\<lambda>(agg, reached).
       let t' = t\<lparr>sct_votes := om_insert leader_ref agg (sct_votes t)\<rparr>
       in if reached
          then Inr (t'\<lparr>sct_soft_committed := finsert leader_ref (sct_soft_committed t')\<rparr>, True)
          else Inr (t', False))))"

section \<open>The tracker as a history of votes\<close>

text \<open>The specification of the tracker is the list of votes it was given.\<close>

type_synonym vote = "BlockRef \<times> AuthorityIndex"

definition voters_for :: "BlockRef \<Rightarrow> vote list \<Rightarrow> AuthorityIndex set" where
  "voters_for L hist = {v. (L, v) \<in> set hist}"

definition valid_vote :: "Committee \<Rightarrow> vote \<Rightarrow> bool" where
  "valid_vote c x \<longleftrightarrow> is_valid_index c (snd x) \<and> is_leader_round (br_round (fst x))"

definition sct_hist :: "Committee \<Rightarrow> vote list \<Rightarrow> SoftCommitTracker \<Rightarrow> bool" where
  "sct_hist c hist t \<longleftrightarrow> (\<forall>x \<in> set hist. valid_vote c x) \<and>
     (\<forall>L. (is_soft_committed t L \<longleftrightarrow> quorum_of c (voters_for L hist)) \<and>
       (\<not> is_soft_committed t L \<longrightarrow>
          sa_inv c (get_or sa_new (sct_votes t) L) \<and>
          fset (agg_votes (get_or sa_new (sct_votes t) L)) = voters_for L hist))"

lemma voters_for_snoc:
  "voters_for L (hist @ [(L', v)]) = (if L' = L then insert v (voters_for L hist) else voters_for L hist)"
  by (auto simp: voters_for_def)

lemma voters_for_members: "\<forall>x \<in> set hist. valid_vote c x \<Longrightarrow> voters_for L hist \<subseteq> members c"
  by (auto simp: voters_for_def valid_vote_def members_def)

lemma sct_hist_new: "wf_committee c \<Longrightarrow> sct_hist c [] sct_new"
  using wf_quorum_pos [of c]
  by (auto simp: sct_hist_def sct_new_def is_soft_committed_def quorum_of_def voters_for_def get_or_def sa_new_def
      sa_inv_new [unfolded sa_new_def])

lemma sct_hist_step:
  assumes wf: "wf_committee c" and hist: "sct_hist c hist t" and vote: "valid_vote c (L, v)"
  shows "\<exists>t' b. add_vote L v c t = Inr (t', b) \<and> sct_hist c (hist @ [(L, v)]) t' \<and>
    (b \<longleftrightarrow> \<not> quorum_of c (voters_for L hist) \<and> quorum_of c (voters_for L (hist @ [(L, v)])))"
proof (cases "is_soft_committed t L")
  case True
  have valid: "\<forall>x \<in> set (hist @ [(L, v)]). valid_vote c x" using hist vote by (simp add: sct_hist_def)
  have q: "quorum_of c (voters_for L hist)" using True hist by (simp add: sct_hist_def)
  then have "quorum_of c (voters_for L (hist @ [(L, v)]))"
    by (rule quorum_of_mono [OF _ _ voters_for_members [OF valid]]) (auto simp: voters_for_snoc)
  with True hist vote q have "sct_hist c (hist @ [(L, v)]) t"
    by (auto simp: sct_hist_def voters_for_snoc)
  moreover have "add_vote L v c t = Inr (t, False)"
    using True vote by (simp add: add_vote_def valid_vote_def is_soft_committed_def)
  ultimately show ?thesis using q by blast
next
  case False
  let ?agg = "get_or sa_new (sct_votes t) L"
  have agg: "sa_inv c ?agg" "fset (agg_votes ?agg) = voters_for L hist" and nq: "\<not> quorum_of c (voters_for L hist)"
    using False hist by (simp_all add: sct_hist_def)
  obtain agg' b where add: "sa_add QuorumThreshold v c ?agg = Inr (agg', b)" "sa_inv c agg'"
    "agg_votes agg' = finsert v (agg_votes ?agg)"
    "b \<longleftrightarrow> v |\<notin>| agg_votes ?agg \<and> unat (cm_quorum_threshold c) \<le> sum (weight c) (fset (agg_votes agg'))"
    using sa_add_member [OF wf agg(1), of v QuorumThreshold] vote by (auto simp: valid_vote_def)
  have valid: "\<forall>x \<in> set (hist @ [(L, v)]). valid_vote c x" using hist vote by (simp add: sct_hist_def)
  have new: "fset (agg_votes agg') = voters_for L (hist @ [(L, v)])" by (simp add: add(3) agg(2) voters_for_snoc)
  have b: "b \<longleftrightarrow> quorum_of c (voters_for L (hist @ [(L, v)]))"
    using add(4) new nq agg(2) voters_for_members [OF valid, of L]
    by (cases "v |\<in>| agg_votes ?agg") (auto simp: quorum_of_def add(3) insert_absorb)
  let ?t' = "t\<lparr>sct_votes := om_insert L agg' (sct_votes t)\<rparr>"
  let ?t'' = "if b then ?t'\<lparr>sct_soft_committed := finsert L (sct_soft_committed t)\<rparr> else ?t'"
  have run: "add_vote L v c t = Inr (?t'', b)"
    using False vote add(1) by (simp add: add_vote_def valid_vote_def is_soft_committed_def Let_def)
  have "sct_hist c (hist @ [(L, v)]) ?t''"
    unfolding sct_hist_def
  proof (intro conjI allI)
    show "\<forall>x \<in> set (hist @ [(L, v)]). valid_vote c x" by (rule valid)
  next
    fix M
    show "is_soft_committed ?t'' M \<longleftrightarrow> quorum_of c (voters_for M (hist @ [(L, v)]))"
      using hist b False by (auto simp: sct_hist_def is_soft_committed_def voters_for_snoc)
    show "\<not> is_soft_committed ?t'' M \<longrightarrow> sa_inv c (get_or sa_new (sct_votes ?t'') M) \<and>
        fset (agg_votes (get_or sa_new (sct_votes ?t'') M)) = voters_for M (hist @ [(L, v)])"
    proof (cases "M = L")
      case True
      then show ?thesis using add(2) new by (simp add: get_or_def)
    next
      case neq: False
      then show ?thesis using hist by (auto simp: sct_hist_def is_soft_committed_def get_or_def voters_for_snoc)
    qed
  qed
  with run b nq show ?thesis by blast
qed

text \<open>A run of the tracker over a list of votes, with the answers it gave.\<close>

definition sct_run :: "Committee \<Rightarrow> vote list \<Rightarrow> SoftCommitTracker \<Rightarrow> (SoftCommitTracker \<times> bool list) res" where
  "sct_run c votes t =
     rfold (\<lambda>(L, v) (t, outs). rbind (add_vote L v c t) (\<lambda>(t', b). Inr (t', outs @ [b]))) votes (t, [])"

definition fires :: "Committee \<Rightarrow> vote list \<Rightarrow> nat \<Rightarrow> bool" where
  "fires c votes i \<longleftrightarrow>
     \<not> quorum_of c (voters_for (fst (votes ! i)) (take i votes)) \<and>
     quorum_of c (voters_for (fst (votes ! i)) (take (Suc i) votes))"

lemma fires_append: "i < length xs \<Longrightarrow> fires c (xs @ ys) i = fires c xs i"
  by (simp add: fires_def nth_append)

lemma sct_run_spec:
  assumes "wf_committee c" and "\<forall>x \<in> set votes. valid_vote c x"
  shows "\<exists>t. sct_run c votes sct_new = Inr (t, map (fires c votes) [0 ..< length votes]) \<and> sct_hist c votes t"
  using assms(2)
proof (induction votes rule: rev_induct)
  case Nil
  then show ?case using sct_hist_new [OF assms(1)] by (simp add: sct_run_def)
next
  case (snoc x xs)
  obtain L v where x: "x = (L, v)" by fastforce
  from snoc obtain t where t: "sct_run c xs sct_new = Inr (t, map (fires c xs) [0 ..< length xs])"
    "sct_hist c xs t" by auto
  from snoc.prems have "valid_vote c (L, v)" by (simp add: x)
  from sct_hist_step [OF assms(1) t(2) this] obtain t' b where step: "add_vote L v c t = Inr (t', b)"
    "sct_hist c (xs @ [(L, v)]) t'"
    "b \<longleftrightarrow> \<not> quorum_of c (voters_for L xs) \<and> quorum_of c (voters_for L (xs @ [(L, v)]))" by blast
  have "b = fires c (xs @ [x]) (length xs)" by (simp add: fires_def x step(3))
  moreover have "map (fires c xs) [0 ..< length xs] = map (fires c (xs @ [x])) [0 ..< length xs]"
    by (simp add: fires_append)
  ultimately have "sct_run c (xs @ [x]) sct_new = Inr (t', map (fires c (xs @ [x])) [0 ..< length (xs @ [x])])"
    using t(1) step(1) by (simp add: sct_run_def rfold_append x)
  with step(2) x show ?case by blast
qed

section \<open>What the tracker promises\<close>

text \<open>\<^bold>\<open>C22\<close>. The tracker refines its vote history. Fed with any votes of members for leader rounds, in
  any order and with repetitions, it never panics; the call for the \<open>i\<close>-th vote returns true exactly
  when that vote completes a quorum of distinct voters for its leader block, so at most once per block,
  and a block is soft-committed exactly when its voters are a quorum.\<close>

theorem soft_commit_refines_history:
  assumes "wf_committee c" and "\<forall>x \<in> set votes. valid_vote c x"
  shows "\<exists>t. sct_run c votes sct_new = Inr (t, map (fires c votes) [0 ..< length votes]) \<and>
    (\<forall>L. is_soft_committed t L \<longleftrightarrow> quorum_of c (voters_for L votes))"
  using sct_run_spec [OF assms] by (auto simp: sct_hist_def)

theorem soft_commit_refines_history_witness:
  "\<exists>t. sct_run committee4 [(BlockRef 3 3 0, 0), (BlockRef 3 3 0, 0), (BlockRef 3 3 0, 1), (BlockRef 3 3 0, 2)] sct_new =
     Inr (t, [False, False, False, True]) \<and> is_soft_committed t (BlockRef 3 3 0)"
proof -
  let ?v = "[(BlockRef 3 3 0, 0), (BlockRef 3 3 0, 0), (BlockRef 3 3 0, 1), (BlockRef 3 3 0, 2)]"
  have "\<forall>x \<in> set ?v. valid_vote committee4 x"
    by (simp add: valid_vote_def is_leader_round_def DEFAULT_WAVE_LENGTH_def MINIMUM_WAVE_LENGTH_def)
  from soft_commit_refines_history [OF wf_committee4 this] obtain t outs where
    t: "sct_run committee4 ?v sct_new = Inr (t, outs)"
    "is_soft_committed t (BlockRef 3 3 0) \<longleftrightarrow> quorum_of committee4 (voters_for (BlockRef 3 3 0) ?v)" by blast
  have "voters_for (BlockRef 3 3 0) ?v = {0, 1, 2}" by (auto simp: voters_for_def)
  then have "is_soft_committed t (BlockRef 3 3 0)"
    using t(2) by (simp add: quorum_of_def members_def committee4_weight)
  moreover have "map_sum id snd (sct_run committee4 ?v sct_new) = Inr [False, False, False, True]" by code_simp
  ultimately show ?thesis using t(1) by simp
qed

text \<open>\<^bold>\<open>C39\<close>. The tracker and the committer agree on the leaders: for the default options (waves of
  three rounds, no offsets) \<^verbatim>\<open>is_leader_round\<close> holds exactly of the positive rounds in which the
  committer elects a leader, and \<^verbatim>\<open>leader_at_round\<close> is then the authority it elects.\<close>

theorem leader_at_round_elects:
  assumes "bc_ok bc" and "bc_options bc = default_options" and "rnd > 0"
  shows "(is_leader_round rnd \<longleftrightarrow> elect_leader bc rnd \<noteq> Inr None) \<and>
    (is_leader_round rnd \<longrightarrow> (\<exists>a. leader_at_round rnd (committee_size (committee (bc_context bc))) = Inr a \<and>
       elect_leader bc rnd = Inr (Some (Slot rnd a))))"
proof -
  have size: "size32 bc \<noteq> 0" "committee_size (committee (bc_context bc)) > 0"
    using size32_pos [OF assms(1)] by (metis unat_eq_0 gr0I)+
  have "unat rnd mod unat (DEFAULT_WAVE_LENGTH) = 0 \<longleftrightarrow> rnd mod DEFAULT_WAVE_LENGTH = 0"
    by (metis unat_mod unat_eq_0)
  then have "is_leader bc rnd \<longleftrightarrow> is_leader_round rnd"
    using assms(2,3) by (simp add: is_leader_def is_leader_round_def default_options_def)
  with size elect_leader_value [OF assms(1), of rnd] assms(2) show ?thesis
    by (simp add: leader_at_round_def checked_rem_def size32_def default_options_def)
qed

theorem leader_at_round_elects_witness:
  "leader_at_round 6 (committee_size (committee (bc_context bc4))) = Inr 2 \<and> elect_leader bc4 6 = Inr (Some (Slot 6 2))"
proof -
  have "is_leader_round 6" by (simp add: is_leader_round_def DEFAULT_WAVE_LENGTH_def MINIMUM_WAVE_LENGTH_def)
  moreover have "leader_at_round 6 (committee_size (committee (bc_context bc4))) = Inr 2" by code_simp
  ultimately show ?thesis
    using leader_at_round_elects [OF bc4_ok, of 6] by (auto simp: bc4_def)
qed

end
