(* ===== verification/Universal_Committer.thy ===== *)
theory Universal_Committer
  imports Base_Committer
begin

text \<open>
  \<^verbatim>\<open>crates/consensus/src/universal_committer.rs\<close>: the driver of the commit rules over all leaders
  since the last decided one, and its builder.
\<close>

section \<open>Deciding leaders\<close>

record UniversalCommitter =
  uc_context :: Context
  uc_committers :: "BaseCommitter list"

text \<open>One leader: the direct rule, then the indirect rule over the statuses of later leaders.\<close>

definition decide_slot ::
  "BaseCommitter \<Rightarrow> DagState \<Rightarrow> Slot \<Rightarrow> (LeaderStatus \<times> Decision) list \<Rightarrow> (LeaderStatus \<times> Decision) res"
where
  "decide_slot committer d slot leaders =
     rbind (try_direct_decide committer d slot) (\<lambda>status.
     if is_decided status then Inr (status, Direct)
     else rbind (try_indirect_decide committer d slot (map fst leaders)) (\<lambda>status'.
       Inr (status', Indirect)))"

text \<open>The loop over the committers; the flag tells that the outer loop is left.\<close>

fun try_committers ::
  "DagState \<Rightarrow> Slot \<Rightarrow> Round \<Rightarrow> BaseCommitter list \<Rightarrow> (LeaderStatus \<times> Decision) list \<Rightarrow>
     (bool \<times> (LeaderStatus \<times> Decision) list) res"
where
  "try_committers d last_decided rnd [] leaders = Inr (False, leaders)"
| "try_committers d last_decided rnd (committer # rest) leaders =
     rbind (elect_leader committer rnd) (\<lambda>elected.
     case elected of
       None \<Rightarrow> try_committers d last_decided rnd rest leaders
     | Some slot \<Rightarrow>
         if slot = last_decided then Inr (True, leaders)
         else rbind (decide_slot committer d slot leaders) (\<lambda>x.
           try_committers d last_decided rnd rest (x # leaders)))"

fun decide_rounds ::
  "DagState \<Rightarrow> Slot \<Rightarrow> BaseCommitter list \<Rightarrow> Round list \<Rightarrow> (LeaderStatus \<times> Decision) list \<Rightarrow>
     (LeaderStatus \<times> Decision) list res"
where
  "decide_rounds d last_decided committers [] leaders = Inr leaders"
| "decide_rounds d last_decided committers (rnd # rounds) leaders =
     rbind (try_committers d last_decided rnd (rev committers) leaders) (\<lambda>(stop, leaders').
     if stop then Inr leaders' else decide_rounds d last_decided committers rounds leaders')"

fun decided_prefix :: "(LeaderStatus \<times> Decision) list \<Rightarrow> DecidedLeader list" where
  "decided_prefix [] = []"
| "decided_prefix ((leader, decision) # rest) =
     (if ls_round leader = GENESIS_ROUND then decided_prefix rest
      else case into_decided_leader (decision = Direct) leader of
        None \<Rightarrow> []
      | Some decided_leader \<Rightarrow> decided_leader # decided_prefix rest)"

text \<open>The rounds \<^verbatim>\<open>a..=b\<close>.\<close>

definition rounds_incl :: "Round \<Rightarrow> Round \<Rightarrow> Round list" where
  "rounds_incl a b = map word_of_nat [unat a ..< Suc (unat b)]"

definition try_decide :: "UniversalCommitter \<Rightarrow> DagState \<Rightarrow> Slot \<Rightarrow> DecidedLeader list res" where
  "try_decide uc d last_decided =
     rbind (decide_rounds d last_decided (uc_committers uc)
         (rev (rounds_incl (sl_round last_decided) (saturating_sub (ds_highest_accepted_round d) 2))) [])
       (\<lambda>leaders. Inr (decided_prefix leaders))"

fun elected_authorities :: "Round \<Rightarrow> BaseCommitter list \<Rightarrow> AuthorityIndex list res" where
  "elected_authorities rnd [] = Inr []"
| "elected_authorities rnd (c # cs) =
     rbind (elect_leader c rnd) (\<lambda>l. rbind (elected_authorities rnd cs) (\<lambda>as.
     Inr (case l of None \<Rightarrow> as | Some s \<Rightarrow> sl_authority s # as)))"

definition get_leaders :: "UniversalCommitter \<Rightarrow> Round \<Rightarrow> AuthorityIndex list res" where
  "get_leaders uc rnd = elected_authorities rnd (uc_committers uc)"

section \<open>The builder\<close>

record UniversalCommitterBuilder =
  ub_context :: Context
  ub_wave_length :: Round
  ub_number_of_leaders :: usize
  ub_pipeline :: bool

definition builder_new :: "Context \<Rightarrow> UniversalCommitterBuilder res" where
  "builder_new context =
     rbind (guard DebugAssert (committee_size (committee context) > 0)) (\<lambda>_.
     Inr \<lparr>ub_context = context, ub_wave_length = DEFAULT_WAVE_LENGTH, ub_number_of_leaders = 1,
       ub_pipeline = False\<rparr>)"

definition with_wave_length :: "Round \<Rightarrow> UniversalCommitterBuilder \<Rightarrow> UniversalCommitterBuilder" where
  "with_wave_length wave_length b = b\<lparr>ub_wave_length := wave_length\<rparr>"

definition with_number_of_leaders :: "usize \<Rightarrow> UniversalCommitterBuilder \<Rightarrow> UniversalCommitterBuilder" where
  "with_number_of_leaders n b = b\<lparr>ub_number_of_leaders := n\<rparr>"

definition with_pipeline :: "bool \<Rightarrow> UniversalCommitterBuilder \<Rightarrow> UniversalCommitterBuilder" where
  "with_pipeline pipeline b = b\<lparr>ub_pipeline := pipeline\<rparr>"

definition range32 :: "u32 \<Rightarrow> u32 list" where
  "range32 n = map word_of_nat [0 ..< unat n]"

definition build :: "UniversalCommitterBuilder \<Rightarrow> UniversalCommitter res" where
  "build b =
     rbind (guard DebugAssert (ub_wave_length b \<ge> 3)) (\<lambda>_.
     rbind (guard DebugAssert (ub_number_of_leaders b > 0)) (\<lambda>_.
     let leader_offsets = range32 (ucast (ub_number_of_leaders b));
         round_offsets = (if ub_pipeline b then range32 (ub_wave_length b) else [0])
     in rbind (rfold (\<lambda>round_offset committers.
            rfold (\<lambda>leader_offset committers.
              rbind (base_committer_new (ub_context b)
                  \<lparr>bo_wave_length = ub_wave_length b, bo_leader_offset = leader_offset,
                    bo_round_offset = round_offset\<rparr>) (\<lambda>bc.
              Inr (committers @ [bc]))) leader_offsets committers) round_offsets [])
          (\<lambda>committers. Inr \<lparr>uc_context = ub_context b, uc_committers = committers\<rparr>)))"

section \<open>The sequence of statuses\<close>

text \<open>The committer of a node: one leader per wave of three rounds, no offsets.\<close>

definition uc_default :: "UniversalCommitter \<Rightarrow> BaseCommitter \<Rightarrow> bool" where
  "uc_default uc bc \<longleftrightarrow> uc_committers uc = [bc] \<and> bc_ok bc \<and> bc_options bc = default_options"

lemma build_default:
  assumes "wf_committee (committee context)"
  shows "\<exists>uc bc. rbind (builder_new context) build = Inr uc \<and> uc_default uc bc \<and> bc_context bc = context"
  using assms
  by (auto simp: builder_new_def build_def range32_def base_committer_new_def uc_default_def bc_ok_def
      default_options_def DEFAULT_WAVE_LENGTH_def MINIMUM_WAVE_LENGTH_def wf_committee_def committee_size_def)

definition leader_slot :: "BaseCommitter \<Rightarrow> Round \<Rightarrow> Slot" where
  "leader_slot bc rnd = Slot rnd (rnd mod size32 bc)"

text \<open>A status for the slot \<open>s\<close>: undecided, skipped, or an uncommitted block of the slot.\<close>

definition status_of :: "DagState \<Rightarrow> Slot \<Rightarrow> LeaderStatus \<Rightarrow> bool" where
  "status_of d s st \<longleftrightarrow> st = Undecided s \<or> st = Skip s \<or> (\<exists>L \<in> candidates d s (\<lambda>_. True). st = Commit L)"

lemma ls_round_status: "status_of d s st \<Longrightarrow> ls_round st = sl_round s"
  by (auto simp: status_of_def candidates_def vb_slot_sel [OF refl])

definition no_forks :: "DagState \<Rightarrow> bool" where
  "no_forks d \<longleftrightarrow> (\<forall>rnd > 0. few_equivocators d d rnd)"

text \<open>A view of the DAG in which the committer can work, up to the last round number but one.\<close>

definition view_ok :: "BaseCommitter \<Rightarrow> DagState \<Rightarrow> bool" where
  "view_ok bc d \<longleftrightarrow> dag_ok d \<and> bc_ok bc \<and> reads bc d \<and> bc_options bc = default_options \<and> no_forks d \<and>
     unat (ds_highest_accepted_round d) + 1 < 2 ^ 32"

definition due :: "BaseCommitter \<Rightarrow> DagState \<Rightarrow> Round \<Rightarrow> bool" where
  "due bc d rnd \<longleftrightarrow> 0 < rnd \<and> is_leader bc rnd \<and> unat rnd + 2 \<le> unat (ds_highest_accepted_round d)"

lemma due_leader_slot:
  assumes "view_ok bc d" and "due bc d rnd"
  shows "leader_slot3 bc d (leader_slot bc rnd)" and "few_equivocators d d (rnd + 1)"
    and "elect_leader bc rnd = Inr (Some (leader_slot bc rnd))"
proof -
  have "unat rnd + 3 < 2 ^ 32" using assms by (simp add: view_ok_def due_def)
  then show ls: "leader_slot3 bc d (leader_slot bc rnd)"
    using assms by (simp add: leader_slot3_def leader_slot_def view_ok_def due_def default_options_def
        DEFAULT_WAVE_LENGTH_def MINIMUM_WAVE_LENGTH_def)
  have "0 < rnd + 1" using leader_slot3_rounds [OF ls] by (auto simp: leader_slot_def)
  then show "few_equivocators d d (rnd + 1)" using assms(1) by (simp add: view_ok_def no_forks_def)
  show "elect_leader bc rnd = Inr (Some (leader_slot bc rnd))"
    using elect_leader_value [of bc rnd] assms
    by (simp add: view_ok_def due_def leader_slot_def default_options_def)
qed

lemma indirect_outcome:
  assumes "leader_slot3 bc d s" and "few_equivocators d d (sl_round s + 1)"
  shows "\<exists>st. try_indirect_decide bc d s leaders = Inr st \<and> status_of d s st"
proof -
  have add: "checked_add (sl_round s) (bo_wave_length (bc_options bc)) = Inr (sl_round s + 3)"
    using assms(1) by (simp add: leader_slot3_def checked_add_def)
  have "\<exists>st. indirect_loop bc d s leaders = Inr st \<and> status_of d s st"
  proof (induction leaders)
    case (Cons x xs)
    have "\<exists>st. decide_leader_from_anchor bc d anchor s = Inr st \<and> status_of d s st" for anchor
      using anchor_outcome [OF assms, of anchor] by (fastforce simp: status_of_def candidates_def)
    with Cons add show ?case by (cases x) (auto simp: status_of_def)
  qed (simp add: status_of_def)
  then show ?thesis using assms(1) by (simp add: try_indirect_decide_def leader_slot3_def)
qed

lemma decide_slot_outcome:
  assumes "leader_slot3 bc d s" and "few_equivocators d d (sl_round s + 1)"
  shows "\<exists>st dec. decide_slot bc d s leaders = Inr (st, dec) \<and> status_of d s st"
proof -
  obtain st where st: "try_direct_decide bc d s = Inr st" "status_of d s st"
    using direct_outcome [OF assms] by (fastforce simp: status_of_def candidates_def)
  with indirect_outcome [OF assms, of "map fst leaders"] show ?thesis
    by (auto simp: decide_slot_def)
qed

text \<open>The statuses of the leaders of a list of rounds, decided from the last one to the first.\<close>

fun statuses :: "BaseCommitter \<Rightarrow> DagState \<Rightarrow> Round list \<Rightarrow> (LeaderStatus \<times> Decision) list res" where
  "statuses bc d [] = Inr []"
| "statuses bc d (rnd # rounds) =
     rbind (statuses bc d rounds) (\<lambda>later.
     rbind (decide_slot bc d (leader_slot bc rnd) later) (\<lambda>x. Inr (x # later)))"

lemma statuses_total:
  assumes "view_ok bc d" and "\<forall>rnd \<in> set rounds. due bc d rnd"
  shows "\<exists>xs. statuses bc d rounds = Inr xs \<and>
    list_all2 (\<lambda>rnd x. status_of d (leader_slot bc rnd) (fst x)) rounds xs"
  using assms(2)
proof (induction rounds)
  case (Cons rnd rounds)
  then obtain xs where xs: "statuses bc d rounds = Inr xs"
    "list_all2 (\<lambda>rnd x. status_of d (leader_slot bc rnd) (fst x)) rounds xs" by auto
  have "due bc d rnd" using Cons.prems by simp
  note s = due_leader_slot [OF assms(1) this]
  from decide_slot_outcome [OF s(1), of xs] s(2) xs show ?case by (auto simp: leader_slot_def)
qed simp

lemma decide_rounds_append:
  assumes "view_ok bc d" and "\<forall>rnd \<in> set rs. 0 < rnd \<and> unat rnd + 2 \<le> unat (ds_highest_accepted_round d) \<and> rnd \<noteq> sl_round ld"
    and "statuses bc d done = Inr xs" and "\<forall>rnd \<in> set done. due bc d rnd"
  shows "\<exists>ys. statuses bc d (filter (is_leader bc) (rev rs) @ done) = Inr ys \<and>
    decide_rounds d ld [bc] (rs @ rest) xs = decide_rounds d ld [bc] rest ys"
  using assms(2-4)
proof (induction rs arbitrary: "done" xs)
  case (Cons rnd rs)
  show ?case
  proof (cases "is_leader bc rnd")
    case False
    then have "elect_leader bc rnd = Inr None"
      using elect_leader_value [of bc rnd] assms(1) by (simp add: view_ok_def)
    with Cons.IH [of "done" xs] Cons.prems False show ?thesis by simp
  next
    case True
    with Cons.prems have due: "due bc d rnd" by (simp add: due_def)
    note s = due_leader_slot [OF assms(1) due]
    obtain x where x: "decide_slot bc d (leader_slot bc rnd) xs = Inr x"
      using decide_slot_outcome [OF s(1), of xs] s(2) by (auto simp: leader_slot_def)
    have "leader_slot bc rnd \<noteq> ld" using Cons.prems(1) by (auto simp: leader_slot_def)
    moreover have "statuses bc d (rnd # done) = Inr (x # xs)" using x Cons.prems(2) by simp
    ultimately show ?thesis
      using Cons.IH [of "rnd # done" "x # xs"] Cons.prems True due s(3) x by (auto simp: filter_append)
  qed
qed simp

text \<open>The rounds of the leaders to decide after the slot \<open>ld\<close>.\<close>

definition due_rounds :: "BaseCommitter \<Rightarrow> DagState \<Rightarrow> Slot \<Rightarrow> Round list" where
  "due_rounds bc d ld =
     filter (is_leader bc) (map word_of_nat [Suc (unat (sl_round ld)) ..< unat (ds_highest_accepted_round d) - 1])"

lemma due_rounds_iff:
  assumes "view_ok bc d"
  shows "rnd \<in> set (due_rounds bc d ld) \<longleftrightarrow> due bc d rnd \<and> sl_round ld < rnd"
proof -
  have hi: "unat (ds_highest_accepted_round d) < 2 ^ 32" using assms by (simp add: view_ok_def)
  have inv: "unat (word_of_nat n :: Round) = n" if "n < unat (ds_highest_accepted_round d) - 1" for n
    using that hi by (simp add: unat_of_nat)
  have "rnd \<in> word_of_nat ` {Suc (unat (sl_round ld)) ..< unat (ds_highest_accepted_round d) - 1} \<longleftrightarrow>
      sl_round ld < rnd \<and> unat rnd + 2 \<le> unat (ds_highest_accepted_round d)"
  proof
    assume "rnd \<in> word_of_nat ` {Suc (unat (sl_round ld)) ..< unat (ds_highest_accepted_round d) - 1}"
    then obtain n where "rnd = word_of_nat n" "Suc (unat (sl_round ld)) \<le> n" "n < unat (ds_highest_accepted_round d) - 1"
      by auto
    with inv [of n] show "sl_round ld < rnd \<and> unat rnd + 2 \<le> unat (ds_highest_accepted_round d)"
      by (simp add: word_less_nat_alt)
  next
    assume "sl_round ld < rnd \<and> unat rnd + 2 \<le> unat (ds_highest_accepted_round d)"
    then show "rnd \<in> word_of_nat ` {Suc (unat (sl_round ld)) ..< unat (ds_highest_accepted_round d) - 1}"
      by (intro image_eqI [of _ _ "unat rnd"]) (auto simp: word_less_nat_alt)
  qed
  then show ?thesis
    unfolding due_rounds_def due_def by (auto dest: le_less_trans [OF word_zero_le])
qed

lemma range_split:
  assumes "unat hi < 2 ^ 32" and "2 \<le> unat hi"
  shows "rounds_incl lo (saturating_sub hi 2) =
    (if unat lo + 2 \<le> unat hi then lo # map word_of_nat [Suc (unat lo) ..< unat hi - 1] else [])"
proof -
  have "unat (saturating_sub hi 2) = unat hi - 2" by (simp add: unat_saturating_sub)
  then have "Suc (unat (saturating_sub hi 2)) = unat hi - 1" using assms(2) by simp
  then show ?thesis by (simp add: rounds_incl_def upt_conv_Cons)
qed

text \<open>The driver computes the statuses of the due leaders, in ascending order, and returns their
  decided prefix.\<close>

lemma try_decide_statuses:
  assumes "uc_default uc bc" and "view_ok bc d" and "ld = leader_slot bc (sl_round ld)" and "is_leader bc (sl_round ld)"
  shows "\<exists>xs. statuses bc d (due_rounds bc d ld) = Inr xs \<and> try_decide uc d ld = Inr (decided_prefix xs) \<and>
    list_all2 (\<lambda>rnd x. status_of d (leader_slot bc rnd) (fst x)) (due_rounds bc d ld) xs"
proof -
  let ?hi = "ds_highest_accepted_round d"
  let ?rs = "map word_of_nat [Suc (unat (sl_round ld)) ..< unat ?hi - 1] :: Round list"
  obtain xs where xs: "statuses bc d (due_rounds bc d ld) = Inr xs"
    "list_all2 (\<lambda>rnd x. status_of d (leader_slot bc rnd) (fst x)) (due_rounds bc d ld) xs"
    using statuses_total [OF assms(2)] due_rounds_iff [OF assms(2)] by blast
  have elect: "elect_leader bc (sl_round ld) = Inr (Some ld)"
    using elect_leader_value [of bc "sl_round ld"] assms(2-4)
    by (simp add: view_ok_def leader_slot_def default_options_def)
  have "decide_rounds d ld [bc] (rev (rounds_incl (sl_round ld) (saturating_sub ?hi 2))) [] = Inr xs"
  proof (cases "2 \<le> unat ?hi")
    case True
    have good: "0 < rnd \<and> unat rnd + 2 \<le> unat ?hi \<and> rnd \<noteq> sl_round ld" if "rnd \<in> set (rev ?rs)" for rnd
    proof -
      from that obtain n where n: "rnd = word_of_nat n" "Suc (unat (sl_round ld)) \<le> n" "n < unat ?hi - 1" by auto
      then have "unat rnd = n" using unsigned_less [where ?'a = nat, of ?hi] by (simp add: unat_of_nat)
      with n show ?thesis by (auto simp: word_less_nat_alt)
    qed
    obtain ys where ys: "statuses bc d (filter (is_leader bc) (rev (rev ?rs)) @ []) = Inr ys"
      "decide_rounds d ld [bc] (rev ?rs @ [sl_round ld]) [] = decide_rounds d ld [bc] [sl_round ld] ys"
      using decide_rounds_append [OF assms(2), of "rev ?rs" ld "[]" "[]" "[sl_round ld]"] good by auto
    have "ys = xs" using ys(1) xs(1) by (simp add: due_rounds_def)
    with ys(2) elect show ?thesis
      using range_split [OF _ True, of "sl_round ld"] unsigned_less [where ?'a = nat, of ?hi] xs(1)
      by (auto simp: due_rounds_def split: if_splits)
  next
    case False
    then have "due_rounds bc d ld = []" by (simp add: due_rounds_def)
    then have "xs = []" using xs(1) by simp
    moreover have "saturating_sub ?hi 2 = 0" using False unat_saturating_sub [of ?hi 2] by (simp add: unat_eq_0 flip: unat_0_iff)
    ultimately show ?thesis using elect
      by (cases "sl_round ld = 0") (auto simp: rounds_incl_def unat_eq_0)
  qed
  with xs assms(1) show ?thesis by (auto simp: try_decide_def uc_default_def)
qed

end
