(* ===== verification/Commit_Agreement.thy ===== *)
theory Commit_Agreement
  imports Universal_Committer "HOL-Library.Sublist"
begin

text \<open>
  Agreement of the committed sequences: what \<^verbatim>\<open>UniversalCommitter::try_decide\<close> returns for two
  consistent views of the DAG, from the same last decided leader. The proof follows the anchors of the
  indirect rule from the last common leader backwards.
\<close>

section \<open>The history of an anchor\<close>

text \<open>Every block above round 1 refers to a quorum of its previous round. The protocol demands it of
  valid blocks; the code accepts blocks without a check.\<close>

definition quorum_parents :: "DagState \<Rightarrow> bool" where
  "quorum_parents d \<longleftrightarrow> (\<forall>r b. get_block d r = Some b \<longrightarrow> 1 < br_round r \<longrightarrow>
     quorum_of (dag_committee d) (br_author ` {a \<in> set (vb_ancestors b). br_round a = br_round r - 1}))"

lemma history_authors:
  assumes "dag_ok d" and "0 < rnd"
  shows "br_author ` anchor_history d A rnd \<subseteq> members (dag_committee d)"
proof
  fix a assume "a \<in> br_author ` anchor_history d A rnd"
  then obtain q b where q: "get_block d q = Some b" "br_round q = rnd" "a = br_author q"
    by (auto simp: anchor_history_def dag_refs_def)
  have inv: "dag_inv d" using assms(1) by (simp add: dag_ok_def)
  from get_block_above_genesis [OF inv, of q] q assms(2) have b: "om_get (ds_blocks d) q = Some b" by simp
  with dag_inv_blockD [OF inv b] q(3) show "a \<in> members (dag_committee d)" by (auto simp: members_def)
qed

lemma history_covers:
  assumes ok: "dag_ok d" and qp: "quorum_parents d" and "get_block d q = Some A" and "rnd < br_round q" and pos: "0 < rnd"
  shows "quorum_of (dag_committee d) (br_author ` anchor_history d A rnd)"
  using assms(3,4)
proof (induction "unat (br_round q) - unat rnd" arbitrary: q A rule: less_induct)
  case less
  let ?P = "{a \<in> set (vb_ancestors A). br_round a = br_round q - 1}"
  have lt: "unat rnd < unat (br_round q)" "0 < unat rnd" using less.prems(2) pos by (simp_all add: word_less_nat_alt)
  then have q1: "1 < br_round q" "unat (br_round q - 1) = unat (br_round q) - 1"
    by (simp_all add: word_less_nat_alt pred_round)
  have Q: "quorum_of (dag_committee d) (br_author ` ?P)" using qp less.prems(1) q1(1) by (simp add: quorum_parents_def)
  have known: "a \<in> dag_refs d" if "a \<in> ?P" for a
  proof -
    have "br_round a \<noteq> 0" using that q1(2) lt by auto
    with ancestors_known [OF ok less.prems(1)] that show ?thesis by blast
  qed
  show ?case
  proof (cases "br_round q - 1 = rnd")
    case True
    then have "?P \<subseteq> anchor_history d A rnd" using known by (auto simp: anchor_history_def)
    then show ?thesis using quorum_of_mono [OF Q _ history_authors [OF ok pos]] by blast
  next
    case False
    have "br_author ` ?P \<noteq> {}" using cq.quorum_nonempty [OF dag_ok_wf [OF ok]] Q by (simp only: is_quorum_iff) blast
    then obtain a B where a: "a \<in> ?P" "get_block d a = Some B" using known by (fastforce simp: dag_refs_def)
    have "unat (br_round q) - 1 \<noteq> unat rnd" using False q1(2) by (metis word_unat_eq_iff)
    then have "rnd < br_round a" "unat (br_round a) - unat rnd < unat (br_round q) - unat rnd"
      using a(1) q1(2) lt by (auto simp: word_less_nat_alt)
    from less.hyps [OF this(2) a(2) this(1)]
    have B: "quorum_of (dag_committee d) (br_author ` anchor_history d B rnd)" .
    have "anchor_history d B rnd \<subseteq> anchor_history d A rnd"
    proof
      fix x assume "x \<in> anchor_history d B rnd"
      then obtain y where y: "x \<in> dag_refs d" "br_round x = rnd" "y \<in> set (vb_ancestors B)" "(anc_edge d)\<^sup>*\<^sup>* y x"
        by (auto simp: anchor_history_def)
      have "anc_edge d a y" using a(2) y(3) by (auto simp: anc_edge_def)
      then have "(anc_edge d)\<^sup>*\<^sup>* a x" using y(4) by (rule converse_rtranclp_into_rtranclp)
      with a(1) y(1,2) show "x \<in> anchor_history d A rnd" by (auto simp: anchor_history_def)
    qed
    then show ?thesis using quorum_of_mono [OF B _ history_authors [OF ok pos]] by blast
  qed
qed

text \<open>The history of a block is the same in two consistent views that have it.\<close>

lemma history_view:
  assumes ok: "dag_ok d" "dag_ok d'" and cons: "consistent d d'"
    and A: "get_block d q = Some A" "get_block d' q = Some A" and pos: "0 < rnd"
  shows "anchor_history d A rnd \<subseteq> anchor_history d' A rnd"
proof
  fix x assume "x \<in> anchor_history d A rnd"
  then obtain a where a: "a \<in> set (vb_ancestors A)" "(anc_edge d)\<^sup>*\<^sup>* a x" "br_round x = rnd"
    by (auto simp: anchor_history_def)
  have "(anc_edge d')\<^sup>*\<^sup>* a x \<and> x \<in> dag_refs d'" if "0 < br_round x"
    using a(2) that
  proof induction
    case base
    then show ?case using ancestors_known [OF ok(2) A(2) a(1)] by auto
  next
    case (step y z)
    have "br_round z < br_round y" using step.hyps(2) ok(1) by (auto simp: dag_ok_def dest: layered_edge)
    then have y: "(anc_edge d')\<^sup>*\<^sup>* a y" "y \<in> dag_refs d'" using step.IH step.prems by (auto intro: less_trans)
    from step.hyps(2) obtain b where b: "get_block d y = Some b" "z \<in> set (vb_ancestors b)" by (auto simp: anc_edge_def)
    have "anc_edge d' y z" using consistent_get [OF cons y(2) b(1)] b(2) by (auto simp: anc_edge_def)
    moreover from this have "z \<in> dag_refs d'" using ok(2) step.prems by (auto simp: dag_ok_def closed_def)
    ultimately show ?case using y(1) by auto
  qed
  with a pos show "x \<in> anchor_history d' A rnd" by (auto simp: anchor_history_def)
qed

section \<open>Two views from one decided leader\<close>

definition committed_up_to :: "DagState \<Rightarrow> Round \<Rightarrow> bool" where
  "committed_up_to d rnd \<longleftrightarrow> (\<forall>r. is_committed d r \<longrightarrow> br_round r \<le> rnd)"

definition honest_majority :: "DagState \<Rightarrow> DagState \<Rightarrow> bool" where
  "honest_majority d d' \<longleftrightarrow> (\<forall>rnd > 0. few_equivocators d d' rnd)"

definition two_views :: "BaseCommitter \<Rightarrow> DagState \<Rightarrow> BaseCommitter \<Rightarrow> DagState \<Rightarrow> Round \<Rightarrow> bool" where
  "two_views bc d bc' d' rnd \<longleftrightarrow> view_ok bc d \<and> view_ok bc' d' \<and> consistent d d' \<and> honest_majority d d' \<and>
     quorum_parents d \<and> quorum_parents d' \<and> committed_up_to d rnd \<and> committed_up_to d' rnd"

lemma few_equivocators_sym: "consistent d d' \<Longrightarrow> few_equivocators d d' rnd \<longleftrightarrow> few_equivocators d' d rnd"
  by (simp add: few_equivocators_def equivocators_def consistent_def Un_commute)

lemma two_views_sym: "two_views bc d bc' d' rnd \<Longrightarrow> two_views bc' d' bc d rnd"
  using few_equivocators_sym [of d d'] consistent_sym [of d d'] by (auto simp: two_views_def honest_majority_def)

lemma same_leaders:
  assumes "two_views bc d bc' d' ld"
  shows "is_leader bc = is_leader bc'" and "leader_slot bc = leader_slot bc'"
  using assms by (auto simp: two_views_def view_ok_def reads_def consistent_def is_leader_def leader_slot_def
      size32_def fun_eq_iff)

text \<open>A slot both views can decide.\<close>

definition common_slot :: "BaseCommitter \<Rightarrow> DagState \<Rightarrow> BaseCommitter \<Rightarrow> DagState \<Rightarrow> Round \<Rightarrow> Slot \<Rightarrow> bool" where
  "common_slot bc d bc' d' ld s \<longleftrightarrow> two_views bc d bc' d' ld \<and> leader_slot3 bc d s \<and> leader_slot3 bc' d' s \<and> ld < sl_round s"

lemma common_slot_sym: "common_slot bc d bc' d' ld s \<Longrightarrow> common_slot bc' d' bc d ld s"
  using two_views_sym by (auto simp: common_slot_def)

lemma common_slotD:
  assumes "common_slot bc d bc' d' ld s"
  shows "leader_slot3 bc d s" "leader_slot3 bc' d' s" "consistent d d'" "dag_ok d" "dag_ok d'"
    "few_equivocators d d' (sl_round s + 1)" "few_equivocators d d' (sl_round s + 2)"
    "few_equivocators d d (sl_round s + 1)" "few_equivocators d' d' (sl_round s + 1)"
proof -
  show ls: "leader_slot3 bc d s" "leader_slot3 bc' d' s" and cons: "consistent d d'" "dag_ok d" "dag_ok d'"
    using assms by (auto simp: common_slot_def two_views_def leader_slot3_def)
  have "0 < sl_round s + 1" "0 < sl_round s + 2" using leader_slot3_rounds [OF ls(1)] by auto
  with assms show few: "few_equivocators d d' (sl_round s + 1)" "few_equivocators d d' (sl_round s + 2)"
    by (auto simp: common_slot_def two_views_def honest_majority_def)
  show "few_equivocators d d (sl_round s + 1)" "few_equivocators d' d' (sl_round s + 1)"
    using few_equivocators_mono [OF few(1) cons(1)] by auto
qed

lemma common_uncommitted:
  assumes "common_slot bc d bc' d' ld s" and "vb_slot L = s"
  shows "\<not> is_committed d (reference L)" and "\<not> is_committed d' (reference L)"
  using assms vb_slot_sel [OF assms(2)]
  by (auto simp: common_slot_def two_views_def committed_up_to_def not_le [symmetric])

text \<open>An anchor at least a wave above the slot covers a quorum of the decision round.\<close>

lemma anchor_covers:
  assumes "common_slot bc d bc' d' ld s" and "get_block d' q = Some A" and "sl_round s + 3 \<le> br_round q"
  shows "quorum_of (dag_committee d') (br_author ` anchor_history d' A (sl_round s + 2))"
proof -
  note c = common_slotD [OF assms(1)]
  have "unat (sl_round s + 2) = unat (sl_round s) + 2" "unat (sl_round s + 3) = unat (sl_round s) + 3"
    using c(1) by (simp_all add: leader_slot3_def unat_add_lt)
  then have "sl_round s + 2 < br_round q" "0 < sl_round s + 2" using assms(3) by (simp_all add: word_less_nat_alt word_le_nat_alt)
  moreover have "quorum_parents d'" using assms(1) by (simp add: common_slot_def two_views_def)
  ultimately show ?thesis using history_covers [OF c(5) _ assms(2)] by blast
qed

text \<open>A direct decision in one view against an anchor in the other.\<close>

lemma direct_against_anchor:
  assumes c: "common_slot bc d bc' d' ld s" and A: "get_block d' q = Some A" "sl_round s + 3 \<le> br_round q"
    and direct: "try_direct_decide bc d s = Inr st" "is_decided st"
  shows "decide_leader_from_anchor bc' d' A s = Inr st"
proof -
  note cd = common_slotD [OF c]
  from direct_outcome [OF cd(1,8)] direct consider
      (skip) "blamed d s" "st = Skip s" | (commit) L where "try_direct_decide bc d s = Inr (Commit L)" "st = Commit L"
    by auto
  then show ?thesis
  proof cases
    case skip
    have "candidates d' s (anchor_certified d' A) = {}"
    proof (rule equals0I)
      fix L assume "L \<in> candidates d' s (anchor_certified d' A)"
      then obtain q C where L: "vb_slot L = s" "get_block d' q = Some C" "br_round q = vb_round L + 2" "is_cert d' L C"
        by (auto simp: candidates_def anchor_certified_def anchor_history_def)
      have "wave3 (vb_round L) (sl_round s + 1) (br_round q)"
        using leader_slot3_rounds [OF cd(2)] vb_slot_sel [OF L(1)] L(3) by auto
      from blame_excludes_certificate [OF cd(5,4) consistent_sym [OF cd(3)] _ L(2) this L(4)]
        cd(6) few_equivocators_sym [OF cd(3)] vb_slot_sel [OF L(1)] skip(1)
      show False by (simp add: blamed_def)
    qed
    with anchor_outcome [OF cd(2,9), of A] skip(2) show ?thesis by auto
  next
    case commit
    have "vb_slot L = s" by (rule candidate_block(2) [OF direct_commitD [OF cd(1,8) commit(1)]])
    from common_uncommitted(2) [OF c this] anchor_covers [OF c A] commit(2)
      direct_commit_agreement [OF cd(1-3,6,7) commit(1), of A, unfolded is_quorum_iff, THEN conjunct2, THEN conjunct2]
    show ?thesis by blast
  qed
qed

lemma anchor_candidates_view:
  assumes c: "common_slot bc d bc' d' ld s" and A: "get_block d q = Some A" "get_block d' q = Some A"
  shows "candidates d s (anchor_certified d A) \<subseteq> candidates d' s (anchor_certified d' A)"
proof
  fix L assume L: "L \<in> candidates d s (anchor_certified d A)"
  note cd = common_slotD [OF c]
  note slot = candidate_block(2) [OF L] and blk = candidate_block(1) [OF L]
  have rnd: "vb_round L = sl_round s" "0 < vb_round L" using vb_slot_sel [OF slot] cd(1) by (auto simp: leader_slot3_def)
  from candidate_block(3) [OF L] obtain x C where
    x: "x \<in> anchor_history d A (vb_round L + 2)" "get_block d x = Some C" "is_cert d L C"
    unfolding anchor_certified_def by blast
  have "0 < vb_round L + 2" using leader_slot3_rounds [OF cd(1)] rnd by auto
  then have x': "x \<in> anchor_history d' A (vb_round L + 2)" using history_view [OF cd(4,5,3) A] x(1) by blast
  then have C': "get_block d' x = Some C" using consistent_get [OF cd(3) _ x(2)] by (simp add: anchor_history_def)
  have cert: "is_cert d' L C" using is_cert_view [OF cd(4,5,3) x(2) C'] x(3) by simp
  from certificate_leader_known [OF cd(5) cert rnd(2)] have "get_block d' (reference L) = Some L"
    using consistent_get [OF cd(3) _ blk] by blast
  then have "om_get (ds_blocks d') (reference L) = Some L"
    using get_block_above_genesis [of d' "reference L"] cd(5) rnd(2) by (simp add: dag_ok_def)
  moreover have "anchor_certified d' A L" unfolding anchor_certified_def using x' C' cert by blast
  ultimately show "L \<in> candidates d' s (anchor_certified d' A)"
    using slot common_uncommitted(2) [OF c slot] by (simp add: candidates_def)
qed

lemma same_anchor:
  assumes c: "common_slot bc d bc' d' ld s" and A: "get_block d q = Some A" "get_block d' q = Some A"
  shows "decide_leader_from_anchor bc d A s = decide_leader_from_anchor bc' d' A s"
proof -
  note cd = common_slotD [OF c]
  have "candidates d s (anchor_certified d A) = candidates d' s (anchor_certified d' A)"
    using anchor_candidates_view [OF c A] anchor_candidates_view [OF common_slot_sym [OF c] A(2,1)] by blast
  with anchor_outcome [OF cd(1,8), of A] anchor_outcome [OF cd(2,9), of A] show ?thesis by auto
qed

section \<open>Anchors\<close>

text \<open>The anchor the indirect rule finds: the first later leader that is not skipped, if it is committed.\<close>

fun first_anchor :: "LeaderStatus list \<Rightarrow> VerifiedBlock option" where
  "first_anchor [] = None"
| "first_anchor (Commit A # xs) = Some A"
| "first_anchor (Skip s # xs) = first_anchor xs"
| "first_anchor (Undecided s # xs) = None"

lemma indirect_by_anchor:
  assumes "leader_slot3 bc d s" and "\<forall>x \<in> set xs. sl_round s + 3 \<le> ls_round x"
  shows "try_indirect_decide bc d s xs =
    (case first_anchor xs of None \<Rightarrow> Inr (Undecided s) | Some A \<Rightarrow> decide_leader_from_anchor bc d A s)"
proof -
  have "checked_add (sl_round s) (bo_wave_length (bc_options bc)) = Inr (sl_round s + 3)"
    using assms(1) by (simp add: leader_slot3_def checked_add_def)
  then have "indirect_loop bc d s xs =
      (case first_anchor xs of None \<Rightarrow> Inr (Undecided s) | Some A \<Rightarrow> decide_leader_from_anchor bc d A s)"
    using assms(2) by (induction xs rule: first_anchor.induct) simp_all
  then show ?thesis using assms(1) by (simp add: try_indirect_decide_def leader_slot3_def)
qed

lemma first_anchor_in: "first_anchor xs = Some A \<Longrightarrow> Commit A \<in> set xs"
  by (induction xs rule: first_anchor.induct) auto

text \<open>Statuses that agree wherever both are decided.\<close>

definition agree :: "LeaderStatus list \<Rightarrow> LeaderStatus list \<Rightarrow> bool" where
  "agree xs ys \<longleftrightarrow> list_all2 (\<lambda>x y. is_decided x \<longrightarrow> is_decided y \<longrightarrow> x = y) xs ys"

lemma anchors_agree:
  assumes "agree xs ys" and "first_anchor xs = Some A" and "first_anchor (ys @ zs) = Some B"
  shows "A = B"
  using assms unfolding agree_def
proof (induction xs arbitrary: ys rule: first_anchor.induct)
  case (2 A' xs)
  then obtain y ys' where "ys = y # ys'" "is_decided y \<longrightarrow> Commit A' = y" by (auto simp: list_all2_Cons1)
  with 2 show ?case by (cases y) auto
next
  case (3 s xs)
  then obtain y ys' where y: "ys = y # ys'" "is_decided y \<longrightarrow> Skip s = y"
    "list_all2 (\<lambda>x y. is_decided x \<longrightarrow> is_decided y \<longrightarrow> x = y) xs ys'" by (auto simp: list_all2_Cons1)
  with 3 show ?case by (cases y) auto
qed simp_all

section \<open>One slot\<close>

definition anchors_ok :: "DagState \<Rightarrow> Slot \<Rightarrow> LeaderStatus list \<Rightarrow> bool" where
  "anchors_ok d s xs \<longleftrightarrow> (\<forall>x \<in> set xs. \<exists>t. status_of d t x \<and> sl_round s + 3 \<le> sl_round t)"

lemma anchor_block:
  assumes "anchors_ok d s xs" and "first_anchor xs = Some A"
  shows "get_block d (reference A) = Some A" and "sl_round s + 3 \<le> br_round (reference A)"
proof -
  from first_anchor_in [OF assms(2)] assms(1) obtain t where t: "status_of d t (Commit A)" "sl_round s + 3 \<le> sl_round t"
    by (auto simp: anchors_ok_def)
  then have "om_get (ds_blocks d) (reference A) = Some A" "vb_slot A = t" by (auto simp: status_of_def candidates_def)
  with t(2) vb_slot_sel [of A t] show "get_block d (reference A) = Some A" "sl_round s + 3 \<le> br_round (reference A)"
    by (auto intro: get_block_accepted)
qed

lemma decide_slot_cases:
  assumes "leader_slot3 bc d s" and "few_equivocators d d (sl_round s + 1)" and "anchors_ok d s (map fst xs)"
    and "decide_slot bc d s xs = Inr (st, dec)" and "is_decided st"
  shows "try_direct_decide bc d s = Inr st \<or>
    (\<exists>A. try_direct_decide bc d s = Inr (Undecided s) \<and> first_anchor (map fst xs) = Some A \<and>
       decide_leader_from_anchor bc d A s = Inr st)"
proof -
  have "\<forall>x \<in> set (map fst xs). sl_round s + 3 \<le> ls_round x"
    using assms(3) ls_round_status by (fastforce simp: anchors_ok_def)
  note ind = indirect_by_anchor [OF assms(1) this]
  obtain st' where st': "try_direct_decide bc d s = Inr st'" "is_decided st' \<or> st' = Undecided s"
    using direct_outcome [OF assms(1,2)] by auto
  with assms(4,5) ind show ?thesis
    by (cases "is_decided st'") (auto simp: decide_slot_def res_simps split: option.splits)
qed

lemma decide_slot_agree:
  assumes c: "common_slot bc d bc' d' ld s" and ok: "anchors_ok d s (map fst xs)" "anchors_ok d' s (map fst (ys @ zs))"
    and agr: "agree (map fst xs) (map fst ys)"
    and st: "decide_slot bc d s xs = Inr (st, dec)" "is_decided st"
    and st': "decide_slot bc' d' s (ys @ zs) = Inr (st', dec')" "is_decided st'"
  shows "st = st'"
proof -
  note cd = common_slotD [OF c]
  note c' = common_slot_sym [OF c]
  note ca = decide_slot_cases [OF cd(1,8) ok(1) st] decide_slot_cases [OF cd(2,9) ok(2) st']
  have direct: "st1 = st2" if "try_direct_decide bc d s = Inr st1" "try_direct_decide bc' d' s = Inr st2"
    "is_decided st1" "is_decided st2" for st1 st2
  proof -
    from direct_outcome [OF cd(1,8)] direct_outcome [OF cd(2,9)] that
    consider "st1 = Skip s" "st2 = Skip s" | L where "try_direct_decide bc d s = Inr (Commit L)" "st1 = Commit L"
      | L where "try_direct_decide bc' d' s = Inr (Commit L)" "st2 = Commit L" by auto
    then show ?thesis
    proof cases
      case (2 L)
      from direct_commit_agreement [OF cd(1-3,6,7) 2(1), of undefined, THEN conjunct1] that 2(2) show ?thesis by auto
    next
      case (3 L)
      note few' = cd(6,7) [unfolded few_equivocators_sym [OF cd(3)]]
      from direct_commit_agreement [OF cd(2,1) consistent_sym [OF cd(3)] few' 3(1), of undefined, THEN conjunct1] that 3(2)
      show ?thesis by auto
    qed simp
  qed
  from ca show ?thesis
  proof (elim disjE exE conjE)
    assume "try_direct_decide bc d s = Inr st" "try_direct_decide bc' d' s = Inr st'"
    with direct st(2) st'(2) show ?thesis by blast
  next
    fix A assume "try_direct_decide bc d s = Inr st" "first_anchor (map fst (ys @ zs)) = Some A"
      "decide_leader_from_anchor bc' d' A s = Inr st'"
    with direct_against_anchor [OF c anchor_block [OF ok(2)]] st(2) show ?thesis by fastforce
  next
    fix A assume "try_direct_decide bc' d' s = Inr st'" "first_anchor (map fst xs) = Some A"
      "decide_leader_from_anchor bc d A s = Inr st"
    with direct_against_anchor [OF c' anchor_block [OF ok(1)]] st'(2) show ?thesis by fastforce
  next
    fix A B assume A: "first_anchor (map fst xs) = Some A" "decide_leader_from_anchor bc d A s = Inr st"
      and B: "first_anchor (map fst (ys @ zs)) = Some B" "decide_leader_from_anchor bc' d' B s = Inr st'"
    then have "A = B" using anchors_agree [OF agr A(1), of "map fst zs"] by simp
    with same_anchor [OF c anchor_block(1) [OF ok(1) A(1)]] anchor_block(1) [OF ok(2) B(1)] A(2) B(2)
    show ?thesis by simp
  qed
qed

section \<open>All slots\<close>

lemma leader_gap:
  assumes "bc_options bc = default_options" and "is_leader bc r" and "is_leader bc r'" and "r < r'" and "unat r + 3 < 2 ^ 32"
  shows "r + 3 \<le> r'"
proof -
  have "unat r mod 3 = 0" "unat r' mod 3 = 0" "unat r < unat r'"
    using assms(1-4) by (simp_all add: is_leader_def default_options_def DEFAULT_WAVE_LENGTH_def MINIMUM_WAVE_LENGTH_def
        word_less_nat_alt)
  then have "unat r + 3 \<le> unat r'" by presburger
  then show ?thesis using assms(5) by (simp add: word_le_nat_alt unat_add_lt)
qed

lemma statuses_anchors_ok:
  assumes "view_ok bc d" and "\<forall>r \<in> set (rnd # rounds). due bc d r" and "sorted_wrt (<) (rnd # rounds)"
    and "statuses bc d rounds = Inr xs"
  shows "anchors_ok d (leader_slot bc rnd) (map fst xs)"
  unfolding anchors_ok_def
proof
  fix x assume "x \<in> set (map fst xs)"
  moreover have "list_all2 (\<lambda>rnd x. status_of d (leader_slot bc rnd) (fst x)) rounds xs"
    using statuses_total [OF assms(1), of rounds] assms(2,4) by auto
  ultimately obtain r where r: "r \<in> set rounds" "status_of d (leader_slot bc r) x"
    by (fastforce simp: list_all2_conv_all_nth in_set_conv_nth)
  have "unat rnd + 3 < 2 ^ 32" using assms(1,2) by (simp add: view_ok_def due_def)
  moreover have "rnd < r" using assms(3) r(1) by simp
  ultimately have "rnd + 3 \<le> r"
    using leader_gap [of bc rnd r] assms(1,2) r(1) by (simp add: view_ok_def due_def)
  with r(2) show "\<exists>t. status_of d t x \<and> sl_round (leader_slot bc rnd) + 3 \<le> sl_round t"
    by (intro exI [of _ "leader_slot bc r"]) (simp add: leader_slot_def)
qed

lemma statuses_agree:
  assumes tv: "two_views bc d bc' d' ld"
    and "\<forall>r \<in> set rounds. due bc d r \<and> ld < r" and "\<forall>r \<in> set (rounds @ extra). due bc' d' r \<and> ld < r"
    and "sorted_wrt (<) (rounds @ extra)"
    and "statuses bc d rounds = Inr xs" and "statuses bc' d' (rounds @ extra) = Inr ys"
  shows "agree (map fst xs) (map fst (take (length xs) ys))"
  using assms(2-)
proof (induction rounds arbitrary: xs ys)
  case Nil
  then show ?case by (simp add: agree_def)
next
  case (Cons rnd rounds)
  from Cons.prems(4) obtain x xs' where xs: "statuses bc d rounds = Inr xs'" "xs = x # xs'"
    "decide_slot bc d (leader_slot bc rnd) xs' = Inr x" by (auto simp: res_simps)
  from Cons.prems(5) obtain y ys' where ys: "statuses bc' d' (rounds @ extra) = Inr ys'" "ys = y # ys'"
    "decide_slot bc' d' (leader_slot bc rnd) ys' = Inr y"
    using same_leaders(2) [OF tv] by (auto simp: res_simps)
  have views: "view_ok bc d" "view_ok bc' d'" using tv by (simp_all add: two_views_def)
  have IH: "agree (map fst xs') (map fst (take (length xs') ys'))"
    using Cons.IH [OF _ _ _ xs(1) ys(1)] Cons.prems by simp
  have c: "common_slot bc d bc' d' ld (leader_slot bc rnd)"
    using tv due_leader_slot(1) [OF views(1), of rnd] due_leader_slot(1) [OF views(2), of rnd] Cons.prems(1,2)
      same_leaders(2) [OF tv] by (simp add: common_slot_def leader_slot_def)
  have ok: "anchors_ok d (leader_slot bc rnd) (map fst xs')"
    using statuses_anchors_ok [OF views(1) _ _ xs(1)] Cons.prems(1,3) by (simp add: sorted_wrt_append)
  have ok': "anchors_ok d' (leader_slot bc rnd) (map fst ys')"
    using statuses_anchors_ok [OF views(2) _ _ ys(1), of rnd] Cons.prems(2,3) same_leaders(2) [OF tv] by simp
  have "fst x = fst y" if "is_decided (fst x)" "is_decided (fst y)"
    using decide_slot_agree [OF c ok _ IH, of "drop (length xs') ys'" "fst x" "snd x" "fst y" "snd y"]
      ok' xs(3) ys(3) that by simp
  with IH show ?case by (simp add: agree_def xs(2) ys(2))
qed

lemma due_rounds_prefix:
  assumes tv: "two_views bc d bc' d' (sl_round ld)" and "ds_highest_accepted_round d \<le> ds_highest_accepted_round d'"
  shows "\<exists>extra. due_rounds bc' d' ld = due_rounds bc d ld @ extra"
proof -
  let ?l = "Suc (unat (sl_round ld))" and ?h = "unat (ds_highest_accepted_round d) - 1"
    and ?h' = "unat (ds_highest_accepted_round d') - 1"
  have le: "?h \<le> ?h'" using assms(2) by (simp add: word_le_nat_alt)
  have "\<exists>extra. [?l ..< ?h'] = [?l ..< ?h] @ extra"
  proof (cases "?l \<le> ?h")
    case True
    then show ?thesis using upt_add_eq_append [OF True, of "?h' - ?h"] le by auto
  qed auto
  then obtain extra where "[?l ..< ?h'] = [?l ..< ?h] @ extra" by blast
  then show ?thesis unfolding due_rounds_def same_leaders(1) [OF tv] by simp
qed

lemma due_rounds_ascending:
  assumes "view_ok bc d"
  shows "sorted_wrt (<) (due_rounds bc d ld)"
proof -
  have "sorted_wrt (\<lambda>a b. (word_of_nat a :: Round) < word_of_nat b) [m ..< unat (ds_highest_accepted_round d) - 1]" for m
  proof (rule sorted_wrt_mono_rel [OF _ sorted_wrt_upt])
    fix a b assume ab: "a \<in> set [m ..< unat (ds_highest_accepted_round d) - 1]"
      "b \<in> set [m ..< unat (ds_highest_accepted_round d) - 1]" "a < b"
    then have "b < 2 ^ 32" using unsigned_less [where ?'a = nat, of "ds_highest_accepted_round d"] by simp
    with ab(3) show "(word_of_nat a :: Round) < word_of_nat b" by (simp add: word_less_nat_alt unat_of_nat)
  qed
  then show ?thesis unfolding due_rounds_def by (intro sorted_wrt_filter) (simp add: sorted_wrt_map)
qed

section \<open>The committed sequence\<close>

text \<open>What a node does with a decided leader: the slot, and the block it commits or none.\<close>

definition outcome :: "DecidedLeader \<Rightarrow> Slot \<times> VerifiedBlock option" where
  "outcome x = (dl_slot x, into_committed_block x)"

lemma outcome_simps [simp]:
  "outcome (DecidedCommit b direct) = (slot_of_ref (reference b), Some b)" "outcome (DecidedSkip s) = (s, None)"
  by (simp_all add: outcome_def)

lemma decided_prefix_agree:
  assumes "agree (map fst xs) (map fst (take (length xs) ys))" and "length xs \<le> length ys"
    and "\<forall>x \<in> set ys. 0 < ls_round (fst x)" and "\<forall>x \<in> set xs. 0 < ls_round (fst x)"
  shows "prefix (map outcome (decided_prefix xs)) (map outcome (decided_prefix ys)) \<or>
    prefix (map outcome (decided_prefix ys)) (map outcome (decided_prefix xs))"
  using assms
proof (induction xs arbitrary: ys)
  case (Cons x xs)
  then obtain y ys' where ys: "ys = y # ys'" by (cases ys) auto
  obtain st dec st' dec' where x: "x = (st, dec)" "y = (st', dec')" by (metis surj_pair)
  from Cons.prems(1) have same: "is_decided st \<Longrightarrow> is_decided st' \<Longrightarrow> st = st'"
    and IH: "agree (map fst xs) (map fst (take (length xs) ys'))" by (auto simp: agree_def ys x)
  have "prefix (map outcome (decided_prefix xs)) (map outcome (decided_prefix ys')) \<or>
    prefix (map outcome (decided_prefix ys')) (map outcome (decided_prefix xs))"
    using Cons.IH [OF IH] Cons.prems by (simp add: ys)
  moreover have nz: "ls_round st \<noteq> GENESIS_ROUND" "ls_round st' \<noteq> GENESIS_ROUND"
    using Cons.prems(3,4) by (auto simp: ys x GENESIS_ROUND_def)
  ultimately show ?case
    using same by (cases st; cases st') (auto simp: ys x)
qed simp

lemma status_rounds_pos:
  assumes "list_all2 (\<lambda>rnd x. status_of d (leader_slot bc rnd) (fst x)) rounds xs" and "\<forall>r \<in> set rounds. due bc d r"
  shows "\<forall>x \<in> set xs. 0 < ls_round (fst x)"
  using assms by (induction rule: list_all2_induct) (auto simp: ls_round_status leader_slot_def due_def)

lemma try_decide_agree:
  assumes tv: "two_views bc d bc' d' (sl_round ld)" and uc: "uc_default uc bc" "uc_default uc' bc'"
    and ld: "ld = leader_slot bc (sl_round ld)" "is_leader bc (sl_round ld)"
    and le: "ds_highest_accepted_round d \<le> ds_highest_accepted_round d'"
  shows "\<exists>ds ds'. try_decide uc d ld = Inr ds \<and> try_decide uc' d' ld = Inr ds' \<and>
    (prefix (map outcome ds) (map outcome ds') \<or> prefix (map outcome ds') (map outcome ds))"
proof -
  have v: "view_ok bc d" "view_ok bc' d'" using tv by (simp_all add: two_views_def)
  obtain extra where extra: "due_rounds bc' d' ld = due_rounds bc d ld @ extra" using due_rounds_prefix [OF tv le] by blast
  from try_decide_statuses [OF uc(1) v(1) ld] obtain xs where xs: "statuses bc d (due_rounds bc d ld) = Inr xs"
    "try_decide uc d ld = Inr (decided_prefix xs)"
    "list_all2 (\<lambda>rnd x. status_of d (leader_slot bc rnd) (fst x)) (due_rounds bc d ld) xs" by blast
  from try_decide_statuses [OF uc(2) v(2), of ld] ld same_leaders [OF tv] obtain ys where
    ys: "statuses bc' d' (due_rounds bc d ld @ extra) = Inr ys" "try_decide uc' d' ld = Inr (decided_prefix ys)"
    "list_all2 (\<lambda>rnd x. status_of d' (leader_slot bc' rnd) (fst x)) (due_rounds bc d ld @ extra) ys"
    by (auto simp: extra)
  have due: "\<forall>r \<in> set (due_rounds bc d ld). due bc d r \<and> sl_round ld < r"
    "\<forall>r \<in> set (due_rounds bc d ld @ extra). due bc' d' r \<and> sl_round ld < r"
    unfolding extra [symmetric] by (simp_all add: due_rounds_iff [OF v(1)] due_rounds_iff [OF v(2)])
  have "agree (map fst xs) (map fst (take (length xs) ys))"
    using statuses_agree [OF tv due _ xs(1) ys(1)] due_rounds_ascending [OF v(2), of ld] by (simp add: extra)
  moreover have "length xs \<le> length ys" using list_all2_lengthD [OF xs(3)] list_all2_lengthD [OF ys(3)] by simp
  ultimately show ?thesis
    using decided_prefix_agree [of xs ys] status_rounds_pos [OF xs(3)] status_rounds_pos [OF ys(3)] due xs(2) ys(2) by auto
qed

text \<open>The decided sequence is a gap-free prefix of the due leaders.\<close>

lemma try_decide_prefix:
  assumes "uc_default uc bc" and "view_ok bc d" and "ld = leader_slot bc (sl_round ld)" and "is_leader bc (sl_round ld)"
  shows "\<exists>ds. try_decide uc d ld = Inr ds \<and>
    prefix (map dl_slot ds) (map (leader_slot bc) (due_rounds bc d ld)) \<and>
    (\<forall>L direct. DecidedCommit L direct \<in> set ds \<longrightarrow>
       get_block d (reference L) = Some L \<and> \<not> is_committed d (reference L))"
proof -
  obtain xs where xs: "try_decide uc d ld = Inr (decided_prefix xs)"
    "list_all2 (\<lambda>rnd x. status_of d (leader_slot bc rnd) (fst x)) (due_rounds bc d ld) xs"
    using try_decide_statuses [OF assms] by blast
  have "\<forall>r \<in> set (due_rounds bc d ld). 0 < r"
    using due_rounds_iff [OF assms(2)] by (simp add: due_def)
  with xs(2) have "prefix (map dl_slot (decided_prefix xs)) (map (leader_slot bc) (due_rounds bc d ld)) \<and>
    (\<forall>L direct. DecidedCommit L direct \<in> set (decided_prefix xs) \<longrightarrow>
       get_block d (reference L) = Some L \<and> \<not> is_committed d (reference L))"
  proof (induction rule: list_all2_induct)
    case (Cons r rs x xs)
    obtain st dec where x: "x = (st, dec)" by fastforce
    have "ls_round st \<noteq> GENESIS_ROUND"
      using Cons.hyps(1) Cons.prems by (auto simp: ls_round_status x leader_slot_def GENESIS_ROUND_def)
    with Cons show ?case
      by (auto simp: x status_of_def candidates_def slot_of_reference intro: get_block_accepted)
  qed simp
  with xs(1) show ?thesis by blast
qed

section \<open>What the committer promises across nodes\<close>

text \<open>The four-node DAG of full rounds as a view.\<close>

definition uc4 :: UniversalCommitter where
  "uc4 = \<lparr>uc_context = ctx4, uc_committers = [bc4]\<rparr>"

lemma uc4_default: "uc_default uc4 bc4"
  using bc4_ok by (simp add: uc_default_def uc4_def bc4_def)

lemma dag4_quorum_parents:
  assumes "n < 2 ^ 32 - 1"
  shows "quorum_parents (dag4 n)"
  unfolding quorum_parents_def
proof (intro allI impI)
  fix r b assume b: "get_block (dag4 n) r = Some b" and pos: "1 < br_round r"
  have pos': "0 < br_round r" by (rule le_less_trans [OF word_zero_le pos])
  have r: "unat (br_round r) \<le> n" "unat (br_author r) < 4" "r = BlockRef (br_round r) (br_author r) 0"
    using dag4_ref [OF assms _ pos'] b by (auto simp: dag_refs_def)
  with b dag4_get_block [OF assms pos' r(1,2)]
  have "b = block4 (br_round r) (br_author r) (round_refs (br_round r - 1))" by (metis option.inject)
  then have "{a \<in> set (vb_ancestors b). br_round a = br_round r - 1} = set (round_refs (br_round r - 1))"
    by (auto simp: round_refs_iff)
  moreover have "br_author ` set (round_refs (br_round r - 1)) = {0, 1, 2, 3}" by (simp add: round_refs_def)
  ultimately show "quorum_of (dag_committee (dag4 n))
      (br_author ` {a \<in> set (vb_ancestors b). br_round a = br_round r - 1})"
    using assms by (simp add: dag4_graph(4) quorum_of_def members_def committee4_weight)
qed

lemma dag4_committed: "n < 2 ^ 32 - 1 \<Longrightarrow> committed_up_to (dag4 n) 0"
  unfolding committed_up_to_def using dag4_uncommitted [of n] by (meson not_le)

lemma dag4_two_views:
  assumes "n < 2 ^ 32 - 1" and "m < 2 ^ 32 - 1" and "unat (ds_highest_accepted_round (dag4 n)) + 1 < 2 ^ 32"
    and "unat (ds_highest_accepted_round (dag4 m)) + 1 < 2 ^ 32"
  shows "two_views bc4 (dag4 n) bc4 (dag4 m) 0"
  using assms dag4_ok bc4_ok dag4_few dag4_consistent dag4_quorum_parents dag4_committed dag4_graph(4)
  by (simp add: two_views_def view_ok_def no_forks_def honest_majority_def reads_def bc4_def)

text \<open>\<^bold>\<open>C1\<close>. Consistency of the committed sequence, the safety property of the protocol. Two nodes (or
  one node at two times) decide leaders from the same last decided slot, over DAGs that agree on the
  blocks both have, are causally closed, and whose blocks refer to a quorum of the previous round; in
  every round the authorities with two blocks hold at most \<open>f\<close> stake. Then neither driver panics, and
  one of the two decided sequences (which slots are committed, with which block, and which are
  skipped) is a prefix of the other.\<close>

theorem committed_sequences_agree:
  assumes "two_views bc d bc' d' (sl_round ld)" and "uc_default uc bc" and "uc_default uc' bc'"
    and "ld = leader_slot bc (sl_round ld)" and "is_leader bc (sl_round ld)"
  shows "\<exists>ds ds'. try_decide uc d ld = Inr ds \<and> try_decide uc' d' ld = Inr ds' \<and>
    (prefix (map outcome ds) (map outcome ds') \<or> prefix (map outcome ds') (map outcome ds))"
proof (cases "ds_highest_accepted_round d \<le> ds_highest_accepted_round d'")
  case True
  then show ?thesis using try_decide_agree [OF assms] by blast
next
  case False
  moreover have "ld = leader_slot bc' (sl_round ld)" "is_leader bc' (sl_round ld)"
    using assms(4,5) same_leaders [OF assms(1)] by simp_all
  ultimately show ?thesis using try_decide_agree [OF two_views_sym [OF assms(1)] assms(3,2)] by fastforce
qed

theorem committed_sequences_agree_witness:
  "\<exists>ds ds'. try_decide uc4 (dag4 5) (Slot 0 0) = Inr ds \<and> try_decide uc4 (dag4 8) (Slot 0 0) = Inr ds' \<and>
    (prefix (map outcome ds) (map outcome ds') \<or> prefix (map outcome ds') (map outcome ds)) \<and> length ds = 1"
proof -
  have "ds_highest_accepted_round (dag4 5) = 5" "ds_highest_accepted_round (dag4 8) = 8" by code_simp+
  then have "two_views bc4 (dag4 5) bc4 (dag4 8) 0" by (intro dag4_two_views) simp_all
  moreover have "is_leader bc4 0" "Slot 0 0 = leader_slot bc4 0"
    by (simp_all add: is_leader_def leader_slot_def bc4_def default_options_def)
  moreover have "map_sum id length (try_decide uc4 (dag4 5) (Slot 0 0)) = Inr 1" by code_simp
  ultimately obtain ds ds' where "try_decide uc4 (dag4 5) (Slot 0 0) = Inr ds" "try_decide uc4 (dag4 8) (Slot 0 0) = Inr ds'"
    "prefix (map outcome ds) (map outcome ds') \<or> prefix (map outcome ds') (map outcome ds)"
    "map_sum id length (try_decide uc4 (dag4 5) (Slot 0 0)) = Inr 1"
    using committed_sequences_agree [of bc4 "dag4 5" bc4 "dag4 8" "Slot 0 0" uc4 uc4] uc4_default
    by (metis Slot.sel(1))
  then show ?thesis by auto
qed

text \<open>\<^bold>\<open>C23\<close>. The decided sequence has no gaps: the driver never panics, and what it returns are the
  leader slots of the waves after the last decided one, in ascending order and none left out, up to
  the first undecided leader; a committed leader is an uncommitted block of its slot in the DAG.\<close>

theorem try_decide_sequence:
  assumes "uc_default uc bc" and "view_ok bc d" and "ld = leader_slot bc (sl_round ld)" and "is_leader bc (sl_round ld)"
  shows "\<exists>ds. try_decide uc d ld = Inr ds \<and>
    prefix (map dl_slot ds) (map (leader_slot bc) (due_rounds bc d ld)) \<and>
    (\<forall>L direct. DecidedCommit L direct \<in> set ds \<longrightarrow>
       get_block d (reference L) = Some L \<and> \<not> is_committed d (reference L))"
  using try_decide_prefix [OF assms] .

theorem try_decide_sequence_witness:
  "\<exists>ds. try_decide uc4 (dag4 5) (Slot 0 0) = Inr ds \<and> map dl_slot ds = [Slot 3 3] \<and>
    prefix (map dl_slot ds) (map (leader_slot bc4) (due_rounds bc4 (dag4 5) (Slot 0 0)))"
proof -
  have "ds_highest_accepted_round (dag4 5) = 5" by code_simp
  then have "two_views bc4 (dag4 5) bc4 (dag4 5) 0" by (intro dag4_two_views) simp_all
  then have "view_ok bc4 (dag4 5)" by (simp add: two_views_def)
  moreover have "is_leader bc4 0" "Slot 0 0 = leader_slot bc4 0"
    by (simp_all add: is_leader_def leader_slot_def bc4_def default_options_def)
  moreover have "map_sum id (map dl_slot) (try_decide uc4 (dag4 5) (Slot 0 0)) = Inr [Slot 3 3]" by code_simp
  ultimately obtain ds where "try_decide uc4 (dag4 5) (Slot 0 0) = Inr ds"
    "prefix (map dl_slot ds) (map (leader_slot bc4) (due_rounds bc4 (dag4 5) (Slot 0 0)))"
    "map_sum id (map dl_slot) (try_decide uc4 (dag4 5) (Slot 0 0)) = Inr [Slot 3 3]"
    using try_decide_sequence [OF uc4_default, of "dag4 5" "Slot 0 0"] by (metis Slot.sel(1))
  then show ?thesis by auto
qed

end
