(* ===== verification/Consensus_Node.thy ===== *)
theory Consensus_Node
  imports Block_Manager Linearizer Soft_Commit Commit_Agreement Shared_Types
begin

text \<open>
  \<^verbatim>\<open>crates/consensus/src/node.rs\<close>: one validator. It feeds blocks through the block manager into the
  DAG, counts soft-commit votes over the accepted blocks, and commits the leaders the committer
  decides. The broadcast channel is the list of the events sent so far; a send never fails the node.
  The linearizer has no state of its own.
\<close>

section \<open>Conversions\<close>

definition EVENT_CHANNEL_CAPACITY :: nat where "EVENT_CHANNEL_CAPACITY = 512"

definition to_shared_block_ref :: "BlockRef \<Rightarrow> SharedBlockRef" where
  "to_shared_block_ref r = \<lparr>sbr_round = ucast (br_round r), sbr_author = ucast (br_author r), sbr_digest = br_digest r\<rparr>"

definition block_txs :: "VerifiedBlock \<Rightarrow> EthSignedTx list" where
  "block_txs b = map EthSignedTx (vb_transactions b)"

definition to_shared_subdag :: "CommittedSubDag \<Rightarrow> OurCommittedSubDag" where
  "to_shared_subdag subdag =
     \<lparr>osd_leader = to_shared_block_ref (sd_leader subdag),
      osd_blocks = map (\<lambda>b. \<lparr>ovb_block_ref = to_shared_block_ref (reference b), ovb_txs = block_txs b\<rparr>) (sd_blocks subdag),
      osd_timestamp_ms = sd_timestamp_ms subdag,
      osd_commit_index = ucast (cr_index (sd_commit_ref subdag))\<rparr>"

section \<open>The node\<close>

record ConsensusNode =
  cn_context :: Context
  cn_dag_state :: DagState
  cn_block_manager :: BlockManager
  cn_committer :: UniversalCommitter
  cn_soft_commit :: SoftCommitTracker
  cn_last_decided :: Slot
  cn_events :: "ConsensusEvent list"

definition node_new :: "hash \<Rightarrow> Context \<Rightarrow> ConsensusNode res" where
  "node_new H context =
     rbind (guard DebugAssert (committee_size (committee context) > 0)) (\<lambda>_.
     rbind (dag_new H context) (\<lambda>dag_state.
     rbind (bm_new context) (\<lambda>block_manager.
     rbind (rbind (builder_new context) build) (\<lambda>committer.
     rbind (linearizer_new context) (\<lambda>_.
     Inr \<lparr>cn_context = context, cn_dag_state = dag_state, cn_block_manager = block_manager,
       cn_committer = committer, cn_soft_commit = sct_new, cn_last_decided = Slot GENESIS_ROUND 0,
       cn_events = []\<rparr>)))))"

text \<open>The body of the loop over the ancestors of a voting block.\<close>

definition soft_commit_vote ::
  "Round \<Rightarrow> AuthorityIndex \<Rightarrow> AuthorityIndex \<Rightarrow> BlockRef \<Rightarrow> ConsensusNode \<Rightarrow> ConsensusNode res"
where
  "soft_commit_vote potential_leader_round expected_leader voter ancestor node =
     (if br_round ancestor = potential_leader_round \<and> br_author ancestor = expected_leader then
        rbind (add_vote ancestor voter (committee (cn_context node)) (cn_soft_commit node)) (\<lambda>(tracker, fired).
        let node' = node\<lparr>cn_soft_commit := tracker\<rparr>
        in if fired then
             rbind (get_causal_blocks (cn_dag_state node) ancestor (gc_round (cn_dag_state node))) (\<lambda>blocks.
             Inr (node'\<lparr>cn_events := cn_events node' @
               [SoftCommit (ucast potential_leader_round) (to_shared_block_ref ancestor) (concat (map block_txs blocks))]\<rparr>))
           else Inr node')
      else Inr node)"

definition check_soft_commit :: "VerifiedBlock \<Rightarrow> ConsensusNode \<Rightarrow> ConsensusNode res" where
  "check_soft_commit block node =
     (let rnd = vb_round block in
      if rnd < 2 then Inr node
      else
        let potential_leader_round = rnd - 1 in
        if \<not> is_leader_round potential_leader_round then Inr node
        else
          rbind (leader_at_round potential_leader_round (committee_size (committee (cn_context node)))) (\<lambda>expected_leader.
          rfold (soft_commit_vote potential_leader_round expected_leader (vb_author block)) (vb_ancestors block) node))"

fun hard_commit_one :: "hash \<Rightarrow> DecidedLeader \<Rightarrow> ConsensusNode \<Rightarrow> ConsensusNode res" where
  "hard_commit_one H (DecidedCommit leader_block direct) node =
     rbind (commit_leader H leader_block (cn_dag_state node)) (\<lambda>(d', subdag).
     Inr (node\<lparr>cn_dag_state := d', cn_last_decided := vb_slot leader_block,
       cn_events := cn_events node @ [HardCommit (to_shared_subdag subdag)]\<rparr>))"
| "hard_commit_one H (DecidedSkip slot) node = Inr (node\<lparr>cn_last_decided := slot\<rparr>)"

definition try_hard_commit :: "hash \<Rightarrow> ConsensusNode \<Rightarrow> ConsensusNode res" where
  "try_hard_commit H node =
     rbind (try_decide (cn_committer node) (cn_dag_state node) (cn_last_decided node)) (\<lambda>decided.
     rfold (hard_commit_one H) decided node)"

text \<open>The part both entry points share.\<close>

definition ingest :: "hash \<Rightarrow> VerifiedBlock list \<Rightarrow> ConsensusNode \<Rightarrow> ConsensusNode res" where
  "ingest H blocks node =
     rbind (try_accept_blocks blocks (cn_block_manager node) (cn_dag_state node)) (\<lambda>(bm, d, accepted, _).
     rbind (rfold check_soft_commit accepted (node\<lparr>cn_block_manager := bm, cn_dag_state := d\<rparr>))
       (try_hard_commit H))"

definition node_accept_block :: "hash \<Rightarrow> VerifiedBlock \<Rightarrow> ConsensusNode \<Rightarrow> ConsensusNode res" where
  "node_accept_block H block node =
     rbind (guard DebugAssert (vb_round block > 0 \<or> vb_ancestors block = [])) (\<lambda>_.
     ingest H [block] node)"

definition node_accept_blocks :: "hash \<Rightarrow> VerifiedBlock list \<Rightarrow> ConsensusNode \<Rightarrow> ConsensusNode res" where
  "node_accept_blocks H blocks node =
     rbind (guard DebugAssert (blocks \<noteq> [])) (\<lambda>_. ingest H blocks node)"

section \<open>Committed blocks of a run\<close>

text \<open>What holds of every state a node returns, whatever it was fed: the hard commits are numbered
  one after the other, and no block occurs in two of them or twice in one.\<close>

definition commits_ok :: "ConsensusNode \<Rightarrow> bool" where
  "commits_ok node \<longleftrightarrow>
     (let subs = hard_commits (cn_events node); refs = concat (map (\<lambda>s. map ovb_block_ref (osd_blocks s)) subs) in
      map (unat \<circ> osd_commit_index) subs = [1 ..< Suc (unat (ds_last_commit_index (cn_dag_state node)))] \<and>
      distinct refs \<and> set refs \<subseteq> to_shared_block_ref ` fset (ds_committed (cn_dag_state node)))"

lemma unat_ucast_u64 [simp]: "unat (ucast (x :: u32) :: u64) = unat x"
  by (simp add: unsigned_ucast_eq take_bit_nat_eq_self_iff) (use unsigned_less [where ?'a = nat, of x] in simp)

lemma to_shared_inj [simp]: "to_shared_block_ref r = to_shared_block_ref r' \<longleftrightarrow> r = r'"
proof -
  have "ucast x = (ucast y :: u64) \<longleftrightarrow> x = y" for x y :: u32
    by (metis unat_ucast_u64 word_unat_eq_iff)
  then show ?thesis by (cases r; cases r') (simp add: to_shared_block_ref_def)
qed

text \<open>The linearizer, whenever it returns: the blocks it lists were uncommitted, are pairwise distinct
  and are committed afterwards.\<close>

lemma linearize_loop_commits:
  assumes "linearize_loop d buffer to_commit = Inr (d', L)"
    and "distinct (map reference (to_commit @ buffer))"
    and "reference ` set (to_commit @ buffer) \<subseteq> fset (ds_committed d) - C" and "C \<subseteq> fset (ds_committed d)"
  shows "distinct (map reference L) \<and> reference ` set L \<subseteq> fset (ds_committed d') - C \<and>
    fset (ds_committed d) \<subseteq> fset (ds_committed d') \<and> (\<exists>X. d' = d\<lparr>ds_committed := X\<rparr>)"
  using assms
proof (induction d buffer to_commit rule: linearize_loop.induct)
  case (1 d to_commit)
  then show ?case by (auto intro!: exI [of _ "ds_committed d"])
next
  case (2 d b buffer to_commit)
  from 2(2) obtain ancs d1 where run: "uncommitted_ancestors d b = Inr ancs" "rfold commit_once ancs d = Inr d1"
    "linearize_loop d1 (rev ancs @ buffer) (to_commit @ [b]) = Inr (d', L)" by (auto simp: res_simps)
  note com = commit_all_eq [OF run(2)]
  have new: "reference x \<notin> fset (ds_committed d)" if "x \<in> set ancs" for x
    using com that by (simp add: is_committed_def)
  have d1: "fset (ds_committed d1) = reference ` set ancs \<union> fset (ds_committed d)"
    "\<exists>X. d1 = d\<lparr>ds_committed := X\<rparr>"
    using com by (auto simp: fset_of_list.rep_eq)
  have "distinct (map reference ((to_commit @ [b]) @ rev ancs @ buffer))"
    using 2(3,4) com new by (auto simp: rev_map [symmetric])
  moreover have "reference ` set ((to_commit @ [b]) @ rev ancs @ buffer) \<subseteq> fset (ds_committed d1) - C"
    using 2(4,5) new by (auto simp: d1)
  ultimately have "distinct (map reference L) \<and> reference ` set L \<subseteq> fset (ds_committed d') - C \<and>
    fset (ds_committed d1) \<subseteq> fset (ds_committed d') \<and> (\<exists>X. d' = d1\<lparr>ds_committed := X\<rparr>)"
    using 2(5) d1(1) by (intro 2(1) [OF run]) auto
  with d1 show ?case by auto
qed

lemma commit_leader_commits:
  assumes "commit_leader H b d = Inr (d', sub)"
  shows "distinct (map reference (sd_blocks sub))"
    and "reference ` set (sd_blocks sub) \<subseteq> fset (ds_committed d') - fset (ds_committed d)"
    and "fset (ds_committed d) \<subseteq> fset (ds_committed d')"
    and "ds_last_commit_index d' = cr_index (sd_commit_ref sub)"
    and "unat (cr_index (sd_commit_ref sub)) = unat (ds_last_commit_index d) + 1"
    and "ds_highest_accepted_round d' = ds_highest_accepted_round d"
    and "ds_threshold_clock d' = ds_threshold_clock d"
proof -
  from assms obtain i d1 L where run: "checked_add (ds_last_commit_index d) 1 = Inr i"
    "linearize_sub_dag b d = Inr (d1, L)" "sd_blocks sub = L" "cr_index (sd_commit_ref sub) = i" "record_commit sub d1 = Inr d'"
    by (auto simp: commit_leader_def res_simps Let_def)
  from run(2) obtain L' where lin: "\<not> is_committed d (reference b)"
    "linearize_loop (d\<lparr>ds_committed := finsert (reference b) (ds_committed d)\<rparr>) [b] [] = Inr (d1, L')"
    "L = sort_sub_dag_blocks L'"
    by (auto simp: linearize_sub_dag_def commit_once_eq res_simps split: if_splits)
  have loop': "distinct (map reference L')" "reference ` set L' \<subseteq> fset (ds_committed d1) - fset (ds_committed d)"
    "fset (ds_committed d) \<subseteq> fset (ds_committed d1)" "\<exists>X. d1 = d\<lparr>ds_committed := X\<rparr>"
    using linearize_loop_commits [OF lin(2), of "fset (ds_committed d)"] lin(1)
    by (auto simp: is_committed_def subset_insertI)
  then have loop: "distinct (map reference L')" "reference ` set L' \<subseteq> fset (ds_committed d1) - fset (ds_committed d)"
    "fset (ds_committed d) \<subseteq> fset (ds_committed d1)"
    "ds_highest_accepted_round d1 = ds_highest_accepted_round d" "ds_threshold_clock d1 = ds_threshold_clock d"
    by auto
  have rec: "ds_last_commit_index d' = cr_index (sd_commit_ref sub)" "ds_committed d' = ds_committed d1"
    "ds_highest_accepted_round d' = ds_highest_accepted_round d1" "ds_threshold_clock d' = ds_threshold_clock d1"
    using run(5) by (auto simp: record_commit_def res_simps)
  show "distinct (map reference (sd_blocks sub))"
    using loop(1) by (simp add: run(3) lin(3) sort_sub_dag_blocks_def distinct_map)
  show "reference ` set (sd_blocks sub) \<subseteq> fset (ds_committed d') - fset (ds_committed d)"
    using loop(2) by (simp add: run(3) lin(3) rec)
  show "fset (ds_committed d) \<subseteq> fset (ds_committed d')" using loop(3) by (simp add: rec)
  show "ds_last_commit_index d' = cr_index (sd_commit_ref sub)" by (rule rec)
  show "unat (cr_index (sd_commit_ref sub)) = unat (ds_last_commit_index d) + 1"
    using run(1,4) unat_add_lt [of "ds_last_commit_index d" 1] by (auto simp: res_simps)
  show "ds_highest_accepted_round d' = ds_highest_accepted_round d" "ds_threshold_clock d' = ds_threshold_clock d"
    using loop(4,5) rec(3,4) by simp_all
qed

lemma commits_ok_commit:
  assumes "commits_ok node" and "commit_leader H b (cn_dag_state node) = Inr (d', sub)"
  shows "commits_ok (node\<lparr>cn_dag_state := d', cn_last_decided := s,
    cn_events := cn_events node @ [HardCommit (to_shared_subdag sub)]\<rparr>)"
proof -
  note c = commit_leader_commits [OF assms(2)]
  let ?refs = "map (to_shared_block_ref \<circ> reference) (sd_blocks sub)"
  let ?old = "concat (map (\<lambda>s. map ovb_block_ref (osd_blocks s)) (hard_commits (cn_events node)))"
  from assms(1) have old: "map (unat \<circ> osd_commit_index) (hard_commits (cn_events node)) =
      [1 ..< Suc (unat (ds_last_commit_index (cn_dag_state node)))]"
    "distinct ?old" "set ?old \<subseteq> to_shared_block_ref ` fset (ds_committed (cn_dag_state node))"
    unfolding commits_ok_def Let_def by blast+
  have "distinct ?refs" using c(1) by (auto simp: distinct_map inj_on_def)
  moreover have sub: "set ?refs \<subseteq> to_shared_block_ref ` fset (ds_committed d')"
    "set ?refs \<inter> to_shared_block_ref ` fset (ds_committed (cn_dag_state node)) = {}" using c(2) by auto
  ultimately have "distinct (?old @ ?refs)" using old(2,3) unfolding distinct_append by blast
  moreover have "set (?old @ ?refs) \<subseteq> to_shared_block_ref ` fset (ds_committed d')"
    unfolding set_append using old(3) sub(1) c(3) by blast
  moreover have "map ovb_block_ref (osd_blocks (to_shared_subdag sub)) = ?refs"
    "unat (osd_commit_index (to_shared_subdag sub)) = unat (ds_last_commit_index (cn_dag_state node)) + 1"
    using c(5) by (simp_all add: to_shared_subdag_def)
  ultimately show ?thesis
    unfolding commits_ok_def Let_def using old(1) c(4,5) by simp
qed

lemma commits_ok_frame:
  assumes "commits_ok node" and "hard_commits (cn_events node') = hard_commits (cn_events node)"
    and "ds_last_commit_index (cn_dag_state node') = ds_last_commit_index (cn_dag_state node)"
    and "ds_committed (cn_dag_state node') = ds_committed (cn_dag_state node)"
  shows "commits_ok node'"
  using assms by (simp add: commits_ok_def)

lemma soft_commit_frame:
  assumes "check_soft_commit b node = Inr node'"
  shows "cn_dag_state node' = cn_dag_state node \<and> hard_commits (cn_events node') = hard_commits (cn_events node)"
proof -
  have vote: "cn_dag_state n' = cn_dag_state n \<and> hard_commits (cn_events n') = hard_commits (cn_events n)"
    if "soft_commit_vote r e v a n = Inr n'" for r e v a n n'
    using that by (auto simp: soft_commit_vote_def res_simps Let_def split: if_splits prod.splits)
  from assms show ?thesis
    unfolding check_soft_commit_def
    by (auto simp: Let_def res_simps split: if_splits
        dest!: rfold_invariant [where P = "\<lambda>n. cn_dag_state n = cn_dag_state node \<and>
          hard_commits (cn_events n) = hard_commits (cn_events node)"] dest: vote)
qed

lemma hard_commit_keeps:
  assumes "try_hard_commit H node = Inr node'" and "commits_ok node"
  shows "commits_ok node'"
proof -
  have "commits_ok n'" if "hard_commit_one H x n = Inr n'" "commits_ok n" for x n n'
    using that by (cases x) (auto simp: res_simps intro: commits_ok_commit commits_ok_frame [of n])
  with assms show ?thesis
    by (auto simp: try_hard_commit_def res_simps intro: rfold_invariant [where P = commits_ok])
qed

lemma accept_blocks_frame:
  assumes "dag_accept_blocks bs d = Inr d'"
  shows "ds_committed d' = ds_committed d \<and> ds_last_commit_index d' = ds_last_commit_index d"
proof -
  have "ds_committed d2 = ds_committed d1 \<and> ds_last_commit_index d2 = ds_last_commit_index d1"
    if "accept_one b d1 = Inr d2" for b d1 d2
    using that by (auto simp: accept_one_def Let_def res_simps split: if_splits)
  with assms show ?thesis
    unfolding dag_accept_blocks_def
    by (auto dest!: rfold_invariant [where P = "\<lambda>x. ds_committed x = ds_committed d \<and>
        ds_last_commit_index x = ds_last_commit_index d"])
qed

lemma try_accept_frame:
  assumes "try_accept_blocks blocks bm d = Inr (bm', d', accepted, missing)"
  shows "ds_committed d' = ds_committed d \<and> ds_last_commit_index d' = ds_last_commit_index d"
proof -
  let ?P = "\<lambda>x :: accept_state. ds_committed (fst (snd x)) = ds_committed d \<and>
    ds_last_commit_index (fst (snd x)) = ds_last_commit_index d"
  have step: "?P y" if "accept_step b x = Inr y" "?P x" for b x y
  proof -
    obtain bm1 d1 acc m where x: "x = (bm1, d1, acc, m)" by (metis surj_pair)
    obtain bm2 r where r: "try_accept_one_block b bm1 d1 = (bm2, r)" by fastforce
    show ?thesis
    proof (cases r)
      case (Accepted b')
      obtain bm3 us where us: "try_unsuspend_children_blocks (reference b) bm2 = (bm3, us)" by fastforce
      from that(1) Accepted x r us obtain d2 where "dag_accept_blocks (b' # us) d1 = Inr d2" "fst (snd y) = d2"
        by (auto simp: rbind_eq_Inr)
      with accept_blocks_frame that(2) x show ?thesis by auto
    next
      case (Suspended missing)
      with that(1) have "fst (snd y) = d1" by (simp add: x r) (metis fst_conv snd_conv)
      with that(2) show ?thesis by (simp add: x)
    next
      case Processed
      with that(1) have "fst (snd y) = d1" by (simp add: x r) (metis fst_conv snd_conv)
      with that(2) show ?thesis by (simp add: x)
    qed
  qed
  have run: "rfold accept_step (sort_key vb_round blocks) (bm, d, [], {||}) = Inr (bm', d', accepted, missing)"
    using assms by (simp add: try_accept_blocks_def try_accept_blocks_internal_def)
  have "?P (bm', d', accepted, missing)"
    by (rule rfold_invariant [where P = ?P, OF run]) (simp, rule step)
  then show ?thesis by simp
qed

lemma ingest_keeps_commits:
  assumes "ingest H blocks node = Inr node'" and "commits_ok node"
  shows "commits_ok node'"
proof -
  from assms(1) obtain bm d acc missing n1 where run:
    "try_accept_blocks blocks (cn_block_manager node) (cn_dag_state node) = Inr (bm, d, acc, missing)"
    "rfold check_soft_commit acc (node\<lparr>cn_block_manager := bm, cn_dag_state := d\<rparr>) = Inr n1"
    "try_hard_commit H n1 = Inr node'"
    by (auto simp: ingest_def res_simps)
  have "commits_ok (node\<lparr>cn_block_manager := bm, cn_dag_state := d\<rparr>)"
    using commits_ok_frame [OF assms(2)] try_accept_frame [OF run(1)] by simp
  then have "commits_ok n1"
    using rfold_invariant [OF run(2), of commits_ok] soft_commit_frame commits_ok_frame by metis
  then show ?thesis by (rule hard_commit_keeps [OF run(3)])
qed

section \<open>A node that never panics\<close>

text \<open>The invariant of a node fed in causal order: nothing is suspended, the DAG is closed and layered,
  the last decided slot is a leader slot and nothing above it is committed.\<close>

definition node_ok :: "BaseCommitter \<Rightarrow> ConsensusNode \<Rightarrow> bool" where
  "node_ok bc node \<longleftrightarrow>
     (let d = cn_dag_state node; ld = cn_last_decided node in
      bm_ok (cn_block_manager node) d \<and> idle (cn_block_manager node) \<and> dag_ok d \<and> dup_free d \<and>
      committee (cn_context node) = dag_committee d \<and> uc_default (cn_committer node) bc \<and> reads bc d \<and>
      ld = leader_slot bc (sl_round ld) \<and> is_leader bc (sl_round ld) \<and> committed_up_to d (sl_round ld) \<and>
      sl_round ld \<noteq> - 1 \<and> unat (ds_last_commit_index d) \<le> unat (sl_round ld) \<and>
      (\<exists>hist. sct_hist (dag_committee d) hist (cn_soft_commit node)))"

text \<open>The authorities with two blocks in a round among the references.\<close>

definition forkers :: "BlockRef set \<Rightarrow> Round \<Rightarrow> AuthorityIndex set" where
  "forkers refs rnd = {br_author r |r r'. r \<in> refs \<and> r' \<in> refs \<and> r \<noteq> r' \<and> br_round r = rnd \<and>
     br_round r' = rnd \<and> br_author r = br_author r'}"

definition good_batch :: "DagState \<Rightarrow> VerifiedBlock list \<Rightarrow> bool" where
  "good_batch d blocks \<longleftrightarrow> blocks \<noteq> [] \<and>
     (\<forall>b \<in> set blocks. acceptable d b \<and> distinct (vb_ancestors b) \<and>
        (\<forall>a \<in> set (vb_ancestors b). br_round a < vb_round b \<and>
           (0 < br_round a \<longrightarrow> a \<in> dag_refs d \<or> a \<in> reference ` set blocks))) \<and>
     (\<forall>rnd > 0. sum (weight (dag_committee d)) (forkers (dag_refs d \<union> reference ` set blocks) rnd)
        \<le> fault_tolerance (dag_committee d))"

lemma few_equivocators_forkers:
  "few_equivocators d d rnd \<longleftrightarrow> sum (weight (dag_committee d)) (forkers (dag_refs d) rnd) \<le> fault_tolerance (dag_committee d)"
  by (simp add: few_equivocators_def equivocators_def forkers_def)

lemma dag_inv_highest: "dag_inv d \<Longrightarrow> unat (ds_highest_accepted_round d) + 1 < 2 ^ 32"
  using checked_succ(1) [of "ds_highest_accepted_round d"] by (simp add: dag_inv_def checked_add_eq_Inr)

lemma due_not_max: "due bc d rnd \<Longrightarrow> rnd \<noteq> - 1"
  using unsigned_less [where ?'a = nat, of "ds_highest_accepted_round d"]
  by (auto simp: due_def unsigned_minus_1_eq_mask mask_eq_exp_minus_1)

lemma committed_up_to_mono: "committed_up_to d rnd \<Longrightarrow> rnd < rnd' \<Longrightarrow> committed_up_to d rnd'"
  by (meson committed_up_to_def le_less_trans less_imp_le)

text \<open>Accepting a batch.\<close>

lemma accept_good_batch:
  assumes ok: "node_ok bc node" and batch: "good_batch (cn_dag_state node) blocks"
  shows "\<exists>bm d accepted. try_accept_blocks blocks (cn_block_manager node) (cn_dag_state node) = Inr (bm, d, accepted, {||}) \<and>
    node_ok bc (node\<lparr>cn_block_manager := bm, cn_dag_state := d\<rparr>) \<and> no_forks d \<and>
    (\<forall>b \<in> set accepted. is_valid_index (dag_committee d) (vb_author b)) \<and>
    dag_refs d = dag_refs (cn_dag_state node) \<union> reference ` set blocks"
proof -
  let ?d = "cn_dag_state node"
  have k: "bm_ok (cn_block_manager node) ?d" "idle (cn_block_manager node)" "dag_ok ?d" "dup_free ?d"
    using ok by (simp_all add: node_ok_def Let_def)
  have anc: "\<forall>b \<in> set blocks. \<forall>a \<in> set (vb_ancestors b). 0 < br_round a \<longrightarrow>
      br_round a < vb_round b \<and> (a \<in> dag_refs ?d \<or> a \<in> reference ` set blocks)"
    and acc: "\<forall>b \<in> set blocks. acceptable ?d b"
    using batch by (auto simp: good_batch_def)
  obtain bm d accepted where run: "try_accept_blocks blocks (cn_block_manager node) ?d = Inr (bm, d, accepted, {||})"
    "bm_ok bm d" "idle bm" "dag_refs d = dag_refs ?d \<union> reference ` set blocks" "same_frame ?d d"
    "set accepted \<subseteq> set blocks" "\<And>r x. get_block d r = Some x \<Longrightarrow> x \<in> set blocks \<or> get_block ?d r = Some x"
    using causal_delivery [OF k(1,2) acc anc] by blast
  have inv: "dag_inv d" using run(2) by (simp add: bm_ok_def)
  have split: "x \<in> set blocks \<and> reference x = r \<or> get_block ?d r = Some x" if "get_block d r = Some x" for r x
    using run(7) [OF that] get_block_reference [OF inv that] by blast
  have comm: "dag_committee d = dag_committee ?d" by (rule same_frame_simps(1) [OF run(5)])
  have "layered d" by (rule accept_layered [of ?d blocks]) (use k(3) batch split in \<open>auto simp: dag_ok_def good_batch_def\<close>)
  moreover have "closed d" by (rule accept_closed [of ?d _ blocks]) (use k(3) anc run(4) split in \<open>auto simp: dag_ok_def\<close>)
  ultimately have "dag_ok d" using inv by (simp add: dag_ok_def)
  moreover have "dup_free d"
    unfolding dup_free_def
  proof (intro allI impI)
    fix r b assume "get_block d r = Some b"
    from run(7) [OF this] batch k(4) show "distinct (vb_ancestors b)" by (auto simp: good_batch_def dup_free_def)
  qed
  moreover have "no_forks d"
    using batch by (simp add: no_forks_def few_equivocators_forkers comm run(4) good_batch_def)
  moreover have "committed_up_to d rnd \<longleftrightarrow> committed_up_to ?d rnd" for rnd
    by (simp add: committed_up_to_def same_frame_simps(2) [OF run(5)])
  moreover have "ds_last_commit_index d = ds_last_commit_index ?d" using run(5) by (simp add: same_frame_def)
  ultimately have "node_ok bc (node\<lparr>cn_block_manager := bm, cn_dag_state := d\<rparr>)"
    using ok run(2,3) comm by (simp add: node_ok_def Let_def reads_def)
  moreover have "\<forall>b \<in> set accepted. is_valid_index (dag_committee d) (vb_author b)"
    using run(6) acc comm by (auto simp: acceptable_def)
  ultimately show ?thesis using run(1,4) \<open>no_forks d\<close> by blast
qed

text \<open>Counting soft-commit votes.\<close>

lemma soft_vote_ok:
  assumes ok: "node_ok bc node" and "is_leader_round rnd" and "is_valid_index (dag_committee (cn_dag_state node)) voter"
  shows "\<exists>node'. soft_commit_vote rnd leader voter a node = Inr node' \<and> node_ok bc node' \<and>
    cn_dag_state node' = cn_dag_state node"
proof (cases "br_round a = rnd \<and> br_author a = leader")
  case False
  with ok show ?thesis by (auto simp: soft_commit_vote_def)
next
  case True
  let ?d = "cn_dag_state node"
  obtain hist where hist: "sct_hist (dag_committee ?d) hist (cn_soft_commit node)"
    using ok by (auto simp: node_ok_def Let_def)
  have k: "wf_committee (dag_committee ?d)" "committee (cn_context node) = dag_committee ?d" "dag_inv ?d"
    using ok dag_ok_wf by (auto simp: node_ok_def Let_def dag_ok_def)
  have "valid_vote (dag_committee ?d) (a, voter)" using True assms(2,3) by (simp add: valid_vote_def)
  from sct_hist_step [OF k(1) hist this] obtain t b where t: "add_vote a voter (dag_committee ?d) (cn_soft_commit node) = Inr (t, b)"
    "sct_hist (dag_committee ?d) (hist @ [(a, voter)]) t" by blast
  have pos: "gc_round ?d < br_round a" using True assms(2) by (simp add: is_leader_round_def gc_round_def)
  obtain bs where bs: "get_causal_blocks ?d a (gc_round ?d) = Inr bs"
    using pos by (cases "get_block ?d a"; cases "is_committed ?d a")
      (auto simp: get_causal_blocks_def simp del: causal_loop.simps)
  have "node_ok bc (node\<lparr>cn_soft_commit := t\<rparr>)" "node_ok bc (node\<lparr>cn_soft_commit := t, cn_events := evs\<rparr>)" for evs
    using ok t(2) by (auto simp: node_ok_def Let_def)
  with True t(1) k(2) bs show ?thesis by (simp add: soft_commit_vote_def Let_def)
qed

lemma check_soft_commit_ok:
  assumes ok: "node_ok bc node" and "is_valid_index (dag_committee (cn_dag_state node)) (vb_author b)"
  shows "\<exists>node'. check_soft_commit b node = Inr node' \<and> node_ok bc node' \<and> cn_dag_state node' = cn_dag_state node"
proof (cases "vb_round b < 2 \<or> \<not> is_leader_round (vb_round b - 1)")
  case True
  with ok show ?thesis by (auto simp: check_soft_commit_def Let_def)
next
  case False
  let ?c = "committee (cn_context node)"
  have c: "wf_committee ?c" using ok dag_ok_wf by (auto simp: node_ok_def Let_def)
  have "0 < committee_size ?c" "committee_size ?c < 2 ^ 32" using c by (auto simp: wf_committee_def committee_size_def)
  then have "(word_of_nat (committee_size ?c) :: u32) \<noteq> 0" by (simp add: word_of_nat_eq_0_iff dvd_imp_le not_le nat_dvd_not_less)
  then obtain l where l: "leader_at_round (vb_round b - 1) (committee_size ?c) = Inr l"
    using False \<open>0 < committee_size ?c\<close> by (simp add: leader_at_round_def checked_rem_def)
  have "\<exists>t. rfold (soft_commit_vote (vb_round b - 1) l (vb_author b)) (vb_ancestors b) node = Inr t \<and>
      node_ok bc t \<and> cn_dag_state t = cn_dag_state node"
    using soft_vote_ok False assms by (intro rfold_total) (auto, metis)
  with False l show ?thesis by (auto simp: check_soft_commit_def Let_def)
qed

text \<open>Committing the decided leaders. A commit changes no block.\<close>

lemma get_block_cong: "ds_blocks d' = ds_blocks d \<Longrightarrow> ds_genesis d' = ds_genesis d \<Longrightarrow> get_block d' = get_block d"
  by (rule ext) (simp add: get_block_def cong: option.case_cong)

lemma commit_frame:
  assumes ok: "dag_ok d" "dup_free d" and com: "is_commit_of d b d' sub"
    and same: "ds_highest_accepted_round d' = ds_highest_accepted_round d" "ds_threshold_clock d' = ds_threshold_clock d"
  shows "dag_ok d'" "dup_free d'" "dag_committee d' = dag_committee d" "get_block d' = get_block d"
proof -
  have f: "ds_blocks d' = ds_blocks d" "ds_genesis d' = ds_genesis d" "ds_context d' = ds_context d"
    "\<And>r. is_committed d r \<Longrightarrow> is_committed d' r"
    using com by (simp_all add: is_commit_of_def)
  show blocks: "get_block d' = get_block d" by (rule get_block_cong [OF f(1,2)])
  show comm: "dag_committee d' = dag_committee d" by (simp add: dag_committee_def f(3))
  have "anc_edge d' = anc_edge d" "dag_refs d' = dag_refs d" by (simp_all add: fun_eq_iff anc_edge_def dag_refs_def blocks)
  moreover have "dag_inv d'" using ok(1) f same comm unfolding dag_ok_def dag_inv_def by simp
  ultimately show "dag_ok d'" using ok(1) by (simp add: dag_ok_def layered_def closed_def)
  show "dup_free d'" using ok(2) by (simp add: dup_free_def blocks)
qed

lemma cone_rounds:
  assumes "layered d" and "r \<in> causal_cone d gc leader"
  shows "br_round r \<le> br_round leader"
proof -
  have "open_edge d gc \<le> anc_edge d" by (auto simp: open_edge_def)
  then have "(anc_edge d)\<^sup>*\<^sup>* leader r" using assms(2) rtranclp_mono unfolding causal_cone_def by blast
  from layered_path [OF assms(1) this] show ?thesis by auto
qed

lemma commit_one_ok:
  assumes ok: "node_ok bc node" and s: "vb_slot L = leader_slot bc rnd" "is_leader bc rnd" "rnd \<noteq> - 1"
    "sl_round (cn_last_decided node) < rnd" and L: "get_block (cn_dag_state node) (reference L) = Some L"
  shows "\<exists>d' sub. commit_leader H L (cn_dag_state node) = Inr (d', sub) \<and> get_block d' = get_block (cn_dag_state node) \<and>
    node_ok bc (node\<lparr>cn_dag_state := d', cn_last_decided := vb_slot L, cn_events := evs sub\<rparr>)"
proof -
  let ?d = "cn_dag_state node" and ?ld = "cn_last_decided node"
  have k: "dag_ok ?d" "dup_free ?d" "idle (cn_block_manager node)" "committed_up_to ?d (sl_round ?ld)"
    "unat (ds_last_commit_index ?d) \<le> unat (sl_round ?ld)" "committee (cn_context node) = dag_committee ?d"
    "uc_default (cn_committer node) bc" "reads bc ?d"
    using ok unfolding node_ok_def Let_def by blast+
  have rnd: "vb_round L = rnd" using vb_slot_sel [OF s(1)] by (simp add: leader_slot_def)
  have lt: "unat (sl_round ?ld) < unat rnd" using s(4) by (simp add: word_less_nat_alt)
  have "0 < vb_round L" using s(4) rnd by (simp add: le_less_trans [OF word_zero_le])
  moreover have "\<not> is_committed ?d (reference L)" using k(4) s(4) rnd by (auto simp: committed_up_to_def)
  moreover have "ds_last_commit_index ?d \<noteq> - 1"
    using k(5) lt unsigned_less [where ?'a = nat, of rnd] by (auto simp: unsigned_minus_1_eq_mask mask_eq_exp_minus_1)
  ultimately obtain d' sub where run: "commit_leader H L ?d = Inr (d', sub)" and com: "is_commit_of ?d L d' sub"
    using commit_leader_ok [OF k(1,2) L] by blast
  note c = commit_leader_commits [OF run]
  note f = commit_frame [OF k(1,2) com c(6,7)]
  have "committed_up_to d' rnd"
    unfolding committed_up_to_def
  proof (intro allI impI)
    fix r assume "is_committed d' r"
    then have "is_committed ?d r \<or> r \<in> causal_cone ?d 0 (reference L)" using com by (simp add: is_commit_of_def)
    then show "br_round r \<le> rnd"
      using k(1,4) s(4) rnd cone_rounds [of ?d r 0 "reference L"] by (auto simp: dag_ok_def committed_up_to_def)
  qed
  moreover have "unat (ds_last_commit_index d') \<le> unat rnd" using c(4,5) k(5) lt by simp
  moreover have "bm_ok (cn_block_manager node) d'" using closed_bm_ok f(1) k(3) by (simp add: dag_ok_def)
  ultimately have "node_ok bc (node\<lparr>cn_dag_state := d', cn_last_decided := vb_slot L, cn_events := evs sub\<rparr>)"
    using ok f s k(3,6,7,8) by (simp add: node_ok_def Let_def reads_def leader_slot_def)
  with run f(4) show ?thesis by blast
qed

definition leaders_after :: "BaseCommitter \<Rightarrow> DagState \<Rightarrow> Round \<Rightarrow> DecidedLeader list \<Rightarrow> bool" where
  "leaders_after bc d ld ds \<longleftrightarrow> sorted_wrt (<) (ld # map (sl_round \<circ> dl_slot) ds) \<and>
     (\<forall>x \<in> set ds. dl_slot x = leader_slot bc (sl_round (dl_slot x)) \<and> is_leader bc (sl_round (dl_slot x)) \<and>
        sl_round (dl_slot x) \<noteq> - 1) \<and>
     (\<forall>L direct. DecidedCommit L direct \<in> set ds \<longrightarrow> get_block d (reference L) = Some L)"

lemma hard_commit_loop_ok:
  assumes "node_ok bc node" and "leaders_after bc (cn_dag_state node) (sl_round (cn_last_decided node)) ds"
  shows "\<exists>node'. rfold (hard_commit_one H) ds node = Inr node' \<and> node_ok bc node' \<and>
    get_block (cn_dag_state node') = get_block (cn_dag_state node)"
  using assms
proof (induction ds arbitrary: node)
  case (Cons x ds)
  let ?r = "sl_round (dl_slot x)"
  have x: "dl_slot x = leader_slot bc ?r" "is_leader bc ?r" "?r \<noteq> - 1" "sl_round (cn_last_decided node) < ?r"
    and rest: "leaders_after bc (cn_dag_state node) ?r ds"
    using Cons.prems(2) by (auto simp: leaders_after_def)
  have "\<exists>n1. hard_commit_one H x node = Inr n1 \<and> node_ok bc n1 \<and> cn_last_decided n1 = dl_slot x \<and>
      get_block (cn_dag_state n1) = get_block (cn_dag_state node)"
  proof (cases x)
    case (DecidedCommit L direct)
    then have L: "vb_slot L = leader_slot bc ?r" "get_block (cn_dag_state node) (reference L) = Some L"
      using x(1) Cons.prems(2) by (auto simp: leaders_after_def slot_of_reference)
    from commit_one_ok [OF Cons.prems(1) L(1) x(2-4) L(2), of H "\<lambda>sub. cn_events node @ [HardCommit (to_shared_subdag sub)]"]
    show ?thesis using L(1) x(1) by (auto simp: DecidedCommit)
  next
    case (DecidedSkip s)
    have "node_ok bc (node\<lparr>cn_last_decided := s\<rparr>)"
      using Cons.prems(1) x DecidedSkip committed_up_to_mono [of "cn_dag_state node"]
        unat_mono [of "sl_round (cn_last_decided node)" ?r]
      by (auto simp: node_ok_def Let_def)
    then show ?thesis by (simp add: DecidedSkip)
  qed
  then obtain n1 where n1: "hard_commit_one H x node = Inr n1" "node_ok bc n1" "cn_last_decided n1 = dl_slot x"
    "get_block (cn_dag_state n1) = get_block (cn_dag_state node)" by blast
  from Cons.IH [OF n1(2)] rest n1(1,3,4) show ?case by (simp add: leaders_after_def)
qed simp

lemma try_hard_commit_ok:
  assumes ok: "node_ok bc node" and "no_forks (cn_dag_state node)"
  shows "\<exists>node'. try_hard_commit H node = Inr node' \<and> node_ok bc node' \<and>
    get_block (cn_dag_state node') = get_block (cn_dag_state node)"
proof -
  let ?d = "cn_dag_state node" and ?ld = "cn_last_decided node"
  have k: "uc_default (cn_committer node) bc" "?ld = leader_slot bc (sl_round ?ld)" "is_leader bc (sl_round ?ld)"
    "dag_ok ?d" "reads bc ?d"
    using ok unfolding node_ok_def Let_def by blast+
  have v: "view_ok bc ?d"
    using k assms(2) dag_inv_highest [of ?d] by (simp add: view_ok_def uc_default_def dag_ok_def)
  obtain ds where ds: "try_decide (cn_committer node) ?d ?ld = Inr ds"
    "prefix (map dl_slot ds) (map (leader_slot bc) (due_rounds bc ?d ?ld))"
    "\<forall>L direct. DecidedCommit L direct \<in> set ds \<longrightarrow> get_block ?d (reference L) = Some L"
    using try_decide_prefix [OF k(1) v k(2,3)] by blast
  from ds(2) obtain n where n: "map dl_slot ds = map (leader_slot bc) (take n (due_rounds bc ?d ?ld))"
    by (metis prefix_def take_map append_eq_conv_conj)
  have rounds: "map (sl_round \<circ> dl_slot) ds = take n (due_rounds bc ?d ?ld)"
    using arg_cong [OF n, of "map sl_round"] by (simp add: comp_def leader_slot_def)
  have mem: "dl_slot x = leader_slot bc (sl_round (dl_slot x)) \<and> sl_round (dl_slot x) \<in> set (due_rounds bc ?d ?ld)"
    if "x \<in> set ds" for x
  proof -
    have "dl_slot x \<in> leader_slot bc ` set (take n (due_rounds bc ?d ?ld))"
      using that arg_cong [OF n, of set] by auto
    then show ?thesis by (auto simp: leader_slot_def dest: in_set_takeD)
  qed
  have "leaders_after bc ?d (sl_round ?ld) ds"
    unfolding leaders_after_def rounds
    using due_rounds_ascending [OF v, of ?ld] mem ds(3) due_rounds_iff [OF v, of _ ?ld] due_not_max [of bc ?d]
    by (auto simp: sorted_wrt_take due_def dest!: in_set_takeD)
  from hard_commit_loop_ok [OF ok this] ds(1) show ?thesis by (simp add: try_hard_commit_def)
qed

lemma ingest_ok:
  assumes "node_ok bc node" and "good_batch (cn_dag_state node) blocks"
  shows "\<exists>node'. ingest H blocks node = Inr node' \<and> node_ok bc node' \<and>
    dag_refs (cn_dag_state node') = dag_refs (cn_dag_state node) \<union> reference ` set blocks"
proof -
  obtain bm d acc where run: "try_accept_blocks blocks (cn_block_manager node) (cn_dag_state node) = Inr (bm, d, acc, {||})"
    "node_ok bc (node\<lparr>cn_block_manager := bm, cn_dag_state := d\<rparr>)" "no_forks d"
    "\<forall>b \<in> set acc. is_valid_index (dag_committee d) (vb_author b)"
    "dag_refs d = dag_refs (cn_dag_state node) \<union> reference ` set blocks"
    using accept_good_batch [OF assms] by blast
  let ?n = "node\<lparr>cn_block_manager := bm, cn_dag_state := d\<rparr>"
  have "\<exists>n1. rfold check_soft_commit acc ?n = Inr n1 \<and> node_ok bc n1 \<and> cn_dag_state n1 = d"
  proof (rule rfold_total)
    show "node_ok bc ?n \<and> cn_dag_state ?n = d" using run(2) by simp
    fix b n assume "b \<in> set acc" "node_ok bc n \<and> cn_dag_state n = d"
    with check_soft_commit_ok [of bc n b] run(4) show "\<exists>n'. check_soft_commit b n = Inr n' \<and> node_ok bc n' \<and> cn_dag_state n' = d"
      by auto
  qed
  then obtain n1 where n1: "rfold check_soft_commit acc ?n = Inr n1" "node_ok bc n1" "cn_dag_state n1 = d" by blast
  from try_hard_commit_ok [OF n1(2)] n1(3) run(3) obtain n2 where
    n2: "try_hard_commit H n1 = Inr n2" "node_ok bc n2" "get_block (cn_dag_state n2) = get_block d" by auto
  have "dag_refs (cn_dag_state n2) = dag_refs d" using n2(3) by (simp add: dag_refs_def)
  with run(1,5) n1(1) n2 show ?thesis by (simp add: ingest_def)
qed

section \<open>Runs of a node\<close>

text \<open>The states a node reaches: fed with anything, and fed in causal order.\<close>

inductive reaches :: "hash \<Rightarrow> Context \<Rightarrow> ConsensusNode \<Rightarrow> bool" for H ctx where
  reaches_new: "node_new H ctx = Inr node \<Longrightarrow> reaches H ctx node"
| reaches_block: "reaches H ctx node \<Longrightarrow> node_accept_block H b node = Inr node' \<Longrightarrow> reaches H ctx node'"
| reaches_blocks: "reaches H ctx node \<Longrightarrow> node_accept_blocks H bs node = Inr node' \<Longrightarrow> reaches H ctx node'"

inductive fed :: "hash \<Rightarrow> Context \<Rightarrow> ConsensusNode \<Rightarrow> bool" for H ctx where
  fed_new: "node_new H ctx = Inr node \<Longrightarrow> fed H ctx node"
| fed_batch: "fed H ctx node \<Longrightarrow> good_batch (cn_dag_state node) bs \<Longrightarrow> node_accept_blocks H bs node = Inr node' \<Longrightarrow>
    fed H ctx node'"

lemma reaches_commits_ok: "reaches H ctx node \<Longrightarrow> commits_ok node"
proof (induction rule: reaches.induct)
  case (reaches_new node)
  then have "cn_events node = []" "\<exists>d. dag_new H ctx = Inr d \<and> cn_dag_state node = d"
    by (auto simp: node_new_def res_simps)
  then show ?case using dag_new_commit_index by (auto simp: commits_ok_def)
next
  case (reaches_block node b node')
  then show ?case by (auto simp: node_accept_block_def res_simps dest: ingest_keeps_commits)
next
  case (reaches_blocks node bs node')
  then show ?case by (auto simp: node_accept_blocks_def res_simps dest: ingest_keeps_commits)
qed

lemma fed_reaches: "fed H ctx node \<Longrightarrow> reaches H ctx node"
  by (induction rule: fed.induct) (auto intro: reaches.intros)

lemma node_new_ok:
  assumes wf: "wf_committee (committee ctx)"
  shows "\<exists>bc node. node_new H ctx = Inr node \<and> node_ok bc node"
proof -
  obtain d where d: "dag_new H ctx = Inr d" "dag_inv d" "ds_context d = ctx" "ds_blocks d = om_empty"
    using dag_new_inv [OF wf] by blast
  obtain uc bc where uc: "rbind (builder_new ctx) build = Inr uc" "uc_default uc bc" "bc_context bc = ctx"
    using build_default [OF wf] by blast
  have size: "0 < committee_size (committee ctx)" using wf by (auto simp: wf_committee_def committee_size_def)
  let ?bm = "\<lparr>bm_context = ctx, bm_suspended_blocks = om_empty, bm_missing_ancestors = om_empty, bm_missing_blocks = {||}\<rparr>"
  let ?node = "\<lparr>cn_context = ctx, cn_dag_state = d, cn_block_manager = ?bm, cn_committer = uc, cn_soft_commit = sct_new,
    cn_last_decided = Slot GENESIS_ROUND 0, cn_events = []\<rparr>"
  have "node_new H ctx = Inr ?node"
    using d(1) uc(1) size by (simp add: node_new_def bm_new_def linearizer_new_def)
  moreover have anc: "vb_ancestors b = []" if "get_block d r = Some b" for r b
    using that d(2,4) by (auto simp: get_block_def dag_inv_def)
  then have "layered d" "closed d" "dup_free d" by (auto simp: layered_def closed_def anc_edge_def dup_free_def)
  moreover have "committed_up_to d 0"
    using dag_new_committed [OF d(1)] d(2) by (auto simp: committed_up_to_def om_contains_iff dag_inv_def)
  moreover have "idle ?bm" by (simp add: idle_def)
  moreover have "\<exists>hist. sct_hist (committee ctx) hist sct_new" using sct_hist_new [OF wf] by blast
  ultimately have "node_ok bc ?node"
    using d(2,3) uc dag_new_commit_index [OF d(1)] closed_bm_ok [OF d(2), of ?bm]
    by (simp add: node_ok_def Let_def dag_ok_def reads_def dag_committee_def leader_slot_def is_leader_def GENESIS_ROUND_def
        uc_default_def default_options_def)
  with \<open>node_new H ctx = Inr ?node\<close> show ?thesis by blast
qed

lemma fed_node_ok:
  assumes "wf_committee (committee ctx)" and "fed H ctx node"
  shows "\<exists>bc. node_ok bc node"
  using assms(2)
proof (induction rule: fed.induct)
  case (fed_new node)
  then show ?case using node_new_ok [OF assms(1), of H] by auto
next
  case (fed_batch node bs node')
  then show ?case using ingest_ok [of _ node bs H] by (auto simp: node_accept_blocks_def res_simps)
qed

section \<open>A node among four\<close>

text \<open>A node that receives the rounds of a fully connected DAG one after the other.\<close>

definition run4 :: "Round list \<Rightarrow> ConsensusNode res" where
  "run4 rounds = rbind (node_new H0 ctx4) (rfold (node_accept_blocks H0) (map full_round rounds))"

lemma rfold_reaches: "reaches H ctx node \<Longrightarrow> rfold (node_accept_blocks H) bss node = Inr node' \<Longrightarrow> reaches H ctx node'"
  by (induction bss arbitrary: node) (auto simp: res_simps intro: reaches_blocks)

lemma run4_reaches: "run4 rounds = Inr node \<Longrightarrow> reaches H0 ctx4 node"
  unfolding run4_def by (auto simp: res_simps intro: rfold_reaches reaches_new)

lemma full_round_1_good: "good_batch genesis4 (full_round 1)"
proof -
  have "forkers (dag_refs genesis4 \<union> reference ` set (full_round 1)) rnd = {}" if "0 < rnd" for rnd
  proof -
    have "\<not> 0 < br_round r" if "r \<in> dag_refs genesis4" for r
    proof
      assume "0 < br_round r"
      from get_block_above_genesis [OF genesis4(2) this] genesis4(4) that show False by (auto simp: dag_refs_def)
    qed
    then have dig: "br_digest r = 0" if "r \<in> dag_refs genesis4 \<union> reference ` set (full_round 1)" "br_round r = rnd" for r
      using that \<open>0 < rnd\<close> by (auto simp: full_round_def)
    have "r = r'" if "r \<in> dag_refs genesis4 \<union> reference ` set (full_round 1)" "br_round r = rnd"
      "r' \<in> dag_refs genesis4 \<union> reference ` set (full_round 1)" "br_round r' = rnd" "br_author r = br_author r'" for r r'
      using that dig [OF that(1,2)] dig [OF that(3,4)] by (intro BlockRef.expand) simp
    then show ?thesis unfolding forkers_def by blast
  qed
  moreover have "acceptable genesis4 b \<and> distinct (vb_ancestors b) \<and>
      (\<forall>a \<in> set (vb_ancestors b). br_round a < vb_round b \<and> \<not> 0 < br_round a)" if "b \<in> set (full_round 1)" for b
    using that by (auto simp: full_round_def acceptable_def genesis4(3) round_refs_def)
  moreover have "full_round 1 \<noteq> []" by (simp add: full_round_def)
  ultimately show ?thesis unfolding good_batch_def by (metis le0 sum.empty)
qed

section \<open>What the node promises\<close>

text \<open>\<^bold>\<open>C2\<close>. A validator fed in causal order keeps running. Let the batches contain member blocks that
  refer without repetition to blocks of earlier rounds which the DAG or the batch has, and let the
  authorities with two blocks in a round hold at most \<open>f\<close> stake. Then in every state the node reaches
  this way the next such batch is processed without a panic (no failed assertion, overflow, missing
  ancestor or double commit, in the block manager, the soft-commit tracker, the commit rules and the
  linearizer), all its blocks enter the DAG, nothing stays suspended and the DAG stays causally closed.\<close>

theorem node_keeps_running:
  assumes "wf_committee (committee ctx)" and "fed H ctx node" and "good_batch (cn_dag_state node) blocks"
  shows "\<exists>node'. node_accept_blocks H blocks node = Inr node' \<and> fed H ctx node' \<and>
    dag_refs (cn_dag_state node') = dag_refs (cn_dag_state node) \<union> reference ` set blocks \<and>
    suspended_blocks_count (cn_block_manager node') = 0 \<and> closed (cn_dag_state node')"
proof -
  obtain bc where "node_ok bc node" using fed_node_ok [OF assms(1,2)] by blast
  from ingest_ok [OF this assms(3)] obtain node' where n: "ingest H blocks node = Inr node'" "node_ok bc node'"
    "dag_refs (cn_dag_state node') = dag_refs (cn_dag_state node) \<union> reference ` set blocks" by blast
  have run: "node_accept_blocks H blocks node = Inr node'"
    using n(1) assms(3) by (simp add: node_accept_blocks_def good_batch_def)
  moreover have "suspended_blocks_count (cn_block_manager node') = 0" "closed (cn_dag_state node')"
    using n(2) by (auto simp: node_ok_def Let_def idle_def suspended_blocks_count_def dag_ok_def)
  ultimately show ?thesis using fed_batch [OF assms(2,3) run] n(3) by blast
qed

theorem node_keeps_running_witness:
  "\<exists>node node'. node_new H0 ctx4 = Inr node \<and> node_accept_blocks H0 (full_round 1) node = Inr node' \<and>
     fed H0 ctx4 node' \<and> suspended_blocks_count (cn_block_manager node') = 0"
proof -
  obtain node where n: "node_new H0 ctx4 = Inr node" using node_new_ok [of ctx4 H0] by auto
  then have "cn_dag_state node = genesis4" using genesis4(1) by (auto simp: node_new_def res_simps)
  with node_keeps_running [OF _ fed_new [OF n], of "full_round 1"] full_round_1_good n show ?thesis by auto
qed

text \<open>\<^bold>\<open>C3\<close>. Every run, whatever blocks arrive and in whatever order: as long as the node returns, its
  hard commits are numbered 1, 2, 3 and so on without a gap, up to the commit index of the DAG, and
  over all of them every block is delivered at most once.\<close>

theorem hard_commits_in_sequence:
  assumes "reaches H ctx node"
  shows "map (unat \<circ> osd_commit_index) (hard_commits (cn_events node)) =
      [1 ..< Suc (unat (ds_last_commit_index (cn_dag_state node)))] \<and>
    distinct (concat (map (\<lambda>s. map ovb_block_ref (osd_blocks s)) (hard_commits (cn_events node))))"
  using reaches_commits_ok [OF assms] by (simp add: commits_ok_def Let_def)

end
