(* ===== verification/Scheduler.thy ===== *)
theory Scheduler
  imports Shared_Types "HOL-Library.Multiset"
begin

text \<open>
  \<^verbatim>\<open>crates/scheduler\<close>: the pending queue that puts soft commits back into round order, the
  backpressure controller, and the pipeline between consensus and executor. A channel is the list of
  the messages sent on it; the asynchronous event loop is a fold over the messages it receives, in
  the order \<^verbatim>\<open>tokio::select!\<close> picks them, so a theorem about all input lists covers every interleaving.
  Queue depths are lengths and modelled by natural numbers.
\<close>

section \<open>The pending queue\<close>

definition WAVE_LENGTH :: SharedRound where "WAVE_LENGTH = 3"

datatype EntryStatus = Queued | Dispatched

record PendingEntry =
  pe_txs :: "EthSignedTx list"
  pe_status :: EntryStatus

datatype HardCommitDecision = HCommit SharedRound u64 | FreshExecution SharedRound u64

record PendingQueue =
  pq_entries :: "(SharedRound, PendingEntry) omap"
  pq_next_dispatch_round :: SharedRound
  pq_threshold :: nat

definition pq_new :: "SharedRound \<Rightarrow> nat \<Rightarrow> PendingQueue res" where
  "pq_new first_leader_round thr =
     rbind (guard DebugAssert (first_leader_round > 0)) (\<lambda>_.
     rbind (guard DebugAssert (thr > 0)) (\<lambda>_.
     Inr \<lparr>pq_entries = om_empty, pq_next_dispatch_round = first_leader_round, pq_threshold = thr\<rparr>))"

definition pq_insert :: "SharedRound \<Rightarrow> EthSignedTx list \<Rightarrow> PendingQueue \<Rightarrow> PendingQueue res" where
  "pq_insert rnd txs pq =
     rbind (guard DebugAssert (rnd > 0)) (\<lambda>_.
     rbind (guard DebugAssert (\<not> om_contains (pq_entries pq) rnd)) (\<lambda>_.
     Inr (pq\<lparr>pq_entries := om_insert rnd \<lparr>pe_txs = txs, pe_status = Queued\<rparr> (pq_entries pq)\<rparr>)))"

text \<open>The rounds that wait for dispatch, for the termination of the loop.\<close>

definition queued :: "PendingQueue \<Rightarrow> SharedRound set" where
  "queued pq = {r. \<exists>e. om_get (pq_entries pq) r = Some e \<and> pe_status e = Queued}"

lemma finite_queued [simp]: "finite (queued pq)"
  by (rule finite_subset [OF _ finite_om_contains [of "pq_entries pq"]]) (auto simp: queued_def om_contains_iff)

definition dispatch_entry :: "SharedRound \<Rightarrow> PendingEntry \<Rightarrow> PendingQueue \<Rightarrow> PendingQueue" where
  "dispatch_entry rnd e pq = pq\<lparr>pq_entries := om_insert rnd (e\<lparr>pe_status := Dispatched\<rparr>) (pq_entries pq)\<rparr>"

lemma queued_dispatch: "om_get (pq_entries pq) r = Some e \<Longrightarrow> queued (dispatch_entry r e pq) = queued pq - {r}"
  by (auto simp: queued_def dispatch_entry_def)

lemma queued_next [simp]: "queued (pq\<lparr>pq_next_dispatch_round := n\<rparr>) = queued pq"
  by (simp add: queued_def)

function drain_loop ::
  "PendingQueue \<Rightarrow> (SharedRound \<times> EthSignedTx list) list \<Rightarrow> (PendingQueue \<times> (SharedRound \<times> EthSignedTx list) list) res"
where
  "drain_loop pq result =
     (let rnd = pq_next_dispatch_round pq in
      case om_get (pq_entries pq) rnd of
        Some entry \<Rightarrow>
          if pe_status entry = Queued then
            rbind (checked_add (pq_next_dispatch_round pq) WAVE_LENGTH) (\<lambda>next.
            drain_loop ((dispatch_entry rnd entry pq)\<lparr>pq_next_dispatch_round := next\<rparr>) (result @ [(rnd, pe_txs entry)]))
          else Inr (pq, result)
      | None \<Rightarrow> Inr (pq, result))"
  by pat_completeness auto
termination
proof (relation "measure (\<lambda>(pq, _). card (queued pq))", goal_cases)
  case (2 pq result rnd e nxt)
  then have "rnd \<in> queued pq" by (auto simp: queued_def)
  then have "card (queued pq - {rnd}) < card (queued pq)" by (intro psubset_card_mono) auto
  with 2(2) show ?case by (simp add: queued_dispatch)
qed simp

declare drain_loop.simps [simp del]

definition drain_dispatchable :: "PendingQueue \<Rightarrow> (PendingQueue \<times> (SharedRound \<times> EthSignedTx list) list) res" where
  "drain_dispatchable pq = drain_loop pq []"

definition pq_on_hard_commit :: "SharedRound \<Rightarrow> u64 \<Rightarrow> PendingQueue \<Rightarrow> (PendingQueue \<times> HardCommitDecision) res" where
  "pq_on_hard_commit rnd commit_index pq =
     rbind (guard DebugAssert (rnd > 0)) (\<lambda>_.
     rbind (guard DebugAssert (commit_index > 0)) (\<lambda>_.
     let pq' = pq\<lparr>pq_entries := om_remove rnd (pq_entries pq)\<rparr> in
     case om_get (pq_entries pq) rnd of
       Some entry \<Rightarrow>
         if pe_status entry = Dispatched then Inr (pq', HCommit rnd commit_index)
         else Inr (pq', FreshExecution rnd commit_index)
     | None \<Rightarrow> Inr (pq', FreshExecution rnd commit_index)))"

definition pq_depth :: "PendingQueue \<Rightarrow> nat" where
  "pq_depth pq = om_len (pq_entries pq)"

section \<open>Backpressure\<close>

record BackpressureController =
  bp_threshold :: nat
  bp_paused :: bool
  bp_signals :: "BackpressureSignal list"

definition bp_new :: "nat \<Rightarrow> BackpressureController res" where
  "bp_new thr = rbind (guard DebugAssert (thr \<ge> 2)) (\<lambda>_.
     Inr \<lparr>bp_threshold = thr, bp_paused = False, bp_signals = []\<rparr>)"

definition bp_check :: "nat \<Rightarrow> BackpressureController \<Rightarrow> BackpressureController" where
  "bp_check depth bp =
     (if depth > bp_threshold bp \<and> \<not> bp_paused bp then
        bp\<lparr>bp_paused := True, bp_signals := bp_signals bp @ [SlowDown]\<rparr>
      else if depth < bp_threshold bp div 2 \<and> bp_paused bp then
        bp\<lparr>bp_paused := False, bp_signals := bp_signals bp @ [Resume]\<rparr>
      else bp)"

fun bp_update :: "BackpressureSignal \<Rightarrow> BackpressureController \<Rightarrow> BackpressureController" where
  "bp_update SlowDown bp = bp\<lparr>bp_paused := True\<rparr>"
| "bp_update Resume bp = bp\<lparr>bp_paused := False\<rparr>"

definition is_paused :: "BackpressureController \<Rightarrow> bool" where
  "is_paused bp = bp_paused bp"

section \<open>The pipeline\<close>

definition DEFAULT_THRESHOLD :: nat where "DEFAULT_THRESHOLD = 16"
definition FIRST_LEADER_ROUND :: SharedRound where "FIRST_LEADER_ROUND = 3"

datatype CommitDecision = CdCommit u64 SharedRound | CdDiscard u64 | FreshBatch TxBatch

record PipelineScheduler =
  ps_backpressure :: BackpressureController
  ps_pending :: PendingQueue
  ps_executor_tx :: "TxBatch list"
  ps_commit_tx :: "CommitDecision list"

definition ps_new :: "PipelineScheduler res" where
  "ps_new =
     rbind (bp_new DEFAULT_THRESHOLD) (\<lambda>bp.
     rbind (pq_new FIRST_LEADER_ROUND DEFAULT_THRESHOLD) (\<lambda>pq.
     Inr \<lparr>ps_backpressure = bp, ps_pending = pq, ps_executor_tx = [], ps_commit_tx = []\<rparr>))"

definition optimistic_batch :: "SharedRound \<times> EthSignedTx list \<Rightarrow> TxBatch" where
  "optimistic_batch x =
     \<lparr>tb_round = fst x, tb_commit_index = fst x div WAVE_LENGTH, tb_txs = snd x, tb_is_optimistic = True\<rparr>"

definition flush_pending :: "PipelineScheduler \<Rightarrow> PipelineScheduler res" where
  "flush_pending ps =
     rbind (drain_dispatchable (ps_pending ps)) (\<lambda>(pq, drained).
     Inr (ps\<lparr>ps_pending := pq, ps_executor_tx := ps_executor_tx ps @ map optimistic_batch drained,
       ps_backpressure := bp_check (pq_depth pq) (ps_backpressure ps)\<rparr>))"

definition handle_soft_commit :: "SharedRound \<Rightarrow> EthSignedTx list \<Rightarrow> PipelineScheduler \<Rightarrow> PipelineScheduler res" where
  "handle_soft_commit rnd txs ps =
     rbind (guard DebugAssert (rnd > 0)) (\<lambda>_.
     rbind (pq_insert rnd txs (ps_pending ps)) (\<lambda>pq.
     let ps' = ps\<lparr>ps_pending := pq, ps_backpressure := bp_check (pq_depth pq) (ps_backpressure ps)\<rparr>
     in if is_paused (ps_backpressure ps') then Inr ps' else flush_pending ps'))"

definition subdag_txs :: "OurCommittedSubDag \<Rightarrow> EthSignedTx list" where
  "subdag_txs subdag = concat (map ovb_txs (osd_blocks subdag))"

definition handle_hard_commit :: "OurCommittedSubDag \<Rightarrow> PipelineScheduler \<Rightarrow> PipelineScheduler res" where
  "handle_hard_commit subdag ps =
     (let rnd = sbr_round (osd_leader subdag); commit_index = osd_commit_index subdag in
      rbind (guard DebugAssert (rnd > 0)) (\<lambda>_.
      rbind (guard DebugAssert (commit_index > 0)) (\<lambda>_.
      rbind (pq_on_hard_commit rnd commit_index (ps_pending ps)) (\<lambda>(pq, decision).
      let out = (case decision of
            HCommit rnd commit_index \<Rightarrow> CdCommit commit_index rnd
          | FreshExecution rnd commit_index \<Rightarrow>
              FreshBatch \<lparr>tb_round = rnd, tb_commit_index = commit_index, tb_txs = subdag_txs subdag, tb_is_optimistic = False\<rparr>)
      in Inr (ps\<lparr>ps_pending := pq, ps_commit_tx := ps_commit_tx ps @ [out]\<rparr>)))))"

fun handle_consensus_event :: "ConsensusEvent \<Rightarrow> PipelineScheduler \<Rightarrow> PipelineScheduler res" where
  "handle_consensus_event (SoftCommit rnd leader txs) ps = handle_soft_commit rnd txs ps"
| "handle_consensus_event (HardCommit subdag) ps = handle_hard_commit subdag ps"

text \<open>What the event loop receives: an event, a lag notice, a signal of the executor, or the end of one of
  the two channels.\<close>

datatype SchedInput = Event ConsensusEvent | Lagged nat | EventsClosed | Signal BackpressureSignal | SignalsClosed

fun ps_run :: "SchedInput list \<Rightarrow> PipelineScheduler \<Rightarrow> PipelineScheduler res" where
  "ps_run [] ps = Inr ps"
| "ps_run (Event e # inputs) ps = rbind (handle_consensus_event e ps) (ps_run inputs)"
| "ps_run (Lagged n # inputs) ps = ps_run inputs ps"
| "ps_run (Signal s # inputs) ps = ps_run inputs (ps\<lparr>ps_backpressure := bp_update s (ps_backpressure ps)\<rparr>)"
| "ps_run (EventsClosed # inputs) ps = Inr ps"
| "ps_run (SignalsClosed # inputs) ps = Inr ps"

section \<open>Draining the queue\<close>

text \<open>What a drain does: the entries of consecutive leader rounds, from the next one on, leave the state
  \<open>Queued\<close>.\<close>

definition drains :: "PendingQueue \<Rightarrow> (SharedRound \<times> EthSignedTx list) list \<Rightarrow> PendingQueue \<Rightarrow> bool" where
  "drains pq ds pq' \<longleftrightarrow>
     map (unat \<circ> fst) ds = map (\<lambda>i. unat (pq_next_dispatch_round pq) + 3 * i) [0 ..< length ds] \<and>
     unat (pq_next_dispatch_round pq') = unat (pq_next_dispatch_round pq) + 3 * length ds \<and>
     (\<forall>(r, txs) \<in> set ds. om_get (pq_entries pq) r = Some \<lparr>pe_txs = txs, pe_status = Queued\<rparr>) \<and>
     (\<forall>r. om_get (pq_entries pq') r = (if r \<in> fst ` set ds
        then map_option (\<lambda>e. e\<lparr>pe_status := Dispatched\<rparr>) (om_get (pq_entries pq) r) else om_get (pq_entries pq) r))"

lemma drains_Nil: "drains pq [] pq"
  by (simp add: drains_def)

lemma drains_Cons:
  assumes e: "om_get (pq_entries pq) (pq_next_dispatch_round pq) = Some e" "pe_status e = Queued"
    and nxt: "checked_add (pq_next_dispatch_round pq) WAVE_LENGTH = Inr nxt"
    and rest: "drains ((dispatch_entry (pq_next_dispatch_round pq) e pq)\<lparr>pq_next_dispatch_round := nxt\<rparr>) ds pq'"
  shows "drains pq ((pq_next_dispatch_round pq, pe_txs e) # ds) pq'"
proof -
  let ?r = "pq_next_dispatch_round pq"
  have n: "unat nxt = unat ?r + 3"
    using nxt unat_add_lt [of ?r WAVE_LENGTH] by (auto simp: checked_add_eq_Inr WAVE_LENGTH_def)
  have rounds: "map (unat \<circ> fst) ds = map (\<lambda>i. unat nxt + 3 * i) [0 ..< length ds]"
    and after: "\<forall>(r, txs) \<in> set ds. om_get (om_insert ?r (e\<lparr>pe_status := Dispatched\<rparr>) (pq_entries pq)) r =
        Some \<lparr>pe_txs = txs, pe_status = Queued\<rparr>"
    and ents: "\<And>r. om_get (pq_entries pq') r = (if r \<in> fst ` set ds
        then map_option (\<lambda>e. e\<lparr>pe_status := Dispatched\<rparr>) (om_get (om_insert ?r (e\<lparr>pe_status := Dispatched\<rparr>) (pq_entries pq)) r)
        else om_get (om_insert ?r (e\<lparr>pe_status := Dispatched\<rparr>) (pq_entries pq)) r)"
    and next': "unat (pq_next_dispatch_round pq') = unat nxt + 3 * length ds"
    using rest by (simp_all add: drains_def dispatch_entry_def)
  have notin: "?r \<notin> fst ` set ds"
  proof
    assume "?r \<in> fst ` set ds"
    then obtain txs where "(?r, txs) \<in> set ds" by auto
    with after have "e\<lparr>pe_status := Dispatched\<rparr> = \<lparr>pe_txs = txs, pe_status = Queued\<rparr>" by auto
    from arg_cong [OF this, of pe_status] show False by simp
  qed
  have "map (unat \<circ> fst) ((?r, pe_txs e) # ds) = map (\<lambda>i. unat ?r + 3 * i) [0 ..< length ((?r, pe_txs e) # ds)]"
    using rounds by (simp add: n upt_conv_Cons map_Suc_upt [symmetric] del: upt_Suc) 
  moreover have "\<forall>(r, txs) \<in> set ((?r, pe_txs e) # ds). om_get (pq_entries pq) r = Some \<lparr>pe_txs = txs, pe_status = Queued\<rparr>"
  proof (intro ballI, clarify)
    fix r txs assume x: "(r, txs) \<in> set ((?r, pe_txs e) # ds)"
    show "om_get (pq_entries pq) r = Some \<lparr>pe_txs = txs, pe_status = Queued\<rparr>"
    proof (cases "(r, txs) \<in> set ds")
      case True
      then have "r \<noteq> ?r" using notin by force
      with True after show ?thesis by fastforce
    qed (use x e in simp)
  qed
  moreover have "om_get (pq_entries pq') r = (if r \<in> fst ` set ((?r, pe_txs e) # ds)
        then map_option (\<lambda>e. e\<lparr>pe_status := Dispatched\<rparr>) (om_get (pq_entries pq) r) else om_get (pq_entries pq) r)" for r
    using ents [of r] notin e(1) by (cases "r = ?r") auto
  ultimately show ?thesis using next' n by (simp add: drains_def)
qed

lemma drain_loop_drains:
  "drain_loop pq res = Inr (pq', res') \<Longrightarrow> \<exists>ds. res' = res @ ds \<and> drains pq ds pq'"
proof (induction pq res rule: drain_loop.induct)
  case (1 pq res)
  let ?r = "pq_next_dispatch_round pq"
  show ?case
  proof (cases "\<exists>e. om_get (pq_entries pq) ?r = Some e \<and> pe_status e = Queued")
    case False
    then have "pq' = pq \<and> res' = res"
      using "1.prems" by (subst (asm) drain_loop.simps) (auto simp: Let_def split: option.splits if_splits)
    then show ?thesis using drains_Nil by auto
  next
    case True
    then obtain e where e: "om_get (pq_entries pq) ?r = Some e" "pe_status e = Queued" by blast
    then obtain nxt where nxt: "checked_add ?r WAVE_LENGTH = Inr nxt"
      "drain_loop ((dispatch_entry ?r e pq)\<lparr>pq_next_dispatch_round := nxt\<rparr>) (res @ [(?r, pe_txs e)]) = Inr (pq', res')"
      using "1.prems" by (subst (asm) drain_loop.simps) (auto simp: Let_def res_simps)
    from "1.IH" [OF refl e nxt] obtain ds where "res' = res @ (?r, pe_txs e) # ds"
      "drains ((dispatch_entry ?r e pq)\<lparr>pq_next_dispatch_round := nxt\<rparr>) ds pq'" by auto
    with drains_Cons [OF e nxt(1)] show ?thesis by blast
  qed
qed

section \<open>Runs of the pipeline\<close>

definition soft_inputs :: "SchedInput list \<Rightarrow> (SharedRound \<times> EthSignedTx list) set" where
  "soft_inputs inputs = {(r, txs). \<exists>l. Event (SoftCommit r l txs) \<in> set inputs}"

text \<open>The invariant of a run: what was dispatched so far are the leader rounds 3, 6, 9 and so on; entries
  come from soft commits, and the dispatched ones are below the next round.\<close>

definition ps_inv :: "(SharedRound \<times> EthSignedTx list) set \<Rightarrow> PipelineScheduler \<Rightarrow> bool" where
  "ps_inv softs ps \<longleftrightarrow>
     map (\<lambda>b. unat (tb_round b)) (ps_executor_tx ps) = map (\<lambda>i. 3 * Suc i) [0 ..< length (ps_executor_tx ps)] \<and>
     unat (pq_next_dispatch_round (ps_pending ps)) = 3 * Suc (length (ps_executor_tx ps)) \<and>
     (\<forall>b \<in> set (ps_executor_tx ps). (tb_round b, tb_txs b) \<in> softs \<and> tb_is_optimistic b \<and>
        tb_commit_index b = tb_round b div WAVE_LENGTH) \<and>
     (\<forall>r e. om_get (pq_entries (ps_pending ps)) r = Some e \<longrightarrow> (r, pe_txs e) \<in> softs \<and>
        (pe_status e = Dispatched \<longrightarrow> r \<in> tb_round ` set (ps_executor_tx ps)))"

definition committed_rounds :: "PipelineScheduler \<Rightarrow> SharedRound list" where
  "committed_rounds ps = List.map_filter (\<lambda>d. case d of CdCommit ci r \<Rightarrow> Some r | _ \<Rightarrow> None) (ps_commit_tx ps)"

text \<open>A confirmed round was dispatched, is not in the queue as dispatched any more, and no round is
  confirmed twice.\<close>

definition commit_inv :: "PipelineScheduler \<Rightarrow> bool" where
  "commit_inv ps \<longleftrightarrow> distinct (committed_rounds ps) \<and>
     set (committed_rounds ps) \<subseteq> tb_round ` set (ps_executor_tx ps) \<and>
     (\<forall>r \<in> set (committed_rounds ps). \<forall>e. om_get (pq_entries (ps_pending ps)) r = Some e \<longrightarrow> pe_status e = Queued)"

lemma upt_shift: "map f [n ..< n + k] = map (\<lambda>i. f (n + i)) [0 ..< k]"
  by (induction k) simp_all

lemma sent_below_next:
  assumes "ps_inv softs ps" and "b \<in> set (ps_executor_tx ps)"
  shows "unat (tb_round b) < unat (pq_next_dispatch_round (ps_pending ps))"
proof -
  have "unat (tb_round b) \<in> set (map (\<lambda>b. unat (tb_round b)) (ps_executor_tx ps))" using assms(2) by simp
  then show ?thesis using assms(1) unfolding ps_inv_def by auto
qed

lemma sent_round:
  assumes inv: "ps_inv softs ps" and i: "i < length (ps_executor_tx ps)"
  shows "unat (tb_round (ps_executor_tx ps ! i)) = 3 * Suc i"
proof -
  have "map (\<lambda>b. unat (tb_round b)) (ps_executor_tx ps) = map (\<lambda>i. 3 * Suc i) [0 ..< length (ps_executor_tx ps)]"
    using inv unfolding ps_inv_def by (elim conjE)
  from arg_cong [OF this, of "\<lambda>xs. xs ! i"] i show ?thesis by simp
qed

lemma ps_inv_flush:
  assumes inv: "ps_inv softs ps" and com: "commit_inv ps" and run: "flush_pending ps = Inr ps'"
  shows "ps_inv softs ps'" and "commit_inv ps'"
proof -
  obtain pq ds where d: "drain_loop (ps_pending ps) [] = Inr (pq, ds)"
    "ps' = ps\<lparr>ps_pending := pq, ps_executor_tx := ps_executor_tx ps @ map optimistic_batch ds,
       ps_backpressure := bp_check (pq_depth pq) (ps_backpressure ps)\<rparr>"
    using run by (auto simp: flush_pending_def drain_dispatchable_def res_simps)
  from drain_loop_drains [OF d(1)] have dr: "drains (ps_pending ps) ds pq" by simp
  let ?n = "length (ps_executor_tx ps)" and ?next = "pq_next_dispatch_round (ps_pending ps)"
  have nxt: "unat ?next = 3 * Suc ?n" using inv by (simp add: ps_inv_def)
  have rounds: "map (unat \<circ> fst) ds = map (\<lambda>i. unat ?next + 3 * i) [0 ..< length ds]" using dr by (simp add: drains_def)
  have "map (\<lambda>b. unat (tb_round b)) (map optimistic_batch ds) = map (\<lambda>i. 3 * Suc i) [?n ..< ?n + length ds]"
    unfolding upt_shift using rounds by (simp add: nxt comp_def optimistic_batch_def algebra_simps)
  moreover have "[0 ..< ?n + length ds] = [0 ..< ?n] @ [?n ..< ?n + length ds]" by (rule upt_add_eq_append) simp
  moreover have "map (\<lambda>b. unat (tb_round b)) (ps_executor_tx ps) = map (\<lambda>i. 3 * Suc i) [0 ..< ?n]"
    using inv unfolding ps_inv_def by (elim conjE)
  ultimately have sent: "map (\<lambda>b. unat (tb_round b)) (ps_executor_tx ps @ map optimistic_batch ds) =
      map (\<lambda>i. 3 * Suc i) [0 ..< length (ps_executor_tx ps @ map optimistic_batch ds)]"
    by (simp only: map_append length_append length_map)
  have src: "om_get (pq_entries (ps_pending ps)) r = Some \<lparr>pe_txs = txs, pe_status = Queued\<rparr>"
    if "(r, txs) \<in> set ds" for r txs using that dr by (auto simp: drains_def)
  have ents: "om_get (pq_entries pq) r = (if r \<in> fst ` set ds
        then map_option (\<lambda>e. e\<lparr>pe_status := Dispatched\<rparr>) (om_get (pq_entries (ps_pending ps)) r)
        else om_get (pq_entries (ps_pending ps)) r)" for r using dr by (simp add: drains_def)
  have old: "(r, pe_txs e) \<in> softs \<and> (pe_status e = Dispatched \<longrightarrow> r \<in> tb_round ` set (ps_executor_tx ps))"
    if "om_get (pq_entries (ps_pending ps)) r = Some e" for r e using that inv by (simp add: ps_inv_def)
  have batches: "(tb_round b, tb_txs b) \<in> softs \<and> tb_is_optimistic b \<and> tb_commit_index b = tb_round b div WAVE_LENGTH"
    if "b \<in> set (ps_executor_tx ps @ map optimistic_batch ds)" for b
    using that inv old src by (fastforce simp: ps_inv_def optimistic_batch_def)
  have "(r, pe_txs e) \<in> softs \<and> (pe_status e = Dispatched \<longrightarrow> r \<in> tb_round ` set (ps_executor_tx ps @ map optimistic_batch ds))"
    if "om_get (pq_entries pq) r = Some e" for r e
  proof (cases "r \<in> fst ` set ds")
    case True
    then have "r \<in> tb_round ` set (map optimistic_batch ds)" by (force simp: optimistic_batch_def)
    with that True old show ?thesis unfolding ents by auto
  next
    case False
    with that have "om_get (pq_entries (ps_pending ps)) r = Some e" unfolding ents by simp
    from old [OF this] show ?thesis by (simp add: image_Un)
  qed
  moreover have "unat (pq_next_dispatch_round pq) = 3 * Suc (length (ps_executor_tx ps @ map optimistic_batch ds))"
    using dr by (simp add: drains_def nxt)
  ultimately show "ps_inv softs ps'"
    unfolding ps_inv_def d(2) using sent batches by simp
  have fresh: "unat ?next \<le> unat r" if "r \<in> fst ` set ds" for r
  proof -
    have "unat r \<in> set (map (unat \<circ> fst) ds)" using that by auto
    then show ?thesis unfolding rounds by auto
  qed
  have "r \<notin> fst ` set ds" if "r \<in> set (committed_rounds ps)" for r
    using that com sent_below_next [OF inv] fresh [of r] by (force simp: commit_inv_def)
  with com ents show "commit_inv ps'" by (auto simp: commit_inv_def committed_rounds_def d(2))
qed

lemma ps_inv_soft:
  assumes inv: "ps_inv softs ps" and com: "commit_inv ps" and run: "handle_soft_commit r txs ps = Inr ps'"
  shows "ps_inv (insert (r, txs) softs) ps'" and "commit_inv ps'"
proof -
  obtain pq where pq: "pq_insert r txs (ps_pending ps) = Inr pq" using run by (auto simp: handle_soft_commit_def res_simps)
  let ?ps = "ps\<lparr>ps_pending := pq, ps_backpressure := bp_check (pq_depth pq) (ps_backpressure ps)\<rparr>"
  have ins: "\<not> om_contains (pq_entries (ps_pending ps)) r"
    "pq = (ps_pending ps)\<lparr>pq_entries := om_insert r \<lparr>pe_txs = txs, pe_status = Queued\<rparr> (pq_entries (ps_pending ps))\<rparr>"
    using pq by (auto simp: pq_insert_def res_simps)
  have 1: "ps_inv (insert (r, txs) softs) ?ps" using inv unfolding ps_inv_def ins(2) by auto
  have 2: "commit_inv ?ps" using com by (auto simp: commit_inv_def committed_rounds_def ins(2))
  have "ps' = ?ps \<or> flush_pending ?ps = Inr ps'"
    using run pq by (auto simp: handle_soft_commit_def Let_def res_simps split: if_splits)
  then show "ps_inv (insert (r, txs) softs) ps'" "commit_inv ps'"
    using 1 2 ps_inv_flush [OF 1 2] by auto
qed

lemma ps_inv_hard:
  assumes inv: "ps_inv softs ps" and com: "commit_inv ps" and run: "handle_hard_commit sub ps = Inr ps'"
  shows "ps_inv softs ps'" and "commit_inv ps'"
proof -
  let ?r = "sbr_round (osd_leader sub)" and ?es = "pq_entries (ps_pending ps)"
  let ?pq = "(ps_pending ps)\<lparr>pq_entries := om_remove ?r ?es\<rparr>"
  obtain out where ps': "ps' = ps\<lparr>ps_pending := ?pq, ps_commit_tx := ps_commit_tx ps @ [out]\<rparr>"
    and out: "(\<exists>e. om_get ?es ?r = Some e \<and> pe_status e = Dispatched \<and> out = CdCommit (osd_commit_index sub) ?r) \<or>
      (\<exists>b. out = FreshBatch b)"
    using run by (auto simp: handle_hard_commit_def pq_on_hard_commit_def Let_def res_simps split: option.splits if_splits)
  show "ps_inv softs ps'" using inv by (auto simp: ps_inv_def ps' split: if_splits)
  from out show "commit_inv ps'"
  proof (elim disjE exE conjE)
    fix e assume e: "om_get ?es ?r = Some e" "pe_status e = Dispatched" "out = CdCommit (osd_commit_index sub) ?r"
    have "?r \<notin> set (committed_rounds ps)" using com e by (auto simp: commit_inv_def)
    moreover have "?r \<in> tb_round ` set (ps_executor_tx ps)" using inv e by (auto simp: ps_inv_def)
    ultimately show ?thesis
      using com by (auto simp: commit_inv_def committed_rounds_def ps' e(3) List.map_filter_def)
  next
    fix b assume "out = FreshBatch b"
    with com show ?thesis by (auto simp: commit_inv_def committed_rounds_def ps' List.map_filter_def split: if_splits)
  qed
qed

lemma ps_inv_mono:
  assumes "ps_inv softs ps"
  shows "ps_inv (softs \<union> softs') ps"
  using assms unfolding ps_inv_def by (intro conjI; elim conjE; (assumption | blast)?)

lemma ps_run_inv:
  assumes "ps_run inputs ps = Inr ps'" and "ps_inv softs ps" and "commit_inv ps"
  shows "ps_inv (softs \<union> soft_inputs inputs) ps' \<and> commit_inv ps'"
  using assms
proof (induction inputs ps arbitrary: softs rule: ps_run.induct)
  case (2 e inputs ps)
  then obtain ps1 where ps1: "handle_consensus_event e ps = Inr ps1" "ps_run inputs ps1 = Inr ps'"
    by (auto simp: res_simps)
  show ?case
  proof (cases e)
    case (SoftCommit r l txs)
    with ps1(1) have "handle_soft_commit r txs ps = Inr ps1" by simp
    note inv = ps_inv_soft [OF "2.prems"(2,3) this]
    have "softs \<union> soft_inputs (Event e # inputs) = insert (r, txs) softs \<union> soft_inputs inputs"
      by (auto simp: soft_inputs_def SoftCommit)
    with "2.IH" [OF ps1(1,2) inv] show ?thesis by simp
  next
    case (HardCommit sub)
    with ps1(1) have "handle_hard_commit sub ps = Inr ps1" by simp
    note inv = ps_inv_hard [OF "2.prems"(2,3) this]
    have "soft_inputs (Event e # inputs) = soft_inputs inputs" by (auto simp: soft_inputs_def HardCommit)
    with "2.IH" [OF ps1(1,2) inv] show ?thesis by simp
  qed
next
  case (4 s inputs ps)
  have "ps_inv softs (ps\<lparr>ps_backpressure := bp_update s (ps_backpressure ps)\<rparr>)"
    "commit_inv (ps\<lparr>ps_backpressure := bp_update s (ps_backpressure ps)\<rparr>)"
    using "4.prems"(2,3) by (simp_all add: ps_inv_def commit_inv_def committed_rounds_def)
  with 4 show ?case by (simp add: soft_inputs_def)
next
  case (3 n inputs ps)
  then show ?case by (simp add: soft_inputs_def)
qed (auto intro: ps_inv_mono)

lemma ps_new_inv: "\<exists>ps. ps_new = Inr ps \<and> ps_inv {} ps \<and> commit_inv ps \<and> pq_entries (ps_pending ps) = om_empty"
  by (simp add: ps_new_def bp_new_def pq_new_def DEFAULT_THRESHOLD_def FIRST_LEADER_ROUND_def ps_inv_def commit_inv_def
      committed_rounds_def List.map_filter_def)

text \<open>A run from the start.\<close>

definition sched :: "SchedInput list \<Rightarrow> PipelineScheduler res" where
  "sched inputs = rbind ps_new (ps_run inputs)"

lemma sched_inv:
  assumes "sched inputs = Inr ps"
  shows "ps_inv (soft_inputs inputs) ps" and "commit_inv ps"
proof -
  obtain ps0 where "ps_new = Inr ps0" "ps_inv {} ps0" "commit_inv ps0" using ps_new_inv by blast
  moreover have "ps_run inputs ps0 = Inr ps" using assms unfolding sched_def calculation(1) by simp
  ultimately show "ps_inv (soft_inputs inputs) ps" "commit_inv ps" using ps_run_inv [of inputs ps0 ps "{}"] by simp_all
qed

section \<open>No panic\<close>

definition soft_rounds :: "SchedInput list \<Rightarrow> SharedRound list" where
  "soft_rounds inputs = List.map_filter (\<lambda>i. case i of Event (SoftCommit r l txs) \<Rightarrow> Some r | _ \<Rightarrow> None) inputs"

definition sane_input :: "SchedInput \<Rightarrow> bool" where
  "sane_input i \<longleftrightarrow> (case i of
       Event (SoftCommit r l txs) \<Rightarrow> 0 < r \<and> unat r < 2 ^ 32
     | Event (HardCommit sub) \<Rightarrow> 0 < sbr_round (osd_leader sub) \<and> 0 < osd_commit_index sub
     | _ \<Rightarrow> True)"

definition entries_below :: "PendingQueue \<Rightarrow> bool" where
  "entries_below pq \<longleftrightarrow> (\<forall>r. om_contains (pq_entries pq) r \<longrightarrow> unat r < 2 ^ 32)"

lemma drain_loop_total:
  "entries_below pq \<Longrightarrow> \<exists>pq' res'. drain_loop pq res = Inr (pq', res') \<and>
     (\<forall>r. om_contains (pq_entries pq') r \<longleftrightarrow> om_contains (pq_entries pq) r)"
proof (induction pq res rule: drain_loop.induct)
  case (1 pq res)
  let ?r = "pq_next_dispatch_round pq"
  show ?case
  proof (cases "\<exists>e. om_get (pq_entries pq) ?r = Some e \<and> pe_status e = Queued")
    case False
    then have "drain_loop pq res = Inr (pq, res)"
      by (subst drain_loop.simps) (auto simp: Let_def split: option.splits)
    then show ?thesis by blast
  next
    case True
    then obtain e where e: "om_get (pq_entries pq) ?r = Some e" "pe_status e = Queued" by blast
    then have "unat ?r < 2 ^ 32" using "1.prems" by (auto simp: entries_below_def om_contains_iff)
    then have add: "checked_add ?r WAVE_LENGTH = Inr (?r + WAVE_LENGTH)" by (simp add: checked_add_def WAVE_LENGTH_def)
    let ?pq = "(dispatch_entry ?r e pq)\<lparr>pq_next_dispatch_round := ?r + WAVE_LENGTH\<rparr>"
    have same: "om_contains (pq_entries ?pq) r \<longleftrightarrow> om_contains (pq_entries pq) r" for r
      using e(1) by (auto simp: dispatch_entry_def om_contains_iff)
    then have "entries_below ?pq" using "1.prems" by (simp add: entries_below_def)
    with "1.IH" [OF refl e add] same e add show ?thesis
      by (subst drain_loop.simps) (simp add: Let_def)
  qed
qed

lemma flush_total:
  assumes "entries_below (ps_pending ps)"
  shows "\<exists>ps'. flush_pending ps = Inr ps' \<and>
    (\<forall>r. om_contains (pq_entries (ps_pending ps')) r \<longleftrightarrow> om_contains (pq_entries (ps_pending ps)) r)"
  using drain_loop_total [OF assms, of "[]"] by (auto simp: flush_pending_def drain_dispatchable_def)

lemma soft_rounds_Cons [simp]:
  "soft_rounds (Event (SoftCommit r l txs) # inputs) = r # soft_rounds inputs"
  "soft_rounds (Event (HardCommit s) # inputs) = soft_rounds inputs"
  "soft_rounds (Lagged n # inputs) = soft_rounds inputs"
  "soft_rounds (Signal g # inputs) = soft_rounds inputs"
  by (simp_all add: soft_rounds_def List.map_filter_def)

text \<open>The two handlers on inputs with sane numbers, and what they do to the rounds of the queue.\<close>

lemma handle_soft_commit_fresh:
  assumes "0 < r" "unat r < 2 ^ 32" "\<not> om_contains (pq_entries (ps_pending ps)) r" "entries_below (ps_pending ps)"
  shows "\<exists>ps'. handle_soft_commit r txs ps = Inr ps' \<and> entries_below (ps_pending ps') \<and>
    (\<forall>q. om_contains (pq_entries (ps_pending ps')) q \<longleftrightarrow> q = r \<or> om_contains (pq_entries (ps_pending ps)) q)"
proof -
  let ?pq = "(ps_pending ps)\<lparr>pq_entries := om_insert r \<lparr>pe_txs = txs, pe_status = Queued\<rparr> (pq_entries (ps_pending ps))\<rparr>"
  let ?ps = "ps\<lparr>ps_pending := ?pq, ps_backpressure := bp_check (pq_depth ?pq) (ps_backpressure ps)\<rparr>"
  have below: "entries_below ?pq" using assms by (auto simp: entries_below_def)
  have "\<exists>ps'. handle_soft_commit r txs ps = Inr ps' \<and> (\<forall>q. om_contains (pq_entries (ps_pending ps')) q \<longleftrightarrow> om_contains (pq_entries ?pq) q)"
    using assms flush_total [of ?ps] below by (auto simp: handle_soft_commit_def pq_insert_def Let_def)
  then show ?thesis using below by (auto simp: entries_below_def)
qed

lemma handle_soft_commit_again:
  "om_contains (pq_entries (ps_pending ps)) r \<Longrightarrow> handle_soft_commit r txs ps = Inl DebugAssert"
  by (simp add: handle_soft_commit_def pq_insert_def guard_def)

lemma handle_hard_commit_removes:
  assumes "0 < sbr_round (osd_leader sub)" and "0 < osd_commit_index sub"
  shows "\<exists>ps'. handle_hard_commit sub ps = Inr ps' \<and>
    pq_entries (ps_pending ps') = om_remove (sbr_round (osd_leader sub)) (pq_entries (ps_pending ps))"
  using assms by (auto simp: handle_hard_commit_def pq_on_hard_commit_def Let_def split: option.splits)

text \<open>
  A soft commit arrives again: the round has had one that no hard commit of the round followed. The
  rounds in question are the first argument; nothing is received after a channel is closed.
\<close>

fun soft_commit_again :: "SharedRound set \<Rightarrow> SchedInput list \<Rightarrow> bool" where
  "soft_commit_again R [] = False"
| "soft_commit_again R (Event (SoftCommit r l txs) # inputs) = (r \<in> R \<or> soft_commit_again (insert r R) inputs)"
| "soft_commit_again R (Event (HardCommit sub) # inputs) = soft_commit_again (R - {sbr_round (osd_leader sub)}) inputs"
| "soft_commit_again R (Lagged n # inputs) = soft_commit_again R inputs"
| "soft_commit_again R (Signal s # inputs) = soft_commit_again R inputs"
| "soft_commit_again R (EventsClosed # inputs) = False"
| "soft_commit_again R (SignalsClosed # inputs) = False"

lemma ps_run_outcome:
  assumes "\<forall>i \<in> set inputs. sane_input i" and "entries_below (ps_pending ps)"
    and "R = {r. om_contains (pq_entries (ps_pending ps)) r}"
  shows "if soft_commit_again R inputs then ps_run inputs ps = Inl DebugAssert else \<exists>ps'. ps_run inputs ps = Inr ps'"
  using assms
proof (induction inputs ps arbitrary: R rule: ps_run.induct)
  case (2 e inputs ps)
  show ?case
  proof (cases e)
    case (SoftCommit r l txs)
    show ?thesis
    proof (cases "r \<in> R")
      case True
      then show ?thesis using "2.prems"(3) by (simp add: SoftCommit handle_soft_commit_again)
    next
      case False
      with "2.prems" handle_soft_commit_fresh [of r ps txs] obtain ps1 where ps1: "handle_soft_commit r txs ps = Inr ps1"
        "entries_below (ps_pending ps1)" "insert r R = {q. om_contains (pq_entries (ps_pending ps1)) q}"
        by (auto simp: SoftCommit sane_input_def)
      with "2.IH" [of ps1 "insert r R"] "2.prems"(1) False show ?thesis by (simp add: SoftCommit)
    qed
  next
    case (HardCommit sub)
    with "2.prems"(1) handle_hard_commit_removes [of sub ps] obtain ps1 where ps1: "handle_hard_commit sub ps = Inr ps1"
      "pq_entries (ps_pending ps1) = om_remove (sbr_round (osd_leader sub)) (pq_entries (ps_pending ps))"
      by (auto simp: sane_input_def)
    have "entries_below (ps_pending ps1)" "R - {sbr_round (osd_leader sub)} = {q. om_contains (pq_entries (ps_pending ps1)) q}"
      using "2.prems"(2,3) by (auto simp: entries_below_def ps1(2))
    with "2.IH" [of ps1] "2.prems"(1) ps1(1) show ?thesis by (simp add: HardCommit)
  qed
qed simp_all

lemma sched_outcome:
  assumes "\<forall>i \<in> set inputs. sane_input i"
  shows "if soft_commit_again {} inputs then sched inputs = Inl DebugAssert else \<exists>ps. sched inputs = Inr ps"
proof -
  obtain ps0 where ps0: "ps_new = Inr ps0" "pq_entries (ps_pending ps0) = om_empty" using ps_new_inv by blast
  then show ?thesis using ps_run_outcome [OF assms, of ps0 "{}"] unfolding sched_def ps0(1) by (simp add: entries_below_def)
qed

lemma distinct_soft_rounds_once:
  "distinct (soft_rounds inputs) \<Longrightarrow> R \<inter> set (soft_rounds inputs) = {} \<Longrightarrow> \<not> soft_commit_again R inputs"
  by (induction R inputs rule: soft_commit_again.induct) (auto simp: Int_Diff)

lemma sched_total:
  assumes "distinct (soft_rounds inputs)" and "\<forall>i \<in> set inputs. sane_input i"
  shows "\<exists>ps. sched inputs = Inr ps"
  using sched_outcome [OF assms(2)] distinct_soft_rounds_once [OF assms(1), of "{}"] by simp

lemma sent_batch:
  assumes run: "sched inputs = Inr ps" and i: "i < length (ps_executor_tx ps)"
  shows "unat (tb_round (ps_executor_tx ps ! i)) = 3 * (i + 1) \<and>
    unat (tb_commit_index (ps_executor_tx ps ! i)) = i + 1 \<and> tb_is_optimistic (ps_executor_tx ps ! i) \<and>
    (\<exists>l. Event (SoftCommit (tb_round (ps_executor_tx ps ! i)) l (tb_txs (ps_executor_tx ps ! i))) \<in> set inputs)"
proof (intro conjI)
  let ?b = "ps_executor_tx ps ! i"
  note inv = sched_inv(1) [OF run]
  have b: "(tb_round ?b, tb_txs ?b) \<in> soft_inputs inputs" "tb_is_optimistic ?b" "tb_commit_index ?b = tb_round ?b div WAVE_LENGTH"
    using inv nth_mem [OF i] by (auto simp: ps_inv_def)
  show r: "unat (tb_round ?b) = 3 * (i + 1)" using sent_round [OF inv i] by simp
  show "unat (tb_commit_index ?b) = i + 1" using r by (simp add: b(3) WAVE_LENGTH_def unat_div)
  show "tb_is_optimistic ?b" by (rule b(2))
  show "\<exists>l. Event (SoftCommit (tb_round ?b) l (tb_txs ?b)) \<in> set inputs" using b(1) by (simp add: soft_inputs_def)
qed

section \<open>What the pipeline guarantees\<close>

text \<open>
  \<^bold>\<open>C5\<close> In whatever order soft commits, hard commits and signals arrive, the executor receives
  the optimistic batches in the order of the leader rounds 3, 6, 9 and so on, none left out: the
  \<open>i\<close>-th batch has round \<open>3 (i + 1)\<close> and wave index \<open>i + 1\<close>, and it carries the
  transactions of a soft commit of that round that the scheduler received.
\<close>

theorem batches_dispatched_in_order:
  assumes run: "sched inputs = Inr ps" and i: "i < length (ps_executor_tx ps)"
  shows "unat (tb_round (ps_executor_tx ps ! i)) = 3 * (i + 1) \<and>
    unat (tb_commit_index (ps_executor_tx ps ! i)) = i + 1 \<and> tb_is_optimistic (ps_executor_tx ps ! i) \<and>
    (\<exists>l. Event (SoftCommit (tb_round (ps_executor_tx ps ! i)) l (tb_txs (ps_executor_tx ps ! i))) \<in> set inputs)"
  using assms by (rule sent_batch)

text \<open>
  The commit layer is told to finalise a speculative result only for a round whose batch
  was sent to the executor before, and at most once for each round.
\<close>

theorem commits_only_dispatched_rounds:
  assumes run: "sched inputs = Inr ps"
  shows "distinct (committed_rounds ps) \<and> set (committed_rounds ps) \<subseteq> tb_round ` set (ps_executor_tx ps)"
  using sched_inv(2) [OF run] by (simp_all add: commit_inv_def)

text \<open>
  A leader round without a soft commit blocks the dispatch for ever: no batch of that
  round or a later one is sent, whatever follows, hard commits included.
\<close>

theorem missing_leader_round_blocks:
  assumes run: "sched inputs = Inr ps" and lead: "0 < k" "unat r = 3 * k"
    and missing: "\<forall>l txs. Event (SoftCommit r l txs) \<notin> set inputs"
  shows "length (ps_executor_tx ps) < k \<and> (\<forall>b \<in> set (ps_executor_tx ps). tb_round b < r)"
proof (intro conjI)
  show short: "length (ps_executor_tx ps) < k"
  proof (rule ccontr)
    assume "\<not> ?thesis"
    then have i: "k - 1 < length (ps_executor_tx ps)" using lead(1) by simp
    have "tb_round (ps_executor_tx ps ! (k - 1)) = r"
      using sent_round [OF sched_inv(1) [OF run] i] lead by (subst word_unat_eq_iff) simp
    moreover have "(tb_round (ps_executor_tx ps ! (k - 1)), tb_txs (ps_executor_tx ps ! (k - 1))) \<in> soft_inputs inputs"
      using sched_inv(1) [OF run] nth_mem [OF i] by (auto simp: ps_inv_def)
    ultimately show False using missing by (auto simp: soft_inputs_def)
  qed
  show "\<forall>b \<in> set (ps_executor_tx ps). tb_round b < r"
    using sent_round [OF sched_inv(1) [OF run]] short lead(2) by (fastforce simp: in_set_conv_nth word_less_nat_alt)
qed

text \<open>
  \<^bold>\<open>C34\<close> When the pipeline panics, exactly. Rounds and commit indices being positive and rounds
  below \<open>2\<^sup>32\<close>, as consensus numbers them, the scheduler fails if and only if it receives a second soft
  commit of a round before a hard commit of that round, and then with the debug assertion on duplicate
  soft commits; every other sequence of events, lags and signals is processed to its end.
\<close>

theorem scheduler_panics_iff:
  assumes "\<forall>i \<in> set inputs. sane_input i"
  shows "((\<exists>e. sched inputs = Inl e) \<longleftrightarrow> soft_commit_again {} inputs) \<and> (\<forall>e. sched inputs = Inl e \<longrightarrow> e = DebugAssert)"
  using sched_outcome [OF assms] by (cases "soft_commit_again {} inputs") auto

section \<open>Reordering\<close>

lemma drain_loop_maximal:
  "drain_loop pq res = Inr (pq', res') \<Longrightarrow> om_get (pq_entries pq') (pq_next_dispatch_round pq') = Some e \<Longrightarrow> pe_status e = Dispatched"
proof (induction pq res rule: drain_loop.induct)
  case (1 pq res)
  let ?r = "pq_next_dispatch_round pq"
  show ?case
  proof (cases "\<exists>e. om_get (pq_entries pq) ?r = Some e \<and> pe_status e = Queued")
    case False
    then have "pq' = pq"
      using "1.prems"(1) by (subst (asm) drain_loop.simps) (auto simp: Let_def split: option.splits if_splits)
    with False "1.prems"(2) show ?thesis by (cases "pe_status e") auto
  next
    case True
    then obtain e0 where e: "om_get (pq_entries pq) ?r = Some e0" "pe_status e0 = Queued" by blast
    then obtain nxt where nxt: "checked_add ?r WAVE_LENGTH = Inr nxt"
      "drain_loop ((dispatch_entry ?r e0 pq)\<lparr>pq_next_dispatch_round := nxt\<rparr>) (res @ [(?r, pe_txs e0)]) = Inr (pq', res')"
      using "1.prems"(1) by (subst (asm) drain_loop.simps) (auto simp: Let_def res_simps)
    from "1.IH" [OF refl e nxt "1.prems"(2)] show ?thesis .
  qed
qed

text \<open>A pipeline that is not paused and has nothing left to dispatch.\<close>

definition settled :: "SharedRound set \<Rightarrow> PipelineScheduler \<Rightarrow> bool" where
  "settled K ps \<longleftrightarrow> \<not> bp_paused (ps_backpressure ps) \<and> bp_threshold (ps_backpressure ps) = DEFAULT_THRESHOLD \<and>
     bp_signals (ps_backpressure ps) = [] \<and> {r. om_contains (pq_entries (ps_pending ps)) r} = K \<and>
     (\<forall>r \<in> K. unat r < 2 ^ 32) \<and>
     (\<forall>e. om_get (pq_entries (ps_pending ps)) (pq_next_dispatch_round (ps_pending ps)) = Some e \<longrightarrow> pe_status e = Dispatched)"

lemma settled_entries_below: "settled K ps \<Longrightarrow> entries_below (ps_pending ps)"
  by (auto simp: settled_def entries_below_def)

lemma pq_depth_card: "pq_depth pq = card {r. om_contains (pq_entries pq) r}"
  by (simp add: pq_depth_def om_len_card)

lemma settled_soft:
  assumes st: "settled K ps" and r: "0 < r" "unat r < 2 ^ 32" "r \<notin> K" and few: "card (insert r K) \<le> DEFAULT_THRESHOLD"
  shows "\<exists>ps'. handle_soft_commit r txs ps = Inr ps' \<and> settled (insert r K) ps'"
proof -
  let ?pq = "(ps_pending ps)\<lparr>pq_entries := om_insert r \<lparr>pe_txs = txs, pe_status = Queued\<rparr> (pq_entries (ps_pending ps))\<rparr>"
  let ?ps = "ps\<lparr>ps_pending := ?pq, ps_backpressure := bp_check (pq_depth ?pq) (ps_backpressure ps)\<rparr>"
  have fresh: "\<not> om_contains (pq_entries (ps_pending ps)) r" using st r(3) by (auto simp: settled_def)
  have keys: "{q. om_contains (pq_entries ?pq) q} = insert r K" using st by (auto simp: settled_def)
  have calm: "bp_check d (ps_backpressure ps) = ps_backpressure ps" if "d \<le> DEFAULT_THRESHOLD" for d
    using that st by (simp add: bp_check_def settled_def)
  have bp: "bp_check (pq_depth ?pq) (ps_backpressure ps) = ps_backpressure ps"
    using few unfolding pq_depth_card keys by (rule calm)
  have below: "entries_below (ps_pending ?ps)"
    using keys r(2) st by (auto simp: entries_below_def settled_def)
  from flush_total [OF below] obtain ps' where ps': "flush_pending ?ps = Inr ps'"
    "\<And>q. om_contains (pq_entries (ps_pending ps')) q \<longleftrightarrow> om_contains (pq_entries ?pq) q" by auto
  have run: "handle_soft_commit r txs ps = Inr ps'"
    using ps'(1) r(1) fresh st bp by (simp add: handle_soft_commit_def pq_insert_def is_paused_def settled_def)
  obtain pq ds where pq: "drain_loop ?pq [] = Inr (pq, ds)" "ps_pending ps' = pq"
      "ps_backpressure ps' = bp_check (pq_depth pq) (ps_backpressure ps)"
    using ps'(1) bp by (auto simp: flush_pending_def drain_dispatchable_def res_simps)
  have keys': "{q. om_contains (pq_entries pq) q} = insert r K" using ps'(2) keys by (simp add: pq(2))
  have "bp_check (pq_depth pq) (ps_backpressure ps) = ps_backpressure ps"
    using few unfolding pq_depth_card keys' by (rule calm)
  then have "settled (insert r K) ps'"
    using st keys' r(2) drain_loop_maximal [OF pq(1)] by (simp add: settled_def pq(2,3))
  with run show ?thesis by blast
qed

lemma settled_run:
  assumes "settled K ps" and "distinct (map fst softs)" and "\<forall>r \<in> fst ` set softs. 0 < r \<and> unat r < 2 ^ 32 \<and> r \<notin> K"
    and "finite K" and "card K + length softs \<le> DEFAULT_THRESHOLD"
  shows "\<exists>ps'. ps_run (map (\<lambda>(r, l, txs). Event (SoftCommit r l txs)) softs) ps = Inr ps' \<and> settled (K \<union> fst ` set softs) ps'"
  using assms
proof (induction softs arbitrary: K ps)
  case (Cons x softs)
  obtain r l txs where x: "x = (r, l, txs)" by (cases x)
  have r: "0 < r" "unat r < 2 ^ 32" "r \<notin> K" using Cons.prems(3) by (auto simp: x)
  have few: "card (insert r K) + length softs \<le> DEFAULT_THRESHOLD" using Cons.prems(4,5) r(3) by simp
  then obtain ps1 where ps1: "handle_soft_commit r txs ps = Inr ps1" "settled (insert r K) ps1"
    using settled_soft [OF Cons.prems(1) r, of txs] by auto
  have rest: "\<forall>q \<in> fst ` set softs. 0 < q \<and> unat q < 2 ^ 32 \<and> q \<notin> insert r K" using Cons.prems(2,3) by (auto simp: x)
  have "distinct (map fst softs)" "finite (insert r K)" using Cons.prems(2,4) by simp_all
  from Cons.IH [OF ps1(2) this(1) rest this(2) few] ps1(1) show ?case by (simp add: x)
qed simp

lemma ps_new_settled: "\<exists>ps. ps_new = Inr ps \<and> settled {} ps"
  by (simp add: ps_new_def bp_new_def pq_new_def DEFAULT_THRESHOLD_def FIRST_LEADER_ROUND_def settled_def)

lemma all_dispatched:
  assumes inv: "ps_inv softs ps" and st: "settled K ps" and K: "fst ` softs \<subseteq> K" and waves: "unat ` K = (\<lambda>k. 3 * Suc k) ` {0 ..< n}"
  shows "length (ps_executor_tx ps) = n"
proof (rule linorder_cases [of "length (ps_executor_tx ps)" n])
  let ?next = "pq_next_dispatch_round (ps_pending ps)"
  assume "length (ps_executor_tx ps) < n"
  moreover have nxt: "unat ?next = 3 * Suc (length (ps_executor_tx ps))" using inv by (simp add: ps_inv_def)
  ultimately have "unat ?next \<in> unat ` K" unfolding waves by simp
  then obtain q where "q \<in> K" "unat ?next = unat q" by blast
  then have "?next \<in> K" by (simp add: word_unat_eq_iff [symmetric])
  then obtain e where e: "om_get (pq_entries (ps_pending ps)) ?next = Some e" using st by (auto simp: settled_def om_contains_iff)
  then have "pe_status e = Dispatched" using st by (simp add: settled_def)
  with e have "?next \<in> tb_round ` set (ps_executor_tx ps)" using inv by (simp add: ps_inv_def)
  then show ?thesis using sent_below_next [OF inv] by force
next
  assume n: "n < length (ps_executor_tx ps)"
  have "(tb_round (ps_executor_tx ps ! n), tb_txs (ps_executor_tx ps ! n)) \<in> softs" using inv nth_mem [OF n] by (simp add: ps_inv_def)
  then have "unat (tb_round (ps_executor_tx ps ! n)) \<in> unat ` K" using K by force
  then show ?thesis unfolding waves sent_round [OF inv n] by auto
qed

text \<open>
  \<^bold>\<open>C16\<close> Soft commits of the first \<open>n\<close> waves, in whatever order they arrive, are all
  dispatched, without a panic and without a backpressure signal, as long as the queue stays within
  its threshold of sixteen entries.
\<close>

theorem reordered_soft_commits_all_dispatched:
  assumes perm: "mset (map (\<lambda>(r, l, txs). unat r) softs) = mset (map (\<lambda>k. 3 * Suc k) [0 ..< n])" and few: "n \<le> 16"
  shows "\<exists>ps. sched (map (\<lambda>(r, l, txs). Event (SoftCommit r l txs)) softs) = Inr ps \<and>
    map (\<lambda>b. unat (tb_round b)) (ps_executor_tx ps) = map (\<lambda>k. 3 * Suc k) [0 ..< n] \<and>
    bp_signals (ps_backpressure ps) = []"
proof -
  let ?in = "map (\<lambda>(r, l, txs). Event (SoftCommit r l txs)) softs"
  have rounds: "map (\<lambda>(r, l, txs). unat r) softs = map unat (map fst softs)" by (auto simp: case_prod_beta)
  have set_r: "unat ` fst ` set softs = (\<lambda>k. 3 * Suc k) ` {0 ..< n}"
    using mset_eq_setD [OF perm] by (simp only: rounds set_map set_upt image_image)
  have "distinct (map (\<lambda>k. 3 * Suc k) [0 ..< n])" by (simp add: distinct_map inj_on_def)
  with mset_eq_imp_distinct_iff [OF perm] have "distinct (map unat (map fst softs))" unfolding rounds by simp
  then have dist: "distinct (map fst softs)" by (auto simp: distinct_map inj_on_def)
  have len: "length softs = n" using mset_eq_length [OF perm] by simp
  have sane: "\<forall>r \<in> fst ` set softs. 0 < r \<and> unat r < 2 ^ 32 \<and> r \<notin> {}"
  proof
    fix r assume "r \<in> fst ` set softs"
    then have "unat r \<in> (\<lambda>k. 3 * Suc k) ` {0 ..< n}" by (simp only: set_r [symmetric] imageI)
    then show "0 < r \<and> unat r < 2 ^ 32 \<and> r \<notin> {}" using few by (auto simp: word_greater_zero_iff)
  qed
  obtain ps0 where ps0: "ps_new = Inr ps0" "settled {} ps0" using ps_new_settled by blast
  from settled_run [OF ps0(2) dist sane] obtain ps where
    ps: "ps_run ?in ps0 = Inr ps" "settled (fst ` set softs) ps" using len few by (auto simp: DEFAULT_THRESHOLD_def)
  have run: "sched ?in = Inr ps" unfolding sched_def ps0(1) using ps(1) by simp
  have "length (ps_executor_tx ps) = n" by (rule all_dispatched [OF sched_inv(1) [OF run] ps(2) _ set_r]) (force simp: soft_inputs_def)
  then have "map (\<lambda>b. unat (tb_round b)) (ps_executor_tx ps) = map (\<lambda>k. 3 * Suc k) [0 ..< n]"
    by (intro nth_equalityI) (simp_all add: sent_round [OF sched_inv(1) [OF run]])
  with run ps(2) show ?thesis by (auto simp: settled_def)
qed

section \<open>Backpressure\<close>

text \<open>
  A history of the controller: depths it is shown and signals it receives from the executor. The signals
  of a history are the emitted ones (marked \<open>True\<close>) and the received ones, in their order.
\<close>

datatype bp_op = Check nat | Update BackpressureSignal

fun bp_step :: "bp_op \<Rightarrow> BackpressureController \<Rightarrow> BackpressureController" where
  "bp_step (Check depth) bp = bp_check depth bp"
| "bp_step (Update signal) bp = bp_update signal bp"

fun bp_emitted :: "bp_op \<Rightarrow> BackpressureController \<Rightarrow> (bool \<times> BackpressureSignal) list" where
  "bp_emitted (Check depth) bp = map (Pair True) (drop (length (bp_signals bp)) (bp_signals (bp_check depth bp)))"
| "bp_emitted (Update signal) bp = [(False, signal)]"

fun bp_trace :: "bp_op list \<Rightarrow> BackpressureController \<Rightarrow> (bool \<times> BackpressureSignal) list" where
  "bp_trace [] bp = []"
| "bp_trace (x # ops) bp = bp_emitted x bp @ bp_trace ops (bp_step x bp)"

text \<open>Every emitted signal differs from the signal before it.\<close>

fun reverses :: "BackpressureSignal \<Rightarrow> (bool \<times> BackpressureSignal) list \<Rightarrow> bool" where
  "reverses s [] = True"
| "reverses s ((emitted, t) # trace) = ((emitted \<longrightarrow> t \<noteq> s) \<and> reverses t trace)"

definition bp_state :: "BackpressureController \<Rightarrow> BackpressureSignal" where
  "bp_state bp = (if bp_paused bp then SlowDown else Resume)"

lemma bp_threshold_step [simp]: "bp_threshold (bp_step x bp) = bp_threshold bp"
proof (cases x)
  case (Update s)
  then show ?thesis by (cases s) simp_all
qed (simp add: bp_check_def)

lemma bp_threshold_run: "bp_threshold (fold bp_step ops bp) = bp_threshold bp"
  by (induction ops arbitrary: bp) simp_all

lemma bp_step_trace:
  "reverses (bp_state bp) (bp_emitted x bp @ trace) \<longleftrightarrow> reverses (bp_state (bp_step x bp)) trace"
  "last (bp_state bp # map snd (bp_emitted x bp)) = bp_state (bp_step x bp)"
  "bp_signals (bp_step x bp) = bp_signals bp @ map snd (filter fst (bp_emitted x bp))"
proof (atomize (full), cases x)
  case (Update s)
  then show "(reverses (bp_state bp) (bp_emitted x bp @ trace) \<longleftrightarrow> reverses (bp_state (bp_step x bp)) trace) \<and>
    last (bp_state bp # map snd (bp_emitted x bp)) = bp_state (bp_step x bp) \<and>
    bp_signals (bp_step x bp) = bp_signals bp @ map snd (filter fst (bp_emitted x bp))"
    by (cases s) (simp_all add: bp_state_def)
qed (simp add: bp_check_def bp_state_def)

lemma bp_trace_run:
  shows "reverses (bp_state bp) (bp_trace ops bp)"
    and "last (bp_state bp # map snd (bp_trace ops bp)) = bp_state (fold bp_step ops bp)"
    and "bp_signals (fold bp_step ops bp) = bp_signals bp @ map snd (filter fst (bp_trace ops bp))"
proof (induction ops arbitrary: bp)
  case (Cons x ops)
  { case 1 then show ?case using Cons.IH(1) by (simp add: bp_step_trace(1))
  next
    case 2 then show ?case using Cons.IH(2) [of "bp_step x bp"] bp_step_trace(2) [of bp x]
      by (auto simp: last_append split: if_splits)
  next
    case 3 then show ?case using Cons.IH(3) by (simp add: bp_step_trace(3)) }
qed simp_all

text \<open>
  \<^bold>\<open>C33\<close> Hysteresis of the controller, for every history of depths shown to it and signals received
  from the executor, in any order: what it sends are the emitted signals of the history; an emitted
  signal always reverses the signal before it, whether that was emitted or received, and one with no
  signal before it is \<open>SlowDown\<close>; the controller is paused exactly when the last signal, emitted or received,
  was \<open>SlowDown\<close>; showing it the same depth again changes nothing; and depths between half the threshold
  and the threshold never change its state.
\<close>

theorem backpressure_hysteresis:
  assumes new: "bp_new thr = Inr bp0" and run: "bp = fold bp_step ops bp0" and trace: "trace = bp_trace ops bp0"
    and band: "thr div 2 \<le> d" "d \<le> thr"
  shows "bp_signals bp = map snd (filter fst trace) \<and> reverses Resume trace \<and>
    (is_paused bp \<longleftrightarrow> last (Resume # map snd trace) = SlowDown) \<and>
    bp_check k (bp_check k bp) = bp_check k bp \<and> bp_check d bp = bp"
proof (intro conjI)
  have bp0: "bp_state bp0 = Resume" "bp_signals bp0 = []" "bp_threshold bp0 = thr"
    using new by (auto simp: bp_new_def bp_state_def res_simps)
  show "bp_signals bp = map snd (filter fst trace)" using bp_trace_run(3) [of ops bp0] by (simp add: run trace bp0)
  show "reverses Resume trace" using bp_trace_run(1) [of bp0 ops] by (simp add: trace bp0)
  show "is_paused bp \<longleftrightarrow> last (Resume # map snd trace) = SlowDown"
    using bp_trace_run(2) [of bp0 ops] unfolding trace run bp0 by (simp add: is_paused_def bp_state_def)
  show "bp_check k (bp_check k bp) = bp_check k bp" by (auto simp: bp_check_def)
  have "bp_threshold bp = thr" using bp0 by (simp add: run bp_threshold_run)
  with band show "bp_check d bp = bp" by (auto simp: bp_check_def)
qed

section \<open>The unit tests\<close>

definition test_tx :: "u8 \<Rightarrow> EthSignedTx" where "test_tx byte = EthSignedTx [byte]"

definition test_in_order_processing :: "bool res" where
  "test_in_order_processing =
     rbind (pq_new 3 16) (\<lambda>pq. rbind (pq_insert 3 [test_tx 1] pq) (\<lambda>pq. rbind (pq_insert 6 [test_tx 2] pq) (\<lambda>pq.
     rbind (drain_dispatchable pq) (\<lambda>(pq, dispatched).
     Inr (length dispatched = 2 \<and> fst (dispatched ! 0) = 3 \<and> fst (dispatched ! 1) = 6)))))"

definition test_out_of_order_reorder :: "bool res" where
  "test_out_of_order_reorder =
     rbind (pq_new 3 16) (\<lambda>pq. rbind (pq_insert 6 [test_tx 2] pq) (\<lambda>pq. rbind (drain_dispatchable pq) (\<lambda>(pq, d1).
     rbind (pq_insert 3 [test_tx 1] pq) (\<lambda>pq. rbind (drain_dispatchable pq) (\<lambda>(pq, d2).
     Inr (d1 = [] \<and> length d2 = 2 \<and> fst (d2 ! 0) = 3 \<and> fst (d2 ! 1) = 6))))))"

definition test_hard_commit_match :: "bool res" where
  "test_hard_commit_match =
     rbind (pq_new 3 16) (\<lambda>pq. rbind (pq_insert 3 [test_tx 1] pq) (\<lambda>pq. rbind (drain_dispatchable pq) (\<lambda>(pq, _).
     rbind (pq_on_hard_commit 3 1 pq) (\<lambda>(pq, decision). Inr (decision = HCommit 3 1)))))"

definition test_hard_commit_mismatch :: "bool res" where
  "test_hard_commit_mismatch =
     rbind (pq_new 3 16) (\<lambda>pq. rbind (pq_on_hard_commit 3 1 pq) (\<lambda>(pq, decision). Inr (decision = FreshExecution 3 1)))"

definition test_backpressure_triggered :: "bool res" where
  "test_backpressure_triggered =
     rbind (bp_new 2) (\<lambda>bp. let bp1 = bp_check 3 bp; bp2 = bp_check 5 bp1 in
     Inr (bp_signals bp1 = [SlowDown] \<and> is_paused bp1 \<and> bp_signals bp2 = bp_signals bp1))"

definition test_backpressure_release :: "bool res" where
  "test_backpressure_release =
     rbind (bp_new 4) (\<lambda>bp. let bp1 = bp_check 5 bp; bp2 = bp_check 1 bp1 in
     Inr (bp_signals bp2 = bp_signals bp1 @ [Resume] \<and> \<not> is_paused bp2))"

text \<open>
  The unit tests of the scheduler pass: in-order and reordered dispatch, matched and
  unmatched hard commits, backpressure triggered and released.
\<close>

theorem scheduler_tests_pass:
  "test_in_order_processing = Inr True \<and> test_out_of_order_reorder = Inr True \<and> test_hard_commit_match = Inr True \<and>
   test_hard_commit_mismatch = Inr True \<and> test_backpressure_triggered = Inr True \<and> test_backpressure_release = Inr True"
  by code_simp

section \<open>A concrete run\<close>

text \<open>The second wave is soft-committed before the first, then the first is hard-committed; the fourth wave
  arrives without the third.\<close>

definition demo_ref :: "SharedRound \<Rightarrow> SharedBlockRef" where
  "demo_ref r = \<lparr>sbr_round = r, sbr_author = 0, sbr_digest = 0\<rparr>"

definition demo_soft :: "SharedRound \<Rightarrow> SchedInput" where
  "demo_soft r = Event (SoftCommit r (demo_ref r) [test_tx (ucast r)])"

definition demo_hard :: "SharedRound \<Rightarrow> u64 \<Rightarrow> SchedInput" where
  "demo_hard r ci = Event (HardCommit \<lparr>osd_leader = demo_ref r,
     osd_blocks = [\<lparr>ovb_block_ref = demo_ref r, ovb_txs = [test_tx (ucast r)]\<rparr>], osd_timestamp_ms = 0, osd_commit_index = ci\<rparr>)"

definition demo_inputs :: "SchedInput list" where
  "demo_inputs = [demo_soft 6, demo_soft 3, Signal Resume, demo_hard 3 1, demo_soft 12]"

definition demo_state :: PipelineScheduler where
  "demo_state = projr (sched demo_inputs)"

lemma demo_run: "sched demo_inputs = Inr demo_state"
proof -
  have "\<not> isl (sched demo_inputs)" by code_simp
  then show ?thesis by (simp add: demo_state_def)
qed

lemma demo_length: "length (ps_executor_tx demo_state) = 2" by code_simp

lemma demo_missing: "\<forall>l txs. Event (SoftCommit 9 l txs) \<notin> set demo_inputs"
  by (simp add: demo_inputs_def demo_soft_def demo_hard_def)

theorem batches_dispatched_in_order_witness:
  "unat (tb_round (ps_executor_tx demo_state ! 1)) = 6 \<and> unat (tb_commit_index (ps_executor_tx demo_state ! 1)) = 2"
  using batches_dispatched_in_order [OF demo_run, of 1] by (simp add: demo_length)

theorem commits_only_dispatched_rounds_witness:
  "set (committed_rounds demo_state) \<subseteq> tb_round ` set (ps_executor_tx demo_state) \<and> committed_rounds demo_state = [3]"
proof -
  have "committed_rounds demo_state = [3]" by code_simp
  with commits_only_dispatched_rounds [OF demo_run] show ?thesis by simp
qed

theorem missing_leader_round_blocks_witness:
  "length (ps_executor_tx demo_state) < 3"
  using missing_leader_round_blocks [OF demo_run _ _ demo_missing, of 3] by simp

theorem scheduler_panics_iff_witness:
  "(\<exists>ps. sched demo_inputs = Inr ps) \<and> sched (demo_inputs @ [demo_soft 6]) = Inl DebugAssert"
proof -
  note defs = demo_inputs_def demo_soft_def demo_hard_def demo_ref_def
  have "\<forall>i \<in> set demo_inputs. sane_input i" "\<not> soft_commit_again {} demo_inputs" by (simp_all add: defs sane_input_def)
  with scheduler_panics_iff [of demo_inputs] have "\<exists>ps. sched demo_inputs = Inr ps" by (cases "sched demo_inputs") auto
  moreover have "\<forall>i \<in> set (demo_inputs @ [demo_soft 6]). sane_input i"
    "soft_commit_again {} (demo_inputs @ [demo_soft 6])" by (simp_all add: defs sane_input_def)
  then have "sched (demo_inputs @ [demo_soft 6]) = Inl DebugAssert"
    using scheduler_panics_iff [of "demo_inputs @ [demo_soft 6]"] by blast
  ultimately show ?thesis by blast
qed

definition demo_reordered :: "(SharedRound \<times> SharedBlockRef \<times> EthSignedTx list) list" where
  "demo_reordered = [(6, demo_ref 6, []), (9, demo_ref 9, []), (3, demo_ref 3, [])]"

theorem reordered_soft_commits_all_dispatched_witness:
  "\<exists>ps. sched (map (\<lambda>(r, l, txs). Event (SoftCommit r l txs)) demo_reordered) = Inr ps \<and>
    map (\<lambda>b. unat (tb_round b)) (ps_executor_tx ps) = [3, 6, 9]"
proof -
  have waves: "map (\<lambda>k. 3 * Suc k) [0 ..< 3] = [3, 6, 9]" by (simp add: upt_rec)
  have "mset (map (\<lambda>(r, l, txs). unat r) demo_reordered) = mset (map (\<lambda>k. 3 * Suc k) [0 ..< 3])"
    unfolding waves by (simp add: demo_reordered_def)
  moreover have "(3 :: nat) \<le> 16" by simp
  ultimately have "\<exists>ps. sched (map (\<lambda>(r, l, txs). Event (SoftCommit r l txs)) demo_reordered) = Inr ps \<and>
      map (\<lambda>b. unat (tb_round b)) (ps_executor_tx ps) = [3, 6, 9] \<and> bp_signals (ps_backpressure ps) = []"
    unfolding waves [symmetric] by (rule reordered_soft_commits_all_dispatched)
  then show ?thesis by (elim exE conjE) (intro exI conjI)
qed

theorem backpressure_hysteresis_witness:
  "bp_signals (fold bp_step [Check 3, Update Resume, Check 5, Update SlowDown, Check 0]
     \<lparr>bp_threshold = 2, bp_paused = False, bp_signals = []\<rparr>) = [SlowDown, SlowDown, Resume]"
proof -
  have "bp_new 2 = Inr \<lparr>bp_threshold = 2, bp_paused = False, bp_signals = []\<rparr>" by (simp add: bp_new_def)
  from backpressure_hysteresis [OF this refl refl, of 1 "[Check 3, Update Resume, Check 5, Update SlowDown, Check 0]"]
  show ?thesis by (simp add: bp_check_def)
qed

section \<open>Signals of the executor\<close>

text \<open>A request of the executor to slow down lasts only until the next soft commit: while the queue is short
  the controller resumes by itself, and the batch is dispatched.\<close>

theorem slow_down_is_overridden:
  "map_sum id (\<lambda>ps. (map tb_round (ps_executor_tx ps), is_paused (ps_backpressure ps), bp_signals (ps_backpressure ps)))
     (sched [Signal SlowDown, demo_soft 3]) = Inr ([3], False, [Resume])"
  by code_simp

text \<open>With eight entries in the queue the request holds; but when the executor resumes, nothing is
  dispatched until another soft commit arrives.\<close>

definition slow_inputs :: "SchedInput list" where
  "slow_inputs = map demo_soft [3, 6, 9, 12, 15, 18, 21] @ [Signal SlowDown, demo_soft 24, Signal Resume]"

theorem resume_dispatches_nothing:
  "map_sum id (\<lambda>ps. (map tb_round (ps_executor_tx ps), is_paused (ps_backpressure ps))) (sched slow_inputs) =
     Inr ([3, 6, 9, 12, 15, 18, 21], False) \<and>
   map_sum id (\<lambda>ps. map tb_round (ps_executor_tx ps)) (sched (slow_inputs @ [demo_soft 27])) =
     Inr [3, 6, 9, 12, 15, 18, 21, 24, 27]"
  by code_simp

end
