(* ===== verification/Node_Pipeline.thy ===== *)
theory Node_Pipeline
  imports Consensus_Node Scheduler "HOL-Library.Sublist"
begin

text \<open>
  \<^verbatim>\<open>crates/node/src/lib.rs\<close> and the mock executor of \<^verbatim>\<open>crates/parallel-evm/src/lib.rs\<close>: the consensus
  node, the scheduler, the executor and the commit wrapper connected by channels. What the scheduler
  receives is a list of inputs whose events are a subsequence of the events the consensus node sent
  (a receiver that lags loses messages), with signals of the executor anywhere in between; the theorems
  hold for all such lists and so for every interleaving of the tasks. The executor and the commit
  wrapper see a prefix of what the scheduler sent.
\<close>

section \<open>The mock executor\<close>

record ExecutorEvent =
  ee_round :: SharedRound
  ee_commit_index :: u64
  ee_is_optimistic :: bool
  ee_tx_count :: nat

record MockExecutor =
  me_received :: "ExecutorEvent list"
  me_delay_ms :: u64

definition mock_executor_new :: MockExecutor where
  "mock_executor_new = \<lparr>me_received = [], me_delay_ms = 0\<rparr>"

definition mock_executor_new_with_delay :: "u64 \<Rightarrow> MockExecutor" where
  "mock_executor_new_with_delay delay_ms = \<lparr>me_received = [], me_delay_ms = delay_ms\<rparr>"

definition executor_event :: "TxBatch \<Rightarrow> ExecutorEvent" where
  "executor_event batch =
     \<lparr>ee_round = tb_round batch, ee_commit_index = tb_commit_index batch, ee_is_optimistic = tb_is_optimistic batch,
      ee_tx_count = length (tb_txs batch)\<rparr>"

text \<open>The loop over the received batches, with the signals sent on the backpressure channel.\<close>

fun mock_executor_run :: "TxBatch list \<Rightarrow> MockExecutor \<times> BackpressureSignal list \<Rightarrow> MockExecutor \<times> BackpressureSignal list" where
  "mock_executor_run [] s = s"
| "mock_executor_run (batch # batches) (ex, bp_tx) =
     (let ex' = ex\<lparr>me_received := me_received ex @ [executor_event batch]\<rparr>;
          bp_tx' = (if me_delay_ms ex > 0 then bp_tx @ [SlowDown, Resume] else bp_tx)
      in mock_executor_run batches (ex', bp_tx'))"

section \<open>The commit wrapper\<close>

datatype CommitEvent =
    CommitEv u64 SharedRound
  | DiscardEv u64
  | FreshBatchEv SharedRound u64 nat

fun commit_event :: "CommitDecision \<Rightarrow> CommitEvent" where
  "commit_event (CdCommit commit_index rnd) = CommitEv commit_index rnd"
| "commit_event (CdDiscard commit_index) = DiscardEv commit_index"
| "commit_event (FreshBatch batch) = FreshBatchEv (tb_round batch) (tb_commit_index batch) (length (tb_txs batch))"

fun mock_commit_run :: "CommitDecision list \<Rightarrow> CommitEvent list \<Rightarrow> CommitEvent list" where
  "mock_commit_run [] evs = evs"
| "mock_commit_run (d # ds) evs = mock_commit_run ds (evs @ [commit_event d])"

section \<open>The assembled node\<close>

text \<open>The state of the assembled node: the consensus node, the position of the scheduler's receiver in the
  broadcast log, the scheduler with what it sent, the executor with the number of batches it took from
  its channel and the signals that wait on the backpressure channel, and the log of the commit wrapper
  with the number of decisions it took. The handle that tests hold has the consensus node and the two
  logs.\<close>

record NodeTasks =
  nt_consensus :: ConsensusNode
  nt_cursor :: nat
  nt_scheduler :: PipelineScheduler
  nt_executor :: MockExecutor
  nt_batches :: nat
  nt_backpressure :: "BackpressureSignal list"
  nt_commit_events :: "CommitEvent list"
  nt_decisions :: nat

definition build_test_node :: "hash \<Rightarrow> Context \<Rightarrow> NodeTasks res" where
  "build_test_node H context =
     rbind (node_new H context) (\<lambda>consensus.
     rbind ps_new (\<lambda>scheduler.
     Inr \<lparr>nt_consensus = consensus, nt_cursor = 0, nt_scheduler = scheduler, nt_executor = mock_executor_new,
          nt_batches = 0, nt_backpressure = [], nt_commit_events = [], nt_decisions = 0\<rparr>))"

definition build_test_node_with_delay :: "hash \<Rightarrow> Context \<Rightarrow> u64 \<Rightarrow> NodeTasks res" where
  "build_test_node_with_delay H context delay_ms =
     rbind (node_new H context) (\<lambda>consensus.
     rbind ps_new (\<lambda>scheduler.
     Inr \<lparr>nt_consensus = consensus, nt_cursor = 0, nt_scheduler = scheduler,
          nt_executor = mock_executor_new_with_delay delay_ms,
          nt_batches = 0, nt_backpressure = [], nt_commit_events = [], nt_decisions = 0\<rparr>))"

text \<open>One turn of each task; a task whose channel is empty waits.\<close>

definition accept_turn :: "hash \<Rightarrow> VerifiedBlock list \<Rightarrow> NodeTasks \<Rightarrow> NodeTasks res" where
  "accept_turn H blocks t =
     rbind (node_accept_blocks H blocks (nt_consensus t)) (\<lambda>c. Inr (t\<lparr>nt_consensus := c\<rparr>))"

definition scheduler_event_turn :: "NodeTasks \<Rightarrow> NodeTasks res" where
  "scheduler_event_turn t =
     (let events = cn_events (nt_consensus t) in
      if nt_cursor t < length events then
        rbind (handle_consensus_event (events ! nt_cursor t) (nt_scheduler t)) (\<lambda>ps.
        Inr (t\<lparr>nt_scheduler := ps, nt_cursor := nt_cursor t + 1\<rparr>))
      else Inr t)"

definition scheduler_signal_turn :: "NodeTasks \<Rightarrow> NodeTasks" where
  "scheduler_signal_turn t =
     (case nt_backpressure t of
        [] \<Rightarrow> t
      | signal # rest \<Rightarrow>
          let ps = nt_scheduler t
          in t\<lparr>nt_scheduler := ps\<lparr>ps_backpressure := bp_update signal (ps_backpressure ps)\<rparr>, nt_backpressure := rest\<rparr>)"

definition executor_turn :: "NodeTasks \<Rightarrow> NodeTasks" where
  "executor_turn t =
     (let batches = ps_executor_tx (nt_scheduler t) in
      if nt_batches t < length batches then
        let (ex, bp_tx) = mock_executor_run [batches ! nt_batches t] (nt_executor t, nt_backpressure t)
        in t\<lparr>nt_executor := ex, nt_backpressure := bp_tx, nt_batches := nt_batches t + 1\<rparr>
      else t)"

definition commit_turn :: "NodeTasks \<Rightarrow> NodeTasks" where
  "commit_turn t =
     (let decisions = ps_commit_tx (nt_scheduler t) in
      if nt_decisions t < length decisions then
        t\<lparr>nt_commit_events := mock_commit_run [decisions ! nt_decisions t] (nt_commit_events t),
          nt_decisions := nt_decisions t + 1\<rparr>
      else t)"

text \<open>Every interleaving of the tasks. Blocks arrive in causal order; a receiver that lags behind the
  broadcast channel continues at some later event; the two sends of a slow executor are one turn, since
  the scheduler may receive the first long before the second. Capacities only make a sender wait.\<close>

inductive tasks_reach :: "hash \<Rightarrow> Context \<Rightarrow> NodeTasks \<Rightarrow> bool" for H ctx where
  tr_start: "build_test_node_with_delay H ctx delay_ms = Inr t \<Longrightarrow> tasks_reach H ctx t"
| tr_accept: "tasks_reach H ctx t \<Longrightarrow> good_batch (cn_dag_state (nt_consensus t)) bs \<Longrightarrow> accept_turn H bs t = Inr t' \<Longrightarrow>
    tasks_reach H ctx t'"
| tr_event: "tasks_reach H ctx t \<Longrightarrow> scheduler_event_turn t = Inr t' \<Longrightarrow> tasks_reach H ctx t'"
| tr_lagged: "tasks_reach H ctx t \<Longrightarrow> nt_cursor t \<le> k \<Longrightarrow> k \<le> length (cn_events (nt_consensus t)) \<Longrightarrow>
    tasks_reach H ctx (t\<lparr>nt_cursor := k\<rparr>)"
| tr_signal: "tasks_reach H ctx t \<Longrightarrow> tasks_reach H ctx (scheduler_signal_turn t)"
| tr_executor: "tasks_reach H ctx t \<Longrightarrow> tasks_reach H ctx (executor_turn t)"
| tr_commit: "tasks_reach H ctx t \<Longrightarrow> tasks_reach H ctx (commit_turn t)"

lemma build_test_node_no_delay: "build_test_node H ctx = build_test_node_with_delay H ctx 0"
  by (simp add: build_test_node_def build_test_node_with_delay_def mock_executor_new_def mock_executor_new_with_delay_def)

lemma mock_executor_run_received:
  "me_received (fst (mock_executor_run batches (ex, bp))) = me_received ex @ map executor_event batches"
  by (induction batches arbitrary: ex bp) simp_all

lemma mock_commit_run_eq: "mock_commit_run ds evs = evs @ map commit_event ds"
  by (induction ds arbitrary: evs) simp_all

section \<open>The soft commits of a consensus node\<close>

fun soft_of :: "ConsensusEvent \<Rightarrow> (SharedRound \<times> SharedBlockRef) option" where
  "soft_of (SoftCommit r l txs) = Some (r, l)"
| "soft_of (HardCommit s) = None"

definition softs :: "ConsensusEvent list \<Rightarrow> (SharedRound \<times> SharedBlockRef) list" where
  "softs evs = List.map_filter soft_of evs"

lemma softs_simps [simp]:
  "softs [] = []" "softs (evs @ evs') = softs evs @ softs evs'" "softs (SoftCommit r l txs # evs) = (r, l) # softs evs"
  "softs (HardCommit s # evs) = softs evs"
  by (simp_all add: softs_def List.map_filter_def)









section \<open>The hard commits of a consensus node\<close>



section \<open>The pipeline of a node\<close>

text \<open>The events among the inputs of the scheduler.\<close>

definition events_of :: "SchedInput list \<Rightarrow> ConsensusEvent list" where
  "events_of inputs = List.map_filter (\<lambda>i. case i of Event e \<Rightarrow> Some e | _ \<Rightarrow> None) inputs"

lemma events_of_mem: "Event e \<in> set inputs \<longleftrightarrow> e \<in> set (events_of inputs)"
  by (induction inputs) (auto simp: events_of_def List.map_filter_def split: SchedInput.splits)


lemma subseq_softs: "subseq xs ys \<Longrightarrow> subseq (softs xs) (softs ys)"
proof (induction rule: list_emb.induct)
  case (list_emb_Cons xs ys y)
  then show ?case by (cases y) auto
next
  case (list_emb_Cons2 x y xs ys)
  then show ?case by (cases y) auto
qed simp




lemma subseq_map_filter: "subseq xs ys \<Longrightarrow> subseq (List.map_filter f xs) (List.map_filter f ys)"
proof (induction rule: list_emb.induct)
  case (list_emb_Cons xs ys y)
  then show ?case by (auto simp: List.map_filter_simps split: option.splits)
qed (auto simp: List.map_filter_simps split: option.splits)

text \<open>The scheduler's channels only grow, and its decisions are those of the hard commits it received.\<close>

fun decision_key :: "CommitDecision \<Rightarrow> u64 \<times> SharedRound" where
  "decision_key (CdCommit ci r) = (ci, r)"
| "decision_key (CdDiscard ci) = (ci, 0)"
| "decision_key (FreshBatch batch) = (tb_commit_index batch, tb_round batch)"

definition subdag_key :: "OurCommittedSubDag \<Rightarrow> u64 \<times> SharedRound" where
  "subdag_key s = (osd_commit_index s, sbr_round (osd_leader s))"

lemma event_grows:
  assumes "handle_consensus_event e ps = Inr ps'"
  shows "prefix (ps_executor_tx ps) (ps_executor_tx ps')" and "prefix (ps_commit_tx ps) (ps_commit_tx ps')"
    and "map decision_key (ps_commit_tx ps') = map decision_key (ps_commit_tx ps) @ map subdag_key (hard_commits [e])"
proof (atomize (full), cases e)
  case (SoftCommit r l txs)
  with assms show "prefix (ps_executor_tx ps) (ps_executor_tx ps') \<and> prefix (ps_commit_tx ps) (ps_commit_tx ps') \<and>
      map decision_key (ps_commit_tx ps') = map decision_key (ps_commit_tx ps) @ map subdag_key (hard_commits [e])"
    by (auto simp: handle_soft_commit_def flush_pending_def res_simps Let_def hard_commits_def List.map_filter_simps split: if_splits)
next
  case (HardCommit sub)
  with assms show "prefix (ps_executor_tx ps) (ps_executor_tx ps') \<and> prefix (ps_commit_tx ps) (ps_commit_tx ps') \<and>
      map decision_key (ps_commit_tx ps') = map decision_key (ps_commit_tx ps) @ map subdag_key (hard_commits [e])"
    by (auto simp: handle_hard_commit_def pq_on_hard_commit_def res_simps Let_def hard_commits_def List.map_filter_simps
        subdag_key_def split: if_splits option.splits)
qed

definition open_input :: "SchedInput \<Rightarrow> bool" where
  "open_input i \<longleftrightarrow> i \<noteq> EventsClosed \<and> i \<noteq> SignalsClosed"

lemma events_of_simps [simp]:
  "events_of [] = []" "events_of (is @ js) = events_of is @ events_of js" "events_of (Event e # is) = e # events_of is"
  "events_of (Signal sg # is) = events_of is" "events_of (Lagged n # is) = events_of is"
  by (simp_all add: events_of_def List.map_filter_def)

lemma hard_commits_append [simp]: "hard_commits [] = []" "hard_commits (es @ es') = hard_commits es @ hard_commits es'"
  by (simp_all add: hard_commits_def List.map_filter_def)

lemma hard_commits_Cons: "hard_commits (e # es) = hard_commits [e] @ hard_commits es"
  using hard_commits_append(2) [of "[e]" es] by simp

text \<open>What the executor and the commit wrapper need of the task that feeds them: it handles one message
  after the other, never takes back what it sent, and makes one decision for each hard commit, in their
  order. Signals change neither channel.\<close>

locale event_consumer =
  fixes handle :: "ConsensusEvent \<Rightarrow> 's \<Rightarrow> 's res"
    and signal :: "BackpressureSignal \<Rightarrow> 's \<Rightarrow> 's"
    and run :: "SchedInput list \<Rightarrow> 's \<Rightarrow> 's res"
    and sent :: "'s \<Rightarrow> TxBatch list"
    and decided :: "'s \<Rightarrow> CommitDecision list"
  assumes run_Nil: "run [] s = Inr s"
    and run_Event: "run (Event e # inputs) s = rbind (handle e s) (run inputs)"
    and run_Signal: "run (Signal g # inputs) s = run inputs (signal g s)"
    and run_Lagged: "run (Lagged n # inputs) s = run inputs s"
    and sent_grows: "handle e s = Inr s' \<Longrightarrow> prefix (sent s) (sent s')"
    and decided_grows: "handle e s = Inr s' \<Longrightarrow> prefix (decided s) (decided s')"
    and decides: "handle e s = Inr s' \<Longrightarrow> map decision_key (decided s') = map decision_key (decided s) @ map subdag_key (hard_commits [e])"
    and signal_sent: "sent (signal g s) = sent s"
    and signal_decided: "decided (signal g s) = decided s"
begin

lemma run_snoc:
  assumes "\<forall>i \<in> set inputs. open_input i"
  shows "run (inputs @ [i]) s = rbind (run inputs s) (run [i])"
  using assms
proof (induction inputs arbitrary: s)
  case (Cons x inputs)
  then show ?case
    by (cases x) (simp_all add: run_Event run_Signal run_Lagged open_input_def rbind_assoc cong: rbind_cong)
qed (simp add: run_Nil)

lemma run_decided:
  assumes "\<forall>i \<in> set inputs. open_input i" and "run inputs s = Inr s'"
  shows "map decision_key (decided s') = map decision_key (decided s) @ map subdag_key (hard_commits (events_of inputs))"
  using assms
proof (induction inputs arbitrary: s)
  case (Cons x inputs)
  show ?case
  proof (cases x)
    case (Event e)
    then obtain s1 where s1: "handle e s = Inr s1" "run inputs s1 = Inr s'" using Cons.prems(2) by (auto simp: run_Event res_simps)
    have h: "hard_commits (events_of (x # inputs)) = hard_commits [e] @ hard_commits (events_of inputs)"
      unfolding Event events_of_simps by (rule hard_commits_Cons)
    have "map decision_key (decided s') = map decision_key (decided s1) @ map subdag_key (hard_commits (events_of inputs))"
      by (rule Cons.IH [OF _ s1(2)]) (use Cons.prems(1) in simp)
    then show ?thesis unfolding h decides [OF s1(1)] by simp
  qed (use Cons in \<open>simp_all add: run_Signal run_Lagged open_input_def signal_decided\<close>)
qed (simp add: run_Nil)

lemma run_sent_grows:
  assumes "\<forall>i \<in> set inputs. open_input i" and "run inputs s = Inr s'"
  shows "prefix (sent s) (sent s')"
  using assms
proof (induction inputs arbitrary: s)
  case (Cons x inputs)
  show ?case
  proof (cases x)
    case (Event e)
    then obtain s1 where s1: "handle e s = Inr s1" "run inputs s1 = Inr s'" using Cons.prems(2) by (auto simp: run_Event res_simps)
    have "prefix (sent s1) (sent s')" by (rule Cons.IH [OF _ s1(2)]) (use Cons.prems(1) in simp)
    with sent_grows [OF s1(1)] show ?thesis by (rule prefix_order.trans)
  next
    case (Signal g)
    then show ?thesis using Cons.IH [of "signal g s"] Cons.prems by (simp add: run_Signal signal_sent)
  qed (use Cons in \<open>simp_all add: run_Lagged open_input_def\<close>)
qed (simp add: run_Nil)

end

interpretation ps: event_consumer handle_consensus_event "\<lambda>g ps. ps\<lparr>ps_backpressure := bp_update g (ps_backpressure ps)\<rparr>"
  ps_run ps_executor_tx ps_commit_tx
  by unfold_locales (use event_grows in auto)

lemma accept_events_prefix:
  assumes "node_accept_blocks H bs node = Inr node'"
  shows "prefix (cn_events node) (cn_events node') \<and> cn_context node' = cn_context node"
proof -
  let ?P = "\<lambda>n. prefix (cn_events node) (cn_events n) \<and> cn_context n = cn_context node"
  have vote: "?P n'" if "soft_commit_vote rnd l v a n = Inr n'" "?P n" for rnd l v a n n'
    using that by (auto simp: soft_commit_vote_def res_simps Let_def prefix_def split: if_splits)
  have check: "?P n'" if run: "check_soft_commit b n = Inr n'" and n: "?P n" for b n n'
  proof (cases "vb_round b < 2 \<or> \<not> is_leader_round (vb_round b - 1)")
    case True
    with run n show ?thesis by (auto simp: check_soft_commit_def Let_def split: if_splits)
  next
    case False
    then obtain l where "rfold (soft_commit_vote (vb_round b - 1) l (vb_author b)) (vb_ancestors b) n = Inr n'"
      using run by (auto simp: check_soft_commit_def Let_def res_simps)
    then show ?thesis by (rule rfold_invariant [of _ _ _ _ ?P]) (use n vote in blast)+
  qed
  have hard: "?P n'" if "hard_commit_one H x n = Inr n'" "?P n" for x n n'
    using that by (cases x) (auto simp: res_simps prefix_def)
  from assms obtain bm d acc n1 ds where
    steps: "rfold check_soft_commit acc (node\<lparr>cn_block_manager := bm, cn_dag_state := d\<rparr>) = Inr n1"
      "rfold (hard_commit_one H) ds n1 = Inr node'"
    by (auto simp: node_accept_blocks_def ingest_def try_hard_commit_def res_simps)
  have "?P n1" by (rule rfold_invariant [OF steps(1), of ?P]) (use check in auto)
  then show ?thesis by (rule rfold_invariant [OF steps(2), of ?P]) (use hard in blast)
qed

text \<open>The invariant of the interleaved tasks: the scheduler is in the state that some list of inputs leads
  to, whose events are a subsequence of what its receiver has passed, and the logs of the executor and of
  the commit wrapper are what they took from their channels.\<close>

definition sched_received :: "ConsensusEvent list \<Rightarrow> SchedInput list \<Rightarrow> PipelineScheduler \<Rightarrow> bool" where
  "sched_received evs inputs ps \<longleftrightarrow> sched inputs = Inr ps \<and> (\<forall>i \<in> set inputs. open_input i) \<and>
     subseq (events_of inputs) evs"

definition tasks_inv :: "NodeTasks \<Rightarrow> bool" where
  "tasks_inv t \<longleftrightarrow> nt_cursor t \<le> length (cn_events (nt_consensus t)) \<and>
     (\<exists>inputs. sched_received (take (nt_cursor t) (cn_events (nt_consensus t))) inputs (nt_scheduler t)) \<and>
     nt_batches t \<le> length (ps_executor_tx (nt_scheduler t)) \<and>
     me_received (nt_executor t) = map executor_event (take (nt_batches t) (ps_executor_tx (nt_scheduler t))) \<and>
     nt_decisions t \<le> length (ps_commit_tx (nt_scheduler t)) \<and>
     nt_commit_events t = map commit_event (take (nt_decisions t) (ps_commit_tx (nt_scheduler t)))"

lemma sched_snoc: "\<forall>i \<in> set inputs. open_input i \<Longrightarrow> sched (inputs @ [i]) = rbind (sched inputs) (ps_run [i])"
  by (simp add: sched_def rbind_assoc ps.run_snoc cong: rbind_cong)

lemma sched_received_event:
  assumes "sched_received evs inputs ps" and "handle_consensus_event e ps = Inr ps'"
  shows "sched_received (evs @ [e]) (inputs @ [Event e]) ps'"
  using assms by (auto simp: sched_received_def sched_snoc open_input_def)

lemma sched_received_signal:
  assumes "sched_received evs inputs ps"
  shows "sched_received evs (inputs @ [Signal sg]) (ps\<lparr>ps_backpressure := bp_update sg (ps_backpressure ps)\<rparr>)"
  using assms by (auto simp: sched_received_def sched_snoc open_input_def)

lemma sched_received_decisions:
  assumes "sched_received evs inputs ps"
  shows "map decision_key (ps_commit_tx ps) = map subdag_key (hard_commits (events_of inputs))"
proof -
  obtain ps0 where ps0: "ps_new = Inr ps0" "ps_run inputs ps0 = Inr ps" using assms by (auto simp: sched_received_def sched_def res_simps)
  moreover have "ps_commit_tx ps0 = []" using ps0(1) by (auto simp: ps_new_def res_simps)
  ultimately show ?thesis using ps.run_decided [of inputs ps0 ps] assms by (simp add: sched_received_def)
qed

lemma sched_received_more: "sched_received evs inputs ps \<Longrightarrow> prefix evs evs' \<Longrightarrow> sched_received evs' inputs ps"
  unfolding sched_received_def using subseq_order.trans prefix_imp_subseq by blast

lemma prefix_take: "prefix xs ys \<Longrightarrow> n \<le> length xs \<Longrightarrow> take n ys = take n xs"
  by (auto simp: prefix_def)

lemma tasks_inv_start: "build_test_node_with_delay H ctx delay_ms = Inr t \<Longrightarrow> tasks_inv t \<and> fed H ctx (nt_consensus t)"
proof -
  assume "build_test_node_with_delay H ctx delay_ms = Inr t"
  then obtain c ps where c: "node_new H ctx = Inr c" "ps_new = Inr ps"
    and t: "t = \<lparr>nt_consensus = c, nt_cursor = 0, nt_scheduler = ps, nt_executor = mock_executor_new_with_delay delay_ms,
          nt_batches = 0, nt_backpressure = [], nt_commit_events = [], nt_decisions = 0\<rparr>"
    by (auto simp: build_test_node_with_delay_def res_simps)
  have "sched_received [] [] ps" by (simp add: sched_received_def sched_def c(2))
  then show ?thesis using fed_new [OF c(1)] by (auto simp: t tasks_inv_def mock_executor_new_with_delay_def)
qed

lemma tasks_inv_accept:
  assumes inv: "tasks_inv t" and run: "accept_turn H bs t = Inr t'"
  shows "tasks_inv t'" and "node_accept_blocks H bs (nt_consensus t) = Inr (nt_consensus t')"
proof -
  from run obtain c where c: "node_accept_blocks H bs (nt_consensus t) = Inr c" "t' = t\<lparr>nt_consensus := c\<rparr>"
    by (auto simp: accept_turn_def res_simps)
  then show "node_accept_blocks H bs (nt_consensus t) = Inr (nt_consensus t')" by simp
  note pre = conjunct1 [OF accept_events_prefix [OF c(1)]]
  show "tasks_inv t'"
    using inv prefix_take [OF pre, of "nt_cursor t"] prefix_length_le [OF pre] by (auto simp: tasks_inv_def c(2))
qed

lemma tasks_inv_event:
  assumes inv: "tasks_inv t" and run: "scheduler_event_turn t = Inr t'"
  shows "tasks_inv t'" and "nt_consensus t' = nt_consensus t"
proof (atomize (full), cases "nt_cursor t < length (cn_events (nt_consensus t))")
  case False
  with run inv show "tasks_inv t' \<and> nt_consensus t' = nt_consensus t" by (simp add: scheduler_event_turn_def Let_def)
next
  case True
  let ?evs = "cn_events (nt_consensus t)"
  from True run obtain ps where ps: "handle_consensus_event (?evs ! nt_cursor t) (nt_scheduler t) = Inr ps"
    "t' = t\<lparr>nt_scheduler := ps, nt_cursor := nt_cursor t + 1\<rparr>" by (auto simp: scheduler_event_turn_def Let_def res_simps)
  obtain inputs where "sched_received (take (nt_cursor t) ?evs) inputs (nt_scheduler t)" using inv by (auto simp: tasks_inv_def)
  from sched_received_event [OF this ps(1)] True
  have "sched_received (take (Suc (nt_cursor t)) ?evs) (inputs @ [Event (?evs ! nt_cursor t)]) ps" by (simp add: take_Suc_conv_app_nth)
  moreover note g = ps.sent_grows [OF ps(1)] ps.decided_grows [OF ps(1)]
  ultimately show "tasks_inv t' \<and> nt_consensus t' = nt_consensus t"
    using inv True prefix_take [OF g(1), of "nt_batches t"] prefix_take [OF g(2), of "nt_decisions t"] g [THEN prefix_length_le]
    by (auto simp: tasks_inv_def ps(2) Let_def)
qed

lemma tasks_inv_lagged:
  assumes "tasks_inv t" and "nt_cursor t \<le> k" and "k \<le> length (cn_events (nt_consensus t))"
  shows "tasks_inv (t\<lparr>nt_cursor := k\<rparr>)"
proof -
  have "prefix (take (nt_cursor t) (cn_events (nt_consensus t))) (take k (cn_events (nt_consensus t)))"
    using assms(2) by (metis min.absorb1 take_is_prefix take_take)
  with assms show ?thesis using sched_received_more by (fastforce simp: tasks_inv_def)
qed

lemma tasks_inv_turns:
  assumes "tasks_inv t"
  shows "tasks_inv (scheduler_signal_turn t)" and "tasks_inv (executor_turn t)" and "tasks_inv (commit_turn t)"
proof -
  show "tasks_inv (scheduler_signal_turn t)"
    using assms sched_received_signal by (fastforce simp: tasks_inv_def scheduler_signal_turn_def Let_def split: list.splits)
  show "tasks_inv (executor_turn t)"
    using assms mock_executor_run_received [of "[ps_executor_tx (nt_scheduler t) ! nt_batches t]" "nt_executor t" "nt_backpressure t"]
    by (auto simp: tasks_inv_def executor_turn_def Let_def take_Suc_conv_app_nth split: prod.splits if_splits)
  show "tasks_inv (commit_turn t)"
    using assms by (auto simp: tasks_inv_def commit_turn_def Let_def take_Suc_conv_app_nth)
qed

lemma turn_consensus [simp]:
  "nt_consensus (scheduler_signal_turn t) = nt_consensus t" "nt_consensus (executor_turn t) = nt_consensus t"
  "nt_consensus (commit_turn t) = nt_consensus t"
  by (simp_all add: scheduler_signal_turn_def executor_turn_def commit_turn_def Let_def split: list.splits prod.splits)

lemma tasks_reach_inv: "tasks_reach H ctx t \<Longrightarrow> tasks_inv t \<and> fed H ctx (nt_consensus t)"
proof (induction rule: tasks_reach.induct)
  case (tr_accept t bs t')
  then show ?case using tasks_inv_accept [of t H bs t'] fed_batch [of H ctx "nt_consensus t" bs] by simp
next
  case (tr_event t t')
  then show ?case using tasks_inv_event [of t t'] by simp
qed (simp_all add: tasks_inv_start tasks_inv_lagged tasks_inv_turns)


lemma subseq_mem: "subseq xs ys \<Longrightarrow> x \<in> set xs \<Longrightarrow> x \<in> set ys"
  by (meson subseq_order.trans subseq_singleton_left)

lemma subseq_take: "subseq xs (take n ys) \<Longrightarrow> subseq xs ys"
  by (meson prefix_imp_subseq subseq_order.trans take_is_prefix)

lemma take_subseq: "subseq xs ys \<Longrightarrow> subseq (take n xs) ys"
  by (meson prefix_imp_subseq subseq_order.trans take_is_prefix)

lemma sorted_wrt_subseq: "subseq xs ys \<Longrightarrow> sorted_wrt P ys \<Longrightarrow> sorted_wrt P xs"
  by (induction rule: list_emb.induct) (auto dest: subseq_mem)



section \<open>What the assembled node guarantees\<close>

text \<open>
  \<^bold>\<open>C6\<close> The assembled node, in every interleaving of its tasks and with every loss of a lagging
  receiver: the executor logs speculative batches of the leader rounds 3, 6, 9 and so on, none left
  out, with wave indices 1, 2, 3 and so on, and the \<open>i\<close>-th has as many transactions as a
  soft commit of that round that the consensus node sent.
\<close>

theorem executor_log_in_order:
  assumes reach: "tasks_reach H ctx t" and i: "i < length (me_received (nt_executor t))"
  shows "unat (ee_round (me_received (nt_executor t) ! i)) = 3 * (i + 1) \<and>
    unat (ee_commit_index (me_received (nt_executor t) ! i)) = i + 1 \<and> ee_is_optimistic (me_received (nt_executor t) ! i) \<and>
    (\<exists>l txs. SoftCommit (ee_round (me_received (nt_executor t) ! i)) l txs \<in> set (cn_events (nt_consensus t)) \<and>
       length txs = ee_tx_count (me_received (nt_executor t) ! i))"
proof -
  from tasks_reach_inv [OF reach] have inv: "tasks_inv t" by blast
  then obtain inputs where inputs: "sched_received (take (nt_cursor t) (cn_events (nt_consensus t))) inputs (nt_scheduler t)"
    and log: "me_received (nt_executor t) = map executor_event (take (nt_batches t) (ps_executor_tx (nt_scheduler t)))"
    by (auto simp: tasks_inv_def)
  let ?b = "ps_executor_tx (nt_scheduler t) ! i"
  have k: "i < length (ps_executor_tx (nt_scheduler t))" "me_received (nt_executor t) ! i = executor_event ?b"
    using i by (simp_all add: log)
  have run: "sched inputs = Inr (nt_scheduler t)" using inputs by (simp add: sched_received_def)
  have "subseq (events_of inputs) (cn_events (nt_consensus t))" using inputs subseq_take by (auto simp: sched_received_def)
  then have "e \<in> set (cn_events (nt_consensus t))" if "Event e \<in> set inputs" for e
    using that events_of_mem subseq_mem by metis
  with sent_batch [OF run k(1)] show ?thesis by (auto simp: k(2) executor_event_def)
qed

text \<open>The index and the round of a logged decision.\<close>

fun commit_event_key :: "CommitEvent \<Rightarrow> u64 \<times> SharedRound" where
  "commit_event_key (CommitEv ci r) = (ci, r)"
| "commit_event_key (DiscardEv ci) = (ci, 0)"
| "commit_event_key (FreshBatchEv r ci n) = (ci, r)"

lemma commit_event_key [simp]: "commit_event_key (commit_event d) = decision_key d"
  by (cases d) simp_all

text \<open>
  \<^bold>\<open>C8\<close> The log of the commit wrapper, in every interleaving: its decisions follow the hard
  commits of the consensus node, in their order and each at most once, with their commit index and
  leader round; and a decision to finalise a speculative result names a round whose batch was sent to
  the executor.
\<close>

theorem commit_log_follows_hard_commits:
  assumes reach: "tasks_reach H ctx t"
  shows "subseq (map commit_event_key (nt_commit_events t)) (map subdag_key (hard_commits (cn_events (nt_consensus t)))) \<and>
    sorted_wrt (<) (map (fst \<circ> commit_event_key) (nt_commit_events t)) \<and>
    {r. \<exists>ci. CommitEv ci r \<in> set (nt_commit_events t)} \<subseteq> tb_round ` set (ps_executor_tx (nt_scheduler t))"
proof (intro conjI subsetI)
  from tasks_reach_inv [OF reach] have inv: "tasks_inv t" and fed: "fed H ctx (nt_consensus t)" by blast+
  let ?ps = "nt_scheduler t" and ?evs = "cn_events (nt_consensus t)"
  from inv obtain inputs where inputs: "sched_received (take (nt_cursor t) ?evs) inputs ?ps"
    and log: "nt_commit_events t = map commit_event (take (nt_decisions t) (ps_commit_tx ?ps))"
    by (auto simp: tasks_inv_def)
  have "subseq (events_of inputs) ?evs"
    using inputs subseq_take by (auto simp: sched_received_def)
  then have sub: "subseq (map decision_key (ps_commit_tx ?ps)) (map subdag_key (hard_commits ?evs))"
    unfolding sched_received_decisions [OF inputs] using subseq_map [OF subseq_map_filter] by (simp add: hard_commits_def)
  have keys: "map commit_event_key (nt_commit_events t) = take (nt_decisions t) (map decision_key (ps_commit_tx ?ps))"
    by (simp add: log take_map)
  show s: "subseq (map commit_event_key (nt_commit_events t)) (map subdag_key (hard_commits ?evs))"
    unfolding keys using sub by (rule take_subseq)
  have "map (unat \<circ> osd_commit_index) (hard_commits ?evs) = [1 ..< Suc (unat (ds_last_commit_index (cn_dag_state (nt_consensus t))))]"
    using reaches_commits_ok [OF fed_reaches [OF fed]] by (simp add: commits_ok_def Let_def)
  then have "sorted_wrt (<) (map (unat \<circ> osd_commit_index) (hard_commits ?evs))" by (simp only: sorted_wrt_upt)
  then have "sorted_wrt (<) (map fst (map subdag_key (hard_commits ?evs)))"
    by (simp add: sorted_wrt_map subdag_key_def word_less_nat_alt)
  with sorted_wrt_subseq [OF subseq_map [OF s, of fst]] show "sorted_wrt (<) (map (fst \<circ> commit_event_key) (nt_commit_events t))"
    by simp
  fix r assume "r \<in> {r. \<exists>ci. CommitEv ci r \<in> set (nt_commit_events t)}"
  then obtain ci d where d: "d \<in> set (ps_commit_tx ?ps)" "CommitEv ci r = commit_event d" by (auto simp: log dest: in_set_takeD)
  have "d = CdCommit ci r" using d(2) by (cases d) simp_all
  with d(1) have "r \<in> set (committed_rounds ?ps)" by (force simp: committed_rounds_def List.map_filter_def)
  then show "r \<in> tb_round ` set (ps_executor_tx ?ps)"
    using sched_inv(2) inputs by (auto simp: sched_received_def commit_inv_def)
qed


end
