(* ===== verification/Node_Runs.thy ===== *)
theory Node_Runs
  imports Node_Pipeline
begin

text \<open>
  A concrete schedule of the tasks of \<^verbatim>\<open>crates/node/src/lib.rs\<close>, as the end-to-end tests run them, and a
  run of the assembled node on five rounds of a committee of four.
\<close>

section \<open>Yielding to the tasks\<close>

definition yield_turn :: "NodeTasks \<Rightarrow> NodeTasks res" where
  "yield_turn t =
     rbind (scheduler_event_turn t) (\<lambda>t. Inr (commit_turn (executor_turn (scheduler_signal_turn t))))"

text \<open>No message waits for a task.\<close>

definition tasks_idle :: "NodeTasks \<Rightarrow> bool" where
  "tasks_idle t \<longleftrightarrow> nt_cursor t = length (cn_events (nt_consensus t)) \<and> nt_backpressure t = [] \<and>
     nt_batches t = length (ps_executor_tx (nt_scheduler t)) \<and> nt_decisions t = length (ps_commit_tx (nt_scheduler t))"

fun yield_turns :: "nat \<Rightarrow> NodeTasks \<Rightarrow> NodeTasks res" where
  "yield_turns 0 t = Inr t"
| "yield_turns (Suc n) t = (if tasks_idle t then Inr t else rbind (yield_turn t) (yield_turns n))"

definition yield_all :: "NodeTasks \<Rightarrow> NodeTasks res" where
  "yield_all t = yield_turns 30 t"

section \<open>A concrete run\<close>

text \<open>Five full rounds of the committee of four reach the consensus node, then the tasks run.\<close>

definition fed_tasks :: "NodeTasks res" where
  "fed_tasks = rbind (build_test_node H0 ctx4) (rfold (\<lambda>r. accept_turn H0 (full_round r)) [1, 2, 3, 4, 5])"

definition demo_tasks :: "NodeTasks res" where
  "demo_tasks = rbind fed_tasks yield_all"

lemma yield_turns_reach: "tasks_reach H ctx t \<Longrightarrow> yield_turns n t = Inr t' \<Longrightarrow> tasks_reach H ctx t'"
proof (induction n arbitrary: t)
  case (Suc n)
  show ?case
  proof (cases "tasks_idle t")
    case False
    then obtain t1 where "scheduler_event_turn t = Inr t1"
      "yield_turns n (commit_turn (executor_turn (scheduler_signal_turn t1))) = Inr t'"
      using Suc.prems(2) by (auto simp: yield_turn_def res_simps)
    then show ?thesis using Suc.IH Suc.prems(1) tr_event tr_signal tr_executor tr_commit by blast
  qed (use Suc.prems in simp)
qed simp

text \<open>The DAG up to a round: references above genesis have digest zero, and the round is complete.\<close>

definition full_up_to :: "Round \<Rightarrow> ConsensusNode \<Rightarrow> bool" where
  "full_up_to r node \<longleftrightarrow> cn_context node = ctx4 \<and> (\<forall>x \<in> dag_refs (cn_dag_state node). 0 < br_round x \<longrightarrow> br_digest x = 0) \<and>
     (0 < r \<longrightarrow> (\<forall>a. unat a < 4 \<longrightarrow> BlockRef r a 0 \<in> dag_refs (cn_dag_state node)))"

lemma unat_minus_one_u32: "unat (- 1 :: u32) = 2 ^ 32 - 1"
  by (simp only: unsigned_minus_1_eq_mask mask_eq_exp_minus_1 len_of_numeral_defs) simp

lemma zero_digests_honest:
  assumes "\<forall>x \<in> refs. 0 < br_round x \<longrightarrow> br_digest x = 0" and "0 < rnd"
  shows "forkers refs rnd = {}"
proof -
  have "x = y" if "x \<in> refs" "y \<in> refs" "br_round x = rnd" "br_round y = rnd" "br_author x = br_author y" for x y
    using that assms by (intro BlockRef.expand) simp
  then show ?thesis unfolding forkers_def by blast
qed

lemma full_round_good:
  assumes fed: "fed H0 ctx4 node" and full: "full_up_to r node" and r: "unat r < 100"
  shows "good_batch (cn_dag_state node) (full_round (r + 1))"
proof -
  obtain bc where "node_ok bc node" using fed_node_ok [OF _ fed] by auto
  then have com: "dag_committee (cn_dag_state node) = committee4" using full by (simp add: node_ok_def Let_def full_up_to_def)
  have r1: "unat (r + 1) = Suc (unat r)" using r by (simp add: unat_word_ariths)
  then have pos: "r < r + 1" "0 < r + 1" by (simp_all add: word_less_nat_alt)
  have top: "r + 1 \<noteq> - 1"
  proof
    assume "r + 1 = - 1"
    then have "unat (r + 1) = 2 ^ 32 - 1" by (simp only: unat_minus_one_u32)
    with r r1 show False by simp
  qed
  have refs: "\<forall>x \<in> dag_refs (cn_dag_state node) \<union> reference ` set (full_round (r + 1)). 0 < br_round x \<longrightarrow> br_digest x = 0"
    using full by (auto simp: full_up_to_def full_round_def)
  have fork: "forkers (dag_refs (cn_dag_state node) \<union> reference ` set (full_round (r + 1))) rnd = {}" if "0 < rnd" for rnd
    by (rule zero_digests_honest [OF refs that])
  have "acceptable (cn_dag_state node) b \<and> distinct (vb_ancestors b) \<and>
      (\<forall>a \<in> set (vb_ancestors b). br_round a < vb_round b \<and> (0 < br_round a \<longrightarrow> a \<in> dag_refs (cn_dag_state node)))"
    if "b \<in> set (full_round (r + 1))" for b
    using that full pos top by (auto simp: full_round_def acceptable_def com round_refs_def full_up_to_def)
  moreover have "full_round (r + 1) \<noteq> []" by (simp add: full_round_def)
  ultimately show ?thesis unfolding good_batch_def using fork by (metis le0 sum.empty)
qed

lemma full_round_refs: "reference ` set (full_round r) = set (round_refs r)"
  by (simp add: full_round_def round_refs_def)

lemma full_round_reach:
  assumes reach: "tasks_reach H0 ctx4 t" and full: "full_up_to r (nt_consensus t)" and r: "unat r < 100"
    and run: "accept_turn H0 (full_round (r + 1)) t = Inr t'"
  shows "tasks_reach H0 ctx4 t'" and "full_up_to (r + 1) (nt_consensus t')"
proof -
  from tasks_reach_inv [OF reach] have inv: "tasks_inv t" and fed: "fed H0 ctx4 (nt_consensus t)" by blast+
  have good: "good_batch (cn_dag_state (nt_consensus t)) (full_round (r + 1))" by (rule full_round_good [OF fed full r])
  show "tasks_reach H0 ctx4 t'" by (rule tr_accept [OF reach good run])
  note acc = tasks_inv_accept(2) [OF inv run]
  obtain bc where ok: "node_ok bc (nt_consensus t)" using fed_node_ok [OF _ fed] by auto
  have "dag_refs (cn_dag_state (nt_consensus t')) = dag_refs (cn_dag_state (nt_consensus t)) \<union> reference ` set (full_round (r + 1))"
    using ingest_ok [OF ok good, of H0] acc by (auto simp: node_accept_blocks_def res_simps)
  then show "full_up_to (r + 1) (nt_consensus t')"
    using full accept_events_prefix [OF acc] by (auto simp: full_up_to_def full_round_refs round_refs_iff)
qed

lemma fed_tasks_reach:
  assumes "fed_tasks = Inr t"
  shows "tasks_reach H0 ctx4 t" and "full_up_to 5 (nt_consensus t)"
proof -
  obtain t0 t1 t2 t3 t4 where t0: "build_test_node H0 ctx4 = Inr t0"
    and runs: "accept_turn H0 (full_round (0 + 1)) t0 = Inr t1" "accept_turn H0 (full_round (1 + 1)) t1 = Inr t2"
      "accept_turn H0 (full_round (2 + 1)) t2 = Inr t3" "accept_turn H0 (full_round (3 + 1)) t3 = Inr t4"
      "accept_turn H0 (full_round (4 + 1)) t4 = Inr t"
    using assms by (auto simp: fed_tasks_def res_simps)
  obtain c where new: "node_new H0 ctx4 = Inr c" "nt_consensus t0 = c" using t0 by (auto simp: build_test_node_def res_simps)
  then have d: "cn_dag_state (nt_consensus t0) = genesis4" "cn_context (nt_consensus t0) = ctx4"
    unfolding new(2) using genesis4(1) by (auto simp: node_new_def res_simps)
  have "\<not> 0 < br_round x" if "x \<in> dag_refs genesis4" for x
    using get_block_above_genesis [OF genesis4(2), of x] genesis4(4) that by (auto simp: dag_refs_def)
  then have f0: "full_up_to 0 (nt_consensus t0)" by (auto simp: full_up_to_def d)
  have r0: "tasks_reach H0 ctx4 t0" using t0 by (auto simp: build_test_node_no_delay intro: tr_start)
  note s1 = full_round_reach [OF r0 f0 _ runs(1), simplified]
  note s2 = full_round_reach [OF s1 _ runs(2), simplified]
  note s3 = full_round_reach [OF s2 _ runs(3), simplified]
  note s4 = full_round_reach [OF s3 _ runs(4), simplified]
  note s5 = full_round_reach [OF s4 _ runs(5), simplified]
  show "tasks_reach H0 ctx4 t" "full_up_to 5 (nt_consensus t)" using s5 by simp_all
qed



lemma demo_logs:
  "map_sum id (\<lambda>t. (map (\<lambda>e. (ee_round e, ee_commit_index e)) (me_received (nt_executor t)), nt_commit_events t)) demo_tasks =
   Inr ([(3, 1)], [CommitEv 1 3])"
  by code_simp

lemma demo_tasks_reach: "demo_tasks = Inr t \<Longrightarrow> tasks_reach H0 ctx4 t"
  by (auto simp: demo_tasks_def yield_all_def res_simps intro: yield_turns_reach fed_tasks_reach)

lemma demo_tasks_obtain: "\<exists>t. demo_tasks = Inr t \<and> map (\<lambda>e. (ee_round e, ee_commit_index e)) (me_received (nt_executor t)) = [(3, 1)] \<and>
    nt_commit_events t = [CommitEv 1 3]"
  using map_sum_eq_Inr [OF demo_logs] by auto

theorem executor_log_in_order_witness:
  "\<exists>t. demo_tasks = Inr t \<and> length (me_received (nt_executor t)) = 1 \<and>
     (\<exists>l txs. SoftCommit 3 l txs \<in> set (cn_events (nt_consensus t)))"
proof -
  obtain t where t: "demo_tasks = Inr t" "map (\<lambda>e. (ee_round e, ee_commit_index e)) (me_received (nt_executor t)) = [(3, 1)]"
    using demo_tasks_obtain by (elim exE conjE)
  from arg_cong [OF t(2), of length] have len: "length (me_received (nt_executor t)) = 1" by simp
  have "ee_round (me_received (nt_executor t) ! 0) = 3"
  proof (cases "me_received (nt_executor t)")
    case (Cons e es)
    with t(2) show ?thesis by simp
  qed (use len in simp)
  with executor_log_in_order [OF demo_tasks_reach [OF t(1)], of 0] len
  obtain l txs where "SoftCommit 3 l txs \<in> set (cn_events (nt_consensus t))" by auto
  with t(1) len show ?thesis by blast
qed

theorem commit_log_follows_hard_commits_witness:
  "\<exists>t. demo_tasks = Inr t \<and> nt_commit_events t = [CommitEv 1 3] \<and> (1, 3) \<in> subdag_key ` set (hard_commits (cn_events (nt_consensus t))) \<and>
     3 \<in> tb_round ` set (ps_executor_tx (nt_scheduler t))"
proof -
  obtain t where t: "demo_tasks = Inr t" "nt_commit_events t = [CommitEv 1 3]" using demo_tasks_obtain by blast
  note c = commit_log_follows_hard_commits [OF demo_tasks_reach [OF t(1)]]
  have "(1, 3) \<in> subdag_key ` set (hard_commits (cn_events (nt_consensus t)))"
    using conjunct1 [OF c] by (simp add: t(2) subseq_singleton_left)
  moreover have "3 \<in> tb_round ` set (ps_executor_tx (nt_scheduler t))" using c t(2) by auto
  ultimately show ?thesis using t by blast
qed


end
