(* ===== verification/Consensus_Tests.thy ===== *)
theory Consensus_Tests
  imports Consensus_Node
begin

text \<open>
  The test builder of \<^verbatim>\<open>crates/consensus/src/types.rs\<close> and the tests of
  \<^verbatim>\<open>crates/consensus/src/node.rs\<close>. A test is a computation that panics when one of its assertions
  fails; that it passes is a theorem, evaluated with a constant hash function (references stay
  distinct by round and author). A receiver of the broadcast channel is the number of events it has
  drained.
\<close>

section \<open>The block builder\<close>

definition default_block :: Block where
  "default_block = \<lparr>bk_epoch = 0, bk_round = 0, bk_author = 0, bk_timestamp_ms = 0, bk_ancestors = [],
     bk_transactions = []\<rparr>"

type_synonym TestBlock = Block

definition TestBlock_new :: "Round \<Rightarrow> u32 \<Rightarrow> TestBlock" where
  "TestBlock_new rnd author = default_block\<lparr>bk_round := rnd, bk_author := author\<rparr>"

definition set_epoch :: "Epoch \<Rightarrow> TestBlock \<Rightarrow> TestBlock" where
  "set_epoch epoch b = b\<lparr>bk_epoch := epoch\<rparr>"

definition set_round :: "Round \<Rightarrow> TestBlock \<Rightarrow> TestBlock" where
  "set_round rnd b = b\<lparr>bk_round := rnd\<rparr>"

definition set_author :: "AuthorityIndex \<Rightarrow> TestBlock \<Rightarrow> TestBlock" where
  "set_author author b = b\<lparr>bk_author := author\<rparr>"

definition set_timestamp_ms :: "BlockTimestampMs \<Rightarrow> TestBlock \<Rightarrow> TestBlock" where
  "set_timestamp_ms ts b = b\<lparr>bk_timestamp_ms := ts\<rparr>"

text \<open>The comparison of \<^verbatim>\<open>set_ancestors\<close> orders by author, the block's own author first. For at most one
  ancestor by the own author it is the order of the key below; for more it is no total order, and the
  result of the library's sort is then unspecified.\<close>

definition set_ancestors :: "BlockRef list \<Rightarrow> TestBlock \<Rightarrow> TestBlock" where
  "set_ancestors ancestors b =
     b\<lparr>bk_ancestors := sort_key (\<lambda>a. (br_author a \<noteq> bk_author b, br_author a)) ancestors\<rparr>"

definition set_ancestors_raw :: "BlockRef list \<Rightarrow> TestBlock \<Rightarrow> TestBlock" where
  "set_ancestors_raw ancestors b = b\<lparr>bk_ancestors := ancestors\<rparr>"

definition set_transactions :: "Transaction list \<Rightarrow> TestBlock \<Rightarrow> TestBlock" where
  "set_transactions txs b = b\<lparr>bk_transactions := txs\<rparr>"

definition TestBlock_build :: "hash \<Rightarrow> TestBlock \<Rightarrow> VerifiedBlock" where
  "TestBlock_build H b = new_verified H b"

section \<open>Helpers of the tests\<close>

definition genesis_refs :: "hash \<Rightarrow> nat \<Rightarrow> BlockRef list res" where
  "genesis_refs H n = rbind (make_test_committee 0 n) (\<lambda>c. Inr (map reference (genesis_blocks H c)))"

definition build_round :: "hash \<Rightarrow> u32 \<Rightarrow> u32 list \<Rightarrow> BlockRef list \<Rightarrow> VerifiedBlock list" where
  "build_round H rnd authors prev_refs =
     map (\<lambda>a. TestBlock_build H (set_ancestors prev_refs (TestBlock_new rnd a))) authors"

text \<open>The receiver is a position in the log of the events. One that lags behind by more than the channel
  holds gets an error at its first receive, which ends the loop and moves it to the oldest event held.\<close>

definition drain :: "nat \<Rightarrow> ConsensusNode \<Rightarrow> ConsensusEvent list \<times> nat" where
  "drain rx node =
     (let sent = length (cn_events node) in
      if EVENT_CHANNEL_CAPACITY < sent - rx then ([], sent - EVENT_CHANNEL_CAPACITY)
      else (drop rx (cn_events node), sent))"

definition new_test_node :: "hash \<Rightarrow> u32 \<Rightarrow> ConsensusNode res" where
  "new_test_node H own =
     rbind (make_test_committee 0 4) (\<lambda>c. rbind (context_new own c) (node_new H))"

text \<open>The repeated steps of the tests: build a round on the references of the previous one and accept it.\<close>

fun feed_rounds ::
  "hash \<Rightarrow> (u32 \<Rightarrow> u32 list \<Rightarrow> BlockRef list \<Rightarrow> VerifiedBlock list) \<Rightarrow> u32 list \<Rightarrow> u32 list \<Rightarrow> BlockRef list \<Rightarrow>
     ConsensusNode \<Rightarrow> (ConsensusNode \<times> BlockRef list) res"
where
  "feed_rounds H mk [] authors prev node = Inr (node, prev)"
| "feed_rounds H mk (rnd # rounds) authors prev node =
     (let blocks = mk rnd authors prev
      in rbind (node_accept_blocks H blocks node)
           (feed_rounds H mk rounds authors (map reference blocks)))"

section \<open>The tests\<close>

definition test_soft_commit_triggered :: "hash \<Rightarrow> unit res" where
  "test_soft_commit_triggered H =
     rbind (new_test_node H 0) (\<lambda>node. rbind (genesis_refs H 4) (\<lambda>g.
     rbind (feed_rounds H (build_round H) [1, 2, 3] [0, 1, 2, 3] g node) (\<lambda>(node, r3_refs).
     let (before, rx) = drain 0 node in
     rbind (guard Assert (before = [])) (\<lambda>_.
     rbind (node_accept_blocks H (build_round H 4 [0, 1, 2] r3_refs) node) (\<lambda>node.
     let soft_events = filter is_soft (fst (drain rx node)) in
     rbind (guard Assert (length soft_events = 1)) (\<lambda>_.
     case hd soft_events of
       SoftCommit rnd _ _ \<Rightarrow> guard Assert (rnd = 3)
     | HardCommit _ \<Rightarrow> Inl ExplicitPanic))))))"

definition test_hard_commit_triggered :: "hash \<Rightarrow> unit res" where
  "test_hard_commit_triggered H =
     rbind (new_test_node H 0) (\<lambda>node. rbind (genesis_refs H 4) (\<lambda>g.
     rbind (feed_rounds H (build_round H) [1, 2, 3, 4] [0, 1, 2, 3] g node) (\<lambda>(node, r4_refs).
     let (before, rx) = drain 0 node in
     rbind (guard Assert (length (hard_commits before) = 0)) (\<lambda>_.
     rbind (node_accept_blocks H (build_round H 5 [0, 1, 2, 3] r4_refs) node) (\<lambda>node.
     let hard_events = hard_commits (fst (drain rx node)) in
     rbind (guard Assert (length hard_events = 1)) (\<lambda>_.
     rbind (guard Assert (sbr_round (osd_leader (hd hard_events)) = 3)) (\<lambda>_.
     guard Assert (sbr_author (osd_leader (hd hard_events)) = 3))))))))"

fun rounds_non_decreasing :: "OurVerifiedBlock list \<Rightarrow> bool" where
  "rounds_non_decreasing (prev # block # rest) \<longleftrightarrow>
     sbr_round (ovb_block_ref block) \<ge> sbr_round (ovb_block_ref prev) \<and> rounds_non_decreasing (block # rest)"
| "rounds_non_decreasing _ \<longleftrightarrow> True"

definition test_dag_causal_order :: "hash \<Rightarrow> unit res" where
  "test_dag_causal_order H =
     rbind (new_test_node H 0) (\<lambda>node. rbind (genesis_refs H 4) (\<lambda>g.
     rbind (feed_rounds H (build_round H) [1, 2, 3, 4, 5] [0, 1, 2, 3] g node) (\<lambda>(node, _).
     case hard_commits (fst (drain 0 node)) of
       [] \<Rightarrow> Inl UnwrapNone
     | subdag # _ \<Rightarrow>
         let pos = map (\<lambda>b. (sbr_round (ovb_block_ref b), sbr_author (ovb_block_ref b))) (osd_blocks subdag)
         in rbind (guard Assert (rounds_non_decreasing (osd_blocks subdag))) (\<lambda>_.
            guard Assert (list_all (\<lambda>b. (sbr_round (ovb_block_ref b), sbr_author (ovb_block_ref b)) \<in> set pos)
              (osd_blocks subdag))))))"

definition test_byzantine_node_tolerance :: "hash \<Rightarrow> unit res" where
  "test_byzantine_node_tolerance H =
     rbind (new_test_node H 1) (\<lambda>node. rbind (genesis_refs H 4) (\<lambda>g.
     rbind (feed_rounds H (build_round H) [1, 2, 3, 4, 5] [1, 2, 3] g node) (\<lambda>(node, _).
     let events = fst (drain 0 node) in
     rbind (guard Assert (length (filter is_soft events) = 1)) (\<lambda>_.
     rbind (guard Assert (length (hard_commits events) = 1)) (\<lambda>_.
     case hard_commits events of
       [] \<Rightarrow> Inl UnwrapNone
     | subdag # _ \<Rightarrow>
         rbind (guard Assert (sbr_round (osd_leader subdag) = 3)) (\<lambda>_.
         guard Assert (sbr_author (osd_leader subdag) = 3)))))))"

definition mk_round :: "hash \<Rightarrow> u32 \<Rightarrow> u32 list \<Rightarrow> BlockRef list \<Rightarrow> VerifiedBlock list" where
  "mk_round H rnd authors prev =
     map (\<lambda>a. TestBlock_build H (set_timestamp_ms (ucast rnd * 10 + ucast a)
       (set_ancestors prev (TestBlock_new rnd a)))) authors"

definition run_once :: "hash \<Rightarrow> ConsensusEvent list res" where
  "run_once H =
     rbind (new_test_node H 0) (\<lambda>node. rbind (genesis_refs H 4) (\<lambda>g.
     rbind (feed_rounds H (mk_round H) [1, 2, 3, 4, 5] [0, 1, 2, 3] g node) (\<lambda>(node, _).
     Inr (fst (drain 0 node)))))"

definition test_deterministic_replay :: "hash \<Rightarrow> unit res" where
  "test_deterministic_replay H =
     rbind (run_once H) (\<lambda>run1. rbind (run_once H) (\<lambda>run2.
     rbind (guard Assert (run1 \<noteq> [])) (\<lambda>_. guard Assert (run1 = run2))))"

definition build_tx_round :: "hash \<Rightarrow> u32 \<Rightarrow> u32 list \<Rightarrow> BlockRef list \<Rightarrow> VerifiedBlock list" where
  "build_tx_round H rnd authors prev =
     map (\<lambda>a. TestBlock_build H (set_transactions [[ucast rnd, ucast a]]
       (set_ancestors prev (TestBlock_new rnd a)))) authors"

definition test_tx_payload_flow :: "hash \<Rightarrow> unit res" where
  "test_tx_payload_flow H =
     rbind (new_test_node H 0) (\<lambda>node. rbind (genesis_refs H 4) (\<lambda>g.
     rbind (feed_rounds H (build_tx_round H) [1, 2, 3] [0, 1, 2, 3] g node) (\<lambda>(node, r3_refs).
     rbind (feed_rounds H (build_tx_round H) [4] [0, 1, 2] r3_refs node) (\<lambda>(node, r4_refs).
     let (after_r4, rx) = drain 0 node in
     rbind (case List.find is_soft after_r4 of
              Some (SoftCommit _ _ txs) \<Rightarrow>
                rbind (guard Assert (txs \<noteq> [])) (\<lambda>_. guard Assert (length txs = 9))
            | _ \<Rightarrow> Inl UnwrapNone) (\<lambda>_.
     rbind (feed_rounds H (build_tx_round H) [4] [3] r3_refs node) (\<lambda>(node, r4_all_refs).
     rbind (feed_rounds H (build_tx_round H) [5] [0, 1, 2, 3] (r4_refs @ r4_all_refs) node) (\<lambda>(node, _).
     case hard_commits (fst (drain rx node)) of
       [] \<Rightarrow> Inl UnwrapNone
     | subdag # _ \<Rightarrow> guard Assert (sum_list (map (length \<circ> ovb_txs) (osd_blocks subdag)) > 0))))))))"

lemmas test_setup = new_test_node_def genesis_refs_def make_committee4 rbind_Inr

lemma soft_commit_test: "test_soft_commit_triggered H0 = Inr ()"
  unfolding test_soft_commit_triggered_def test_setup by code_simp

lemma hard_commit_test: "test_hard_commit_triggered H0 = Inr ()"
  unfolding test_hard_commit_triggered_def test_setup by code_simp

lemma byzantine_test: "test_byzantine_node_tolerance H0 = Inr ()"
  unfolding test_byzantine_node_tolerance_def test_setup by code_simp

lemma tx_payload_test: "test_tx_payload_flow H0 = Inr ()"
  unfolding test_tx_payload_flow_def test_setup by code_simp

lemma causal_order_test: "test_dag_causal_order H0 = Inr ()"
  unfolding test_dag_causal_order_def test_setup by code_simp

lemma run_once_events: "map_sum id (\<lambda>evs. evs = []) (run_once H0) = Inr False"
  unfolding run_once_def test_setup by code_simp

lemma replay_test: "test_deterministic_replay H0 = Inr ()"
proof -
  from run_once_events obtain evs where "run_once H0 = Inr evs" "evs \<noteq> []" by (cases "run_once H0") auto
  then show ?thesis by (simp add: test_deterministic_replay_def)
qed

section \<open>What the tests show\<close>

text \<open>The tests of the consensus node pass: the soft commit of the leader of round 3 after three
  votes, its hard commit in round 5, the causal order of the sub-dag, the tolerance of one silent
  validator, the replay of the same events, and the flow of the nine transactions of the causal history.\<close>

theorem consensus_node_tests_pass:
  "test_soft_commit_triggered H0 = Inr () \<and> test_hard_commit_triggered H0 = Inr () \<and>
   test_dag_causal_order H0 = Inr () \<and> test_byzantine_node_tolerance H0 = Inr () \<and>
   test_deterministic_replay H0 = Inr () \<and> test_tx_payload_flow H0 = Inr ()"
  using soft_commit_test hard_commit_test causal_order_test byzantine_test replay_test tx_payload_test by blast

lemma run4_hard:
  "map_sum id (\<lambda>n. map (\<lambda>s. (osd_leader s, osd_commit_index s, length (osd_blocks s))) (hard_commits (cn_events n)))
     (run4 [1, 2, 3, 4, 5]) = Inr [(to_shared_block_ref (BlockRef 3 3 0), 1, 9)]"
  by code_simp

theorem hard_commits_in_sequence_witness:
  "\<exists>node. run4 [1, 2, 3, 4, 5] = Inr node \<and> length (hard_commits (cn_events node)) = 1 \<and>
     map (unat \<circ> osd_commit_index) (hard_commits (cn_events node)) =
       [1 ..< Suc (unat (ds_last_commit_index (cn_dag_state node)))]"
proof -
  obtain node where node: "run4 [1, 2, 3, 4, 5] = Inr node" "length (hard_commits (cn_events node)) = 1"
    using run4_hard by (cases "run4 [1, 2, 3, 4, 5]") auto
  with hard_commits_in_sequence [OF run4_reaches [OF node(1)]] show ?thesis by simp
qed

text \<open>Blocks out of order can stop a validator. The block manager lets a child of a suspended
  block into the DAG, and when the rounds 4 and 5 arrive while round 1 is missing, committing the
  leader of round 3 reaches an ancestor the DAG does not have, and the \<^verbatim>\<open>expect\<close> of the linearizer
  panics.\<close>

theorem missing_round_panics_node:
  "map_sum id (\<lambda>_. ()) (run4 [2, 3, 4, 5]) = Inl UnwrapNone"
  by code_simp

text \<open>Two soft commits for one slot. A block votes for every ancestor in the leader slot, so when
  the leader of round 3 produces two blocks and three validators refer to both, the node emits two
  soft commits for round 3 with different leader blocks, although no voter equivocates. (The commit
  rule counts only the first such ancestor of a voter.)\<close>

definition length_hash :: hash where
  "length_hash bytes = word_of_nat (length bytes)"

definition two_leader_blocks :: "BlockRef list \<Rightarrow> VerifiedBlock list" where
  "two_leader_blocks prev = build_round length_hash 3 [3] prev @ build_round length_hash 3 [3] (take 3 prev)"

definition equivocating_leader_run :: "ConsensusNode res" where
  "equivocating_leader_run =
     rbind (new_test_node length_hash 0) (\<lambda>node. rbind (genesis_refs length_hash 4) (\<lambda>g.
     rbind (feed_rounds length_hash (build_round length_hash) [1, 2] [0, 1, 2, 3] g node) (\<lambda>(node, r2_refs).
     rbind (node_accept_blocks length_hash (two_leader_blocks r2_refs) node) (\<lambda>node.
     node_accept_blocks length_hash
       (build_round length_hash 4 [0, 1, 2] (map reference (two_leader_blocks r2_refs))) node))))"

fun event_leader :: "ConsensusEvent \<Rightarrow> SharedRound \<times> SharedBlockDigest" where
  "event_leader (SoftCommit rnd leader _) = (rnd, sbr_digest leader)"
| "event_leader (HardCommit _) = (0, 0)"

definition event_leaders :: "ConsensusNode \<Rightarrow> (SharedRound \<times> SharedBlockDigest) list" where
  "event_leaders node = map event_leader (cn_events node)"

lemma equivocating_run: "map_sum id event_leaders equivocating_leader_run = Inr [(3, 156), (3, 124)]"
  unfolding equivocating_leader_run_def test_setup by code_simp

theorem equivocating_leader_soft_commits_twice:
  "\<exists>node l l' txs txs'. equivocating_leader_run = Inr node \<and>
     cn_events node = [SoftCommit 3 l txs, SoftCommit 3 l' txs'] \<and> l \<noteq> l'"
proof -
  obtain node where node: "equivocating_leader_run = Inr node" "event_leaders node = [(3, 156), (3, 124)]"
    using map_sum_eq_Inr [OF equivocating_run] by blast
  from node(2) obtain e e' where e: "cn_events node = [e, e']" "event_leader e = (3, 156)" "event_leader e' = (3, 124)"
    by (auto simp: event_leaders_def map_eq_Cons_conv)
  obtain l l' txs txs' where "e = SoftCommit 3 l txs" "e' = SoftCommit 3 l' txs'" "sbr_digest l = 156" "sbr_digest l' = 124"
    using e(2,3) by (cases e; cases e') auto
  moreover from this have "l \<noteq> l'" by auto
  ultimately show ?thesis using node(1) e(1) by blast
qed

end
