(* ===== verification/Node_Tests.thy ===== *)
theory Node_Tests
  imports Node_Runs Consensus_Tests "HOL-Library.List_Lexorder"
begin

text \<open>
  The end-to-end tests of \<^verbatim>\<open>crates/node/src/lib.rs\<close> with a committee of four: blocks are fed to the
  consensus node, then the tasks run until their channels are empty. Where a test yields to the runtime
  the model gives every task a fixed number of turns; which of the interleavings that is does not
  matter for the assertions.
\<close>

section \<open>Helpers of the tests\<close>

definition build_round_tx :: "hash \<Rightarrow> u32 \<Rightarrow> u32 list \<Rightarrow> BlockRef list \<Rightarrow> VerifiedBlock list" where
  "build_round_tx H rnd authors prev =
     map (\<lambda>a. TestBlock_build H (set_transactions [[ucast rnd, ucast a]]
       (set_ancestors prev (TestBlock_new rnd a)))) authors"

definition test_pipeline :: "hash \<Rightarrow> u32 \<Rightarrow> NodeTasks res" where
  "test_pipeline H own =
     rbind (make_test_committee 0 4) (\<lambda>c. rbind (context_new own c) (build_test_node H))"

text \<open>The repeated steps of the tests: build a round on the references of the previous one and accept it.\<close>

fun feed_node ::
  "hash \<Rightarrow> (u32 \<Rightarrow> u32 list \<Rightarrow> BlockRef list \<Rightarrow> VerifiedBlock list) \<Rightarrow> u32 list \<Rightarrow> u32 list \<Rightarrow> BlockRef list \<Rightarrow>
     NodeTasks \<Rightarrow> (NodeTasks \<times> BlockRef list) res"
where
  "feed_node H mk [] authors prev t = Inr (t, prev)"
| "feed_node H mk (rnd # rounds) authors prev t =
     (let blocks = mk rnd authors prev
      in rbind (accept_turn H blocks t) (feed_node H mk rounds authors (map reference blocks)))"

fun is_commit :: "CommitEvent \<Rightarrow> bool" where
  "is_commit (CommitEv _ _) = True"
| "is_commit _ = False"

fun is_fresh_batch :: "CommitEvent \<Rightarrow> bool" where
  "is_fresh_batch (FreshBatchEv _ _ _) = True"
| "is_fresh_batch _ = False"

definition count_commit_decisions :: "NodeTasks \<Rightarrow> nat" where
  "count_commit_decisions t = length (filter (\<lambda>e. is_commit e \<or> is_fresh_batch e) (nt_commit_events t))"

definition optimistic_events :: "NodeTasks \<Rightarrow> ExecutorEvent list" where
  "optimistic_events t = filter ee_is_optimistic (me_received (nt_executor t))"

section \<open>The tests\<close>

definition test_e2e_single_round :: "hash \<Rightarrow> unit res" where
  "test_e2e_single_round H =
     rbind (test_pipeline H 0) (\<lambda>t. rbind (genesis_refs H 4) (\<lambda>g.
     rbind (feed_node H (build_round H) [1, 2, 3] [0, 1, 2, 3] g t) (\<lambda>(t, r3r).
     rbind (feed_node H (build_round H) [4] [0, 1, 2] r3r t) (\<lambda>(t, r4ar).
     rbind (feed_node H (build_round H) [4] [3] r3r t) (\<lambda>(t, r4br).
     rbind (feed_node H (build_round H) [5] [0, 1, 2, 3] (r4ar @ r4br) t) (\<lambda>(t, _).
     rbind (yield_all t) (\<lambda>t.
     rbind (guard Assert (optimistic_events t \<noteq> [])) (\<lambda>_.
     guard Assert (list_ex is_commit (nt_commit_events t))))))))))"

fun soft_txs_of :: "ConsensusEvent \<Rightarrow> EthSignedTx list option" where
  "soft_txs_of (SoftCommit _ _ txs) = Some txs"
| "soft_txs_of (HardCommit _) = None"

definition test_e2e_soft_hard_tx_match :: "hash \<Rightarrow> unit res" where
  "test_e2e_soft_hard_tx_match H =
     rbind (test_pipeline H 0) (\<lambda>t. rbind (genesis_refs H 4) (\<lambda>g.
     rbind (feed_node H (build_round_tx H) [1, 2, 3] [0, 1, 2, 3] g t) (\<lambda>(t, r3r).
     rbind (feed_node H (build_round_tx H) [4] [0, 1, 2] r3r t) (\<lambda>(t, r4ar).
     rbind (feed_node H (build_round_tx H) [4] [3] r3r t) (\<lambda>(t, r4br).
     rbind (feed_node H (build_round_tx H) [5] [0, 1, 2, 3] (r4ar @ r4br) t) (\<lambda>(t, _).
     rbind (yield_all t) (\<lambda>t.
     let events = cn_events (nt_consensus t) in
     case (List.map_filter soft_txs_of events, hard_commits events) of
       (soft_txs # _, subdag # _) \<Rightarrow>
         rbind (guard Assert (soft_txs \<noteq> [])) (\<lambda>_.
         rbind (guard Assert (subdag_txs subdag \<noteq> [])) (\<lambda>_.
         guard Assert (sort (map tx_raw soft_txs) = sort (map tx_raw (subdag_txs subdag)))))
     | _ \<Rightarrow> Inl UnwrapNone)))))))"

definition test_e2e_out_of_order :: "hash \<Rightarrow> unit res" where
  "test_e2e_out_of_order H =
     rbind (test_pipeline H 0) (\<lambda>t. rbind (genesis_refs H 4) (\<lambda>g.
     rbind (feed_node H (build_round H) [1, 2, 3] [0, 1, 2, 3] g t) (\<lambda>(t, r3r).
     rbind (feed_node H (build_round H) [4] [0, 1] r3r t) (\<lambda>(t, r4pr).
     rbind (feed_node H (build_round H) [5, 6, 7] [0, 1, 2] r4pr t) (\<lambda>(t, _).
     rbind (feed_node H (build_round H) [4] [2] r3r t) (\<lambda>(t, _).
     rbind (yield_all t) (\<lambda>t.
     let rounds = map ee_round (me_received (nt_executor t)) in
     rbind (guard Assert (length rounds \<ge> 2)) (\<lambda>_.
     rbind (guard Assert (rounds ! 0 = 3)) (\<lambda>_.
     guard Assert (rounds ! 1 = 6))))))))))"

definition test_e2e_byzantine_f1 :: "hash \<Rightarrow> unit res" where
  "test_e2e_byzantine_f1 H =
     rbind (test_pipeline H 1) (\<lambda>t. rbind (genesis_refs H 4) (\<lambda>g.
     rbind (feed_node H (build_round H) [1, 2, 3, 4, 5] [1, 2, 3] g t) (\<lambda>(t, _).
     rbind (yield_all t) (\<lambda>t.
     guard Assert (list_ex (\<lambda>e. is_commit e \<or> is_fresh_batch e) (nt_commit_events t))))))"

definition test_equivocating_voter :: "hash \<Rightarrow> unit res" where
  "test_equivocating_voter H =
     rbind (test_pipeline H 0) (\<lambda>t. rbind (genesis_refs H 4) (\<lambda>g.
     rbind (feed_node H (build_round H) [1, 2, 3] [0, 1, 2, 3] g t) (\<lambda>(t, prev).
     let r4_node0 = TestBlock_build H (set_ancestors prev (TestBlock_new 4 0));
         v1a = TestBlock_build H (set_transactions [[1, 0]] (set_ancestors prev (TestBlock_new 4 1)));
         v1b = TestBlock_build H (set_transactions [[1, 1]] (set_ancestors prev (TestBlock_new 4 1)));
         r4_node2 = TestBlock_build H (set_ancestors prev (TestBlock_new 4 2));
         r4_node3 = TestBlock_build H (set_ancestors prev (TestBlock_new 4 3))
     in rbind (accept_turn H [r4_node0, v1a, v1b, r4_node2, r4_node3] t) (\<lambda>t.
        let r5_prev = map reference [r4_node0, r4_node2, r4_node3] @ [reference v1a] @ [reference v1b]
        in rbind (accept_turn H (build_round H 5 [0, 1, 2, 3] r5_prev) t) (\<lambda>t.
        rbind (yield_turns 300 t) (\<lambda>t.
        rbind (guard Assert (count_commit_decisions t = 1)) (\<lambda>_.
        guard Assert (length (optimistic_events t) = 1))))))))"

text \<open>A hash that tells the two votes of the equivocating validator apart.\<close>

definition last_byte_hash :: hash where
  "last_byte_hash bytes = foldl (\<lambda>_ b. ucast b) 0 bytes"

lemmas pipeline_setup = test_pipeline_def genesis_refs_def make_committee4 rbind_Inr

lemma e2e_single_round: "test_e2e_single_round H0 = Inr ()"
  unfolding test_e2e_single_round_def pipeline_setup by code_simp

lemma e2e_soft_hard_tx_match: "test_e2e_soft_hard_tx_match H0 = Inr ()"
  unfolding test_e2e_soft_hard_tx_match_def pipeline_setup by code_simp

lemma e2e_out_of_order: "test_e2e_out_of_order H0 = Inr ()"
  unfolding test_e2e_out_of_order_def pipeline_setup by code_simp

lemma e2e_byzantine_f1: "test_e2e_byzantine_f1 H0 = Inr ()"
  unfolding test_e2e_byzantine_f1_def pipeline_setup by code_simp

lemma voter_blocks_differ:
  "reference (TestBlock_build last_byte_hash (set_transactions [[1, 0]] (TestBlock_new 4 1))) \<noteq>
   reference (TestBlock_build last_byte_hash (set_transactions [[1, 1]] (TestBlock_new 4 1)))"
  by code_simp

lemma equivocating_voter: "test_equivocating_voter last_byte_hash = Inr ()"
  unfolding test_equivocating_voter_def pipeline_setup by code_simp

text \<open>
  The end-to-end tests pass: a soft and a hard commit reach the executor and the commit
  wrapper, the two carry the same transactions, reordered soft commits are dispatched in order, one
  silent validator and one equivocating voter are tolerated.
\<close>

theorem node_tests_pass:
  "test_e2e_single_round H0 = Inr () \<and> test_e2e_soft_hard_tx_match H0 = Inr () \<and> test_e2e_out_of_order H0 = Inr () \<and>
   test_e2e_byzantine_f1 H0 = Inr () \<and> test_equivocating_voter last_byte_hash = Inr ()"
  using e2e_single_round e2e_soft_hard_tx_match e2e_out_of_order e2e_byzantine_f1 equivocating_voter by blast

section \<open>An equivocating leader\<close>

text \<open>
  An equivocating leader stops the pipeline. The two soft commits that the consensus node sends
  when three voters refer to both blocks of the leader of round 3 are a valid event stream of that node,
  and the scheduler that receives it panics on the second one, because the round is in its queue
  already.
\<close>

theorem equivocating_leader_panics_scheduler:
  "map_sum id (\<lambda>node. sched (map Event (cn_events node))) equivocating_leader_run = Inr (Inl DebugAssert)"
  unfolding equivocating_leader_run_def test_setup by code_simp

end
