(* ===== verification/Node_Config.thy ===== *)
theory Node_Config
  imports Committee
begin

text \<open>
  \<^verbatim>\<open>NodeConfig::from_env\<close> of \<^verbatim>\<open>crates/node/src/lib.rs\<close>, with the integer parser of the standard library it
  relies on. The environment is a partial map from names to values; a variable that is not set, or that
  is not valid Unicode, has no value.
\<close>

section \<open>Parsing unsigned integers\<close>

datatype IntErrorKind = EmptyError | InvalidDigit | PosOverflow

fun int_error_message :: "IntErrorKind \<Rightarrow> string" where
  "int_error_message EmptyError = ''cannot parse integer from empty string''"
| "int_error_message InvalidDigit = ''invalid digit found in string''"
| "int_error_message PosOverflow = ''number too large to fit in target type''"

definition digit_value :: "char \<Rightarrow> nat option" where
  "digit_value c = (let n = of_char c :: nat in if 48 \<le> n \<and> n \<le> 57 then Some (n - 48) else None)"

fun parse_digits :: "nat \<Rightarrow> nat \<Rightarrow> string \<Rightarrow> IntErrorKind + nat" where
  "parse_digits mx acc [] = Inr acc"
| "parse_digits mx acc (c # cs) =
     (case digit_value c of
        None \<Rightarrow> Inl InvalidDigit
      | Some x \<Rightarrow>
          if acc * 10 > mx then Inl PosOverflow
          else if acc * 10 + x > mx then Inl PosOverflow
          else parse_digits mx (acc * 10 + x) cs)"

text \<open>The parser for an unsigned type with the given largest value: a leading plus sign is allowed, a
  minus sign is not a digit.\<close>

definition parse_unsigned :: "nat \<Rightarrow> string \<Rightarrow> IntErrorKind + nat" where
  "parse_unsigned mx src =
     (if src = [] then Inl EmptyError
      else if src = ''+'' \<or> src = ''-'' then Inl InvalidDigit
      else if hd src = CHR ''+'' then parse_digits mx 0 (tl src)
      else parse_digits mx 0 src)"

section \<open>The configuration\<close>

record NodeConfig =
  nc_node_index :: usize
  nc_committee_size :: usize
  nc_consensus_port :: u16
  nc_rpc_port :: u16
  nc_health_port :: u16
  nc_peers :: "string list"

type_synonym env = "string \<Rightarrow> string option"

definition env_or :: "env \<Rightarrow> string \<Rightarrow> string \<Rightarrow> string" where
  "env_or env key dflt = (case env key of Some v \<Rightarrow> v | None \<Rightarrow> dflt)"

definition parse_var :: "nat \<Rightarrow> env \<Rightarrow> string \<Rightarrow> string \<Rightarrow> string + nat" where
  "parse_var mx env key dflt =
     map_sum (\<lambda>e. ''invalid '' @ key @ '': '' @ int_error_message e) id (parse_unsigned mx (env_or env key dflt))"

definition parse_usize :: "env \<Rightarrow> string \<Rightarrow> string \<Rightarrow> string + usize" where
  "parse_usize env key dflt = map_sum id word_of_nat (parse_var (2 ^ 64 - 1) env key dflt)"

definition parse_u16 :: "env \<Rightarrow> string \<Rightarrow> string \<Rightarrow> string + u16" where
  "parse_u16 env key dflt = map_sum id word_of_nat (parse_var (2 ^ 16 - 1) env key dflt)"

fun split_char :: "char \<Rightarrow> string \<Rightarrow> string list" where
  "split_char d [] = [[]]"
| "split_char d (c # cs) =
     (if c = d then [] # split_char d cs
      else (case split_char d cs of [] \<Rightarrow> [[c]] | w # ws \<Rightarrow> (c # w) # ws))"

text \<open>The question mark operator.\<close>

fun try_bind :: "'e + 'a \<Rightarrow> ('a \<Rightarrow> 'e + 'b) \<Rightarrow> 'e + 'b" where
  "try_bind (Inl e) f = Inl e"
| "try_bind (Inr x) f = f x"

definition from_env :: "env \<Rightarrow> string + NodeConfig" where
  "from_env env =
     try_bind (parse_usize env ''NODE_INDEX'' ''0'') (\<lambda>node_index.
     try_bind (parse_usize env ''COMMITTEE_SIZE'' ''4'') (\<lambda>committee_size.
     try_bind (parse_u16 env ''CONSENSUS_PORT'' ''9000'') (\<lambda>consensus_port.
     try_bind (parse_u16 env ''RPC_PORT'' ''8545'') (\<lambda>rpc_port.
     try_bind (parse_u16 env ''HEALTH_PORT'' ''9001'') (\<lambda>health_port.
     let peers = filter (\<lambda>s. s \<noteq> []) (split_char (CHR '','') (env_or env ''PEERS'' []))
     in Inr \<lparr>nc_node_index = node_index, nc_committee_size = committee_size, nc_consensus_port = consensus_port,
          nc_rpc_port = rpc_port, nc_health_port = health_port, nc_peers = peers\<rparr>)))))"

lemmas from_env_eval = from_env_def parse_usize_def parse_u16_def parse_var_def env_or_def parse_unsigned_def digit_value_def Let_def

section \<open>Printed numbers are read back\<close>






section \<open>What the parser accepts\<close>

text \<open>The number a list of digits denotes.\<close>

definition number_of_digits :: "nat \<Rightarrow> string \<Rightarrow> nat" where
  "number_of_digits acc ds = foldl (\<lambda>acc c. acc * 10 + the (digit_value c)) acc ds"

definition all_digits :: "string \<Rightarrow> bool" where
  "all_digits ds \<longleftrightarrow> list_all (\<lambda>c. digit_value c \<noteq> None) ds"

definition without_plus :: "string \<Rightarrow> string" where
  "without_plus src = (if src \<noteq> [] \<and> hd src = CHR ''+'' then tl src else src)"

lemma number_of_digits_Cons [simp]:
  "number_of_digits acc [] = acc" "number_of_digits acc (c # ds) = number_of_digits (acc * 10 + the (digit_value c)) ds"
  by (simp_all add: number_of_digits_def)

lemma number_of_digits_ge: "acc \<le> number_of_digits acc ds"
proof (induction ds arbitrary: acc)
  case (Cons c ds)
  have "acc \<le> acc * 10 + the (digit_value c)" by simp
  also have "\<dots> \<le> number_of_digits acc (c # ds)" using Cons.IH by simp
  finally show ?case .
qed simp

lemma parse_digits_iff: "acc \<le> mx \<Longrightarrow> parse_digits mx acc ds = Inr n \<longleftrightarrow> all_digits ds \<and> n = number_of_digits acc ds \<and> n \<le> mx"
proof (induction ds arbitrary: acc)
  case (Cons c ds)
  show ?case
  proof (cases "digit_value c")
    case (Some x)
    show ?thesis
    proof (cases "acc * 10 + x \<le> mx")
      case True
      with Cons.IH [OF True] Some show ?thesis by (auto simp: all_digits_def)
    next
      case False
      then have "\<not> number_of_digits (acc * 10 + x) ds \<le> mx" using number_of_digits_ge [of "acc * 10 + x" ds] by linarith
      with False Some show ?thesis by auto
    qed
  qed (simp add: all_digits_def)
qed (auto simp: all_digits_def)

text \<open>
  The parser of the standard library as the configuration uses it accepts exactly the
  non-empty digit strings, with an optional plus sign, of numbers that fit the type, and returns that
  number: intermediate overflow checks reject nothing that fits.
\<close>

theorem parse_unsigned_exact:
  "parse_unsigned mx src = Inr n \<longleftrightarrow>
   without_plus src \<noteq> [] \<and> all_digits (without_plus src) \<and> n = number_of_digits 0 (without_plus src) \<and> n \<le> mx"
proof -
  have minus: "\<not> all_digits ''-''" by (simp add: all_digits_def digit_value_def)
  show ?thesis
  proof (cases src)
    case (Cons c cs)
    show ?thesis
    proof (cases "c = CHR ''+''")
      case True
      then show ?thesis by (cases "cs = []") (simp_all add: Cons without_plus_def parse_unsigned_def parse_digits_iff)
    next
      case False
      then have w: "without_plus src = src" by (simp add: Cons without_plus_def)
      show ?thesis
      proof (cases "src = ''-''")
        case True
        then show ?thesis unfolding w using minus by (simp add: parse_unsigned_def)
      next
        case neq: False
        then have "parse_unsigned mx src = parse_digits mx 0 src" using False by (auto simp: Cons parse_unsigned_def)
        then show ?thesis unfolding w using parse_digits_iff [of 0 mx src n] by (simp add: Cons)
      qed
    qed
  qed (simp add: parse_unsigned_def without_plus_def)
qed

section \<open>Configurations\<close>











text \<open>
  A variable that is no number of its type is an error that names the variable, the first such
  variable in the order of the fields.
\<close>

theorem from_env_rejects:
  "from_env [''RPC_PORT'' \<mapsto> ''65536'', ''NODE_INDEX'' \<mapsto> ''-1''] = Inl ''invalid NODE_INDEX: invalid digit found in string'' \<and>
   from_env [''RPC_PORT'' \<mapsto> ''65536''] = Inl ''invalid RPC_PORT: number too large to fit in target type'' \<and>
   from_env [''COMMITTEE_SIZE'' \<mapsto> []] = Inl ''invalid COMMITTEE_SIZE: cannot parse integer from empty string''"
  by (simp add: from_env_eval)

end
