(* ===== verification/Node_Random.thy ===== *)
theory Node_Random
  imports Consensus_Tests "HOL-Library.Multiset"
begin

text \<open>
  The randomised block builder of the end-to-end tests in \<^verbatim>\<open>crates/node/src/lib.rs\<close>: a linear congruential
  generator, the Fisher-Yates shuffle, sampling without replacement, and rounds whose blocks choose
  their ancestors at random but always refer to the leader of a wave in its voting round.
\<close>

section \<open>The generator\<close>

type_synonym Lcg = u64

definition lcg_new :: "u64 \<Rightarrow> Lcg" where
  "lcg_new seed = seed"

definition next_u64 :: "Lcg \<Rightarrow> u64 \<times> Lcg" where
  "next_u64 s = (let s' = s * 6364136223846793005 + 1442695040888963407 in (s', s'))"

definition next_usize :: "nat \<Rightarrow> Lcg \<Rightarrow> (nat \<times> Lcg) res" where
  "next_usize n rng =
     rbind (guard DebugAssert (n > 0)) (\<lambda>_.
     let (x, rng) = next_u64 rng in Inr (unat x mod n, rng))"

definition swap_at :: "nat \<Rightarrow> nat \<Rightarrow> 'a list \<Rightarrow> 'a list res" where
  "swap_at i j xs =
     rbind (guard UnwrapNone (i < length xs \<and> j < length xs)) (\<lambda>_.
     Inr (xs[i := xs ! j, j := xs ! i]))"

text \<open>The loop runs over the positions from the last down to the second.\<close>

fun shuffle_loop :: "nat \<Rightarrow> 'a list \<Rightarrow> Lcg \<Rightarrow> ('a list \<times> Lcg) res" where
  "shuffle_loop 0 xs rng = Inr (xs, rng)"
| "shuffle_loop (Suc i) xs rng =
     rbind (next_usize (Suc i + 1) rng) (\<lambda>(j, rng).
     rbind (swap_at (Suc i) j xs) (\<lambda>xs. shuffle_loop i xs rng))"

definition shuffle :: "'a list \<Rightarrow> Lcg \<Rightarrow> ('a list \<times> Lcg) res" where
  "shuffle xs rng = shuffle_loop (length xs - 1) xs rng"

definition choose_k :: "'a list \<Rightarrow> nat \<Rightarrow> Lcg \<Rightarrow> ('a list \<times> Lcg) res" where
  "choose_k items k rng =
     (let k = min k (length items)
      in rbind (shuffle [0 ..< length items] rng) (\<lambda>(idx, rng). Inr (map (\<lambda>i. items ! i) (take k idx), rng)))"

section \<open>Random rounds\<close>

definition WAVE_LEN :: u32 where "WAVE_LEN = 3"

definition leader_author_for_round :: "u32 \<Rightarrow> nat \<Rightarrow> u32 res" where
  "leader_author_for_round lr n = checked_rem lr (word_of_nat n)"

definition forced_leader :: "u32 \<Rightarrow> BlockRef list \<Rightarrow> nat \<Rightarrow> BlockRef option res" where
  "forced_leader r prev size_c =
     (let prev_round = saturating_sub r 1 in
      if prev_round > 0 \<and> prev_round mod WAVE_LEN = 0 then
        rbind (leader_author_for_round prev_round size_c) (\<lambda>la.
        Inr (List.find (\<lambda>b. unat (br_author b) = unat la) prev))
      else Inr None)"

definition force_leader :: "BlockRef option \<Rightarrow> BlockRef list \<Rightarrow> BlockRef list" where
  "force_leader leader chosen =
     (case leader of
        None \<Rightarrow> chosen
      | Some lr \<Rightarrow>
          if lr \<in> set chosen then chosen
          else if chosen = [] then [lr] else chosen[length chosen - 1 := lr])"

fun random_blocks ::
  "hash \<Rightarrow> u32 \<Rightarrow> BlockRef option \<Rightarrow> BlockRef list \<Rightarrow> nat \<Rightarrow> u32 list \<Rightarrow> Lcg \<Rightarrow> (VerifiedBlock list \<times> Lcg) res"
where
  "random_blocks H r leader prev refs_per_block [] rng = Inr ([], rng)"
| "random_blocks H r leader prev refs_per_block (a # authors) rng =
     rbind (choose_k prev refs_per_block rng) (\<lambda>(chosen, rng).
     let block = TestBlock_build H (set_ancestors (force_leader leader chosen) (TestBlock_new r a))
     in rbind (random_blocks H r leader prev refs_per_block authors rng) (\<lambda>(blocks, rng).
        Inr (block # blocks, rng)))"

definition build_round_random_refs ::
  "hash \<Rightarrow> u32 \<Rightarrow> u32 list \<Rightarrow> BlockRef list \<Rightarrow> nat \<Rightarrow> nat \<Rightarrow> Lcg \<Rightarrow> (VerifiedBlock list \<times> Lcg) res"
where
  "build_round_random_refs H r authors prev size_c refs_per_block rng =
     rbind (guard DebugAssert (prev \<noteq> [])) (\<lambda>_.
     rbind (guard DebugAssert (refs_per_block > 0)) (\<lambda>_.
     rbind (forced_leader r prev size_c) (\<lambda>leader.
     random_blocks H r leader prev refs_per_block authors rng)))"

section \<open>Shuffling and sampling\<close>

lemma mset_swap_at: "i < length xs \<Longrightarrow> j < length xs \<Longrightarrow> mset (xs[i := xs ! j, j := xs ! i]) = mset xs"
  by (rule mset_swap)

lemma shuffle_loop_perm:
  "n < length xs \<or> n = 0 \<Longrightarrow> \<exists>ys rng'. shuffle_loop n xs rng = Inr (ys, rng') \<and> mset ys = mset xs"
proof (induction n arbitrary: xs rng)
  case (Suc i)
  obtain x rng1 where x: "next_u64 rng = (x, rng1)" by (cases "next_u64 rng")
  let ?j = "unat x mod (Suc i + 1)"
  have i: "Suc i < length xs" using Suc.prems by simp
  have "?j < Suc i + 1" by (rule mod_less_divisor) simp
  with i have j: "?j < length xs" by linarith
  have "\<exists>ys rng'. shuffle_loop i (xs[Suc i := xs ! ?j, ?j := xs ! Suc i]) rng1 = Inr (ys, rng') \<and>
      mset ys = mset (xs[Suc i := xs ! ?j, ?j := xs ! Suc i])"
    using i by (intro Suc.IH) simp
  then show ?case using i j mset_swap_at [OF i j] by (simp add: next_usize_def x swap_at_def)
qed simp

lemma shuffle_perm: "\<exists>ys rng'. shuffle xs rng = Inr (ys, rng') \<and> mset ys = mset xs"
  unfolding shuffle_def by (rule shuffle_loop_perm) (cases xs, auto)

lemma choose_k_sample:
  assumes "distinct items"
  shows "\<exists>ys rng'. choose_k items k rng = Inr (ys, rng') \<and> distinct ys \<and> set ys \<subseteq> set items \<and> length ys = min k (length items)"
proof -
  obtain idx rng' where idx: "shuffle [0 ..< length items] rng = Inr (idx, rng')" "mset idx = mset [0 ..< length items]"
    using shuffle_perm by blast
  have "distinct idx" "set idx = {0 ..< length items}" "length idx = length items"
    using mset_eq_imp_distinct_iff [OF idx(2)] mset_eq_setD [OF idx(2)] mset_eq_length [OF idx(2)] by simp_all
  have sub: "set (take m idx) \<subseteq> {0 ..< length items}" for m
    using set_take_subset [of m idx] \<open>set idx = {0 ..< length items}\<close> by blast
  have "inj_on (\<lambda>i. items ! i) (set (take m idx))" for m
    using sub [of m] assms by (auto intro!: inj_onI simp: nth_eq_iff_index_eq subset_iff)
  then have "distinct (map (\<lambda>i. items ! i) (take m idx))" for m using \<open>distinct idx\<close> by (simp add: distinct_map)
  moreover have "set (map (\<lambda>i. items ! i) (take m idx)) \<subseteq> set items" for m using sub [of m] by auto
  ultimately show ?thesis using idx(1) \<open>length idx = length items\<close> by (simp add: choose_k_def Let_def)
qed

section \<open>The voting-round guarantee\<close>

lemma force_leader_props:
  assumes "distinct chosen" and "set chosen \<subseteq> set prev" and "chosen \<noteq> []" and "\<And>lr. leader = Some lr \<Longrightarrow> lr \<in> set prev"
  shows "distinct (force_leader leader chosen)" and "set (force_leader leader chosen) \<subseteq> set prev"
    and "length (force_leader leader chosen) = length chosen" and "\<And>lr. leader = Some lr \<Longrightarrow> lr \<in> set (force_leader leader chosen)"
proof -
  obtain cs c where c: "chosen = cs @ [c]" using assms(3) by (cases chosen rule: rev_cases) auto
  show "distinct (force_leader leader chosen)" "set (force_leader leader chosen) \<subseteq> set prev"
    "length (force_leader leader chosen) = length chosen"
    using assms by (auto simp: force_leader_def c split: option.splits)
  show "lr \<in> set (force_leader leader chosen)" if "leader = Some lr" for lr
    using that by (auto simp: force_leader_def c)
qed

definition random_block_ok :: "u32 \<Rightarrow> BlockRef option \<Rightarrow> BlockRef list \<Rightarrow> nat \<Rightarrow> VerifiedBlock \<Rightarrow> bool" where
  "random_block_ok r leader prev refs_per_block b \<longleftrightarrow> vb_round b = r \<and> distinct (vb_ancestors b) \<and> set (vb_ancestors b) \<subseteq> set prev \<and>
     length (vb_ancestors b) = min refs_per_block (length prev) \<and> (\<forall>lr. leader = Some lr \<longrightarrow> lr \<in> set (vb_ancestors b))"

lemma vb_built [simp]:
  "vb_round (TestBlock_build H b) = bk_round b" "vb_author (TestBlock_build H b) = bk_author b"
  "vb_ancestors (TestBlock_build H b) = bk_ancestors b"
  by (simp_all add: TestBlock_build_def new_verified_def vb_round_def vb_author_def vb_ancestors_def)

lemma random_blocks_ok:
  assumes "distinct prev" and "prev \<noteq> []" and "0 < refs" and "\<And>lr. leader = Some lr \<Longrightarrow> lr \<in> set prev"
  shows "\<exists>blocks rng'. random_blocks H r leader prev refs authors rng = Inr (blocks, rng') \<and> map vb_author blocks = authors \<and>
    list_all (random_block_ok r leader prev refs) blocks"
proof (induction authors arbitrary: rng)
  case (Cons a authors)
  obtain chosen rng1 where ch: "choose_k prev refs rng = Inr (chosen, rng1)" "distinct chosen" "set chosen \<subseteq> set prev"
    "length chosen = min refs (length prev)" using choose_k_sample [OF assms(1)] by blast
  have "chosen \<noteq> []" using ch(4) assms(2,3) by (auto simp: min_def split: if_splits)
  note f = force_leader_props [OF ch(2,3) this assms(4)]
  let ?b = "TestBlock_build H (set_ancestors (force_leader leader chosen) (TestBlock_new r a))"
  have "random_block_ok r leader prev refs ?b"
    using f ch(4) by (simp add: random_block_ok_def set_ancestors_def TestBlock_new_def)
  moreover have "vb_author ?b = a" by (simp add: set_ancestors_def TestBlock_new_def)
  moreover obtain blocks rng' where "random_blocks H r leader prev refs authors rng1 = Inr (blocks, rng')"
    "map vb_author blocks = authors" "list_all (random_block_ok r leader prev refs) blocks" using Cons.IH by blast
  ultimately show ?case by (simp add: ch(1) Let_def)
qed simp

text \<open>
  Random rounds: whatever the state of the generator, building a round on distinct references of the
  previous round succeeds, with one block for each author that has the requested number of distinct
  ancestors among the previous round (or all of them); and when the previous round is a leader round, the
  block of its leader, if there is one, is an ancestor of every block.
\<close>

theorem random_round_votes_for_leader:
  assumes prev: "distinct prev" "prev \<noteq> []" "0 < refs" and size: "0 < n" "n < 2 ^ 32"
  shows "\<exists>leader blocks rng'. build_round_random_refs H r authors prev n refs rng = Inr (blocks, rng') \<and>
    forced_leader r prev n = Inr leader \<and> map vb_author blocks = authors \<and> list_all (random_block_ok r leader prev refs) blocks"
proof -
  have "(word_of_nat n :: u32) \<noteq> 0" using size by (simp add: unat_eq_zero [symmetric] unsigned_of_nat take_bit_nat_eq_self del: unat_eq_zero)
  then have "\<exists>leader. forced_leader r prev n = Inr leader"
    by (simp add: forced_leader_def leader_author_for_round_def checked_rem_def Let_def)
  then obtain leader where leader: "forced_leader r prev n = Inr leader" by blast
  then have "lr \<in> set prev" if "leader = Some lr" for lr
    using that by (auto simp: forced_leader_def Let_def res_simps find_Some_iff split: if_splits)
  from random_blocks_ok [OF prev this] leader prev show ?thesis by (simp add: build_round_random_refs_def)
qed

theorem random_round_votes_for_leader_witness:
  "\<exists>leader blocks rng'. build_round_random_refs H0 4 [0, 1] [BlockRef 3 3 0, BlockRef 3 0 0] 4 1 42 = Inr (blocks, rng') \<and>
    forced_leader 4 [BlockRef 3 3 0, BlockRef 3 0 0] 4 = Inr leader \<and> map vb_author blocks = [0, 1] \<and>
    list_all (random_block_ok 4 leader [BlockRef 3 3 0, BlockRef 3 0 0] 1) blocks"
  by (rule random_round_votes_for_leader) simp_all

end
