(* ===== verification/Testkit.thy ===== *)
theory Testkit
  imports Shared_Types
begin

text \<open>
  \<^verbatim>\<open>crates/testkit/src/lib.rs\<close>: the latency measurements of the benchmarks and the commit timeline. The
  clock and the timer of the asynchronous runtime are parameters: \<open>clk\<close> reads the clock (\<^verbatim>\<open>Instant::now\<close>) and
  \<open>slp\<close> waits for a duration (\<^verbatim>\<open>tokio::time::sleep\<close>), both on a state of the runtime of any type. What the
  runtime documents of them is a hypothesis: the clock never goes back and a sleep never ends early
  (\<open>monotone_clock\<close>), or, where a bound on the delay of a single operation is needed, that bound (\<open>punctual_clock\<close>).
  Instants and durations are numbers of nanoseconds. The simulated network of this crate is a stub whose
  operations are not implemented and is left out.
\<close>

section \<open>Timing of the two execution paths\<close>

definition from_millis :: "u64 \<Rightarrow> nat" where
  "from_millis ms = unat ms * 1000000"

definition elapsed_since :: "('w \<Rightarrow> nat \<times> 'w) \<Rightarrow> nat \<Rightarrow> 'w \<Rightarrow> nat \<times> 'w" where
  "elapsed_since clk start w = (case clk w of (t, w) \<Rightarrow> (t - start, w))"

definition measure_optimistic_latency ::
    "('w \<Rightarrow> nat \<times> 'w) \<Rightarrow> (nat \<Rightarrow> 'w \<Rightarrow> 'w) \<Rightarrow> u64 \<Rightarrow> u64 \<Rightarrow> 'w \<Rightarrow> (nat \<times> 'w) res" where
  "measure_optimistic_latency clk slp delta_ms exec_ms w =
     (case clk w of (start, w) \<Rightarrow>
      rbind (checked_mul 2 delta_ms) (\<lambda>two_delta.
      let w = slp (from_millis two_delta) w;
          w = slp (from_millis exec_ms) w
      in case elapsed_since clk start w of (after_exec, w) \<Rightarrow>
      rbind (checked_mul 3 delta_ms) (\<lambda>three_delta_ms.
      let three_delta = from_millis three_delta_ms;
          w = (if after_exec < three_delta then slp (three_delta - after_exec) w else w)
      in Inr (elapsed_since clk start w))))"

definition measure_baseline_latency ::
    "('w \<Rightarrow> nat \<times> 'w) \<Rightarrow> (nat \<Rightarrow> 'w \<Rightarrow> 'w) \<Rightarrow> u64 \<Rightarrow> u64 \<Rightarrow> 'w \<Rightarrow> (nat \<times> 'w) res" where
  "measure_baseline_latency clk slp delta_ms exec_ms w =
     (case clk w of (start, w) \<Rightarrow>
      rbind (checked_mul 3 delta_ms) (\<lambda>three_delta.
      let w = slp (from_millis three_delta) w;
          w = slp (from_millis exec_ms) w
      in Inr (elapsed_since clk start w)))"

section \<open>The commit timeline\<close>

record CommitTimestamps =
  soft_commit_at :: "nat option"
  hard_commit_at :: "nat option"
  execution_done_at :: "nat option"

definition default_timestamps :: CommitTimestamps where
  "default_timestamps = \<lparr>soft_commit_at = None, hard_commit_at = None, execution_done_at = None\<rparr>"

type_synonym CommitTimeline = "(SharedRound, CommitTimestamps) omap"

definition timeline_entry :: "SharedRound \<Rightarrow> CommitTimeline \<Rightarrow> CommitTimestamps" where
  "timeline_entry rnd timeline = (case om_get timeline rnd of Some e \<Rightarrow> e | None \<Rightarrow> default_timestamps)"

definition record_soft_commit :: "SharedRound \<Rightarrow> nat \<Rightarrow> CommitTimeline \<Rightarrow> CommitTimeline" where
  "record_soft_commit rnd now timeline = om_insert rnd (timeline_entry rnd timeline\<lparr>soft_commit_at := Some now\<rparr>) timeline"

definition record_hard_commit :: "SharedRound \<Rightarrow> nat \<Rightarrow> CommitTimeline \<Rightarrow> CommitTimeline" where
  "record_hard_commit rnd now timeline = om_insert rnd (timeline_entry rnd timeline\<lparr>hard_commit_at := Some now\<rparr>) timeline"

definition record_exec_done :: "SharedRound \<Rightarrow> nat \<Rightarrow> CommitTimeline \<Rightarrow> CommitTimeline" where
  "record_exec_done rnd now timeline = om_insert rnd (timeline_entry rnd timeline\<lparr>execution_done_at := Some now\<rparr>) timeline"

definition hard_times :: "CommitTimeline \<Rightarrow> nat list" where
  "hard_times timeline = List.map_filter hard_commit_at (om_values timeline)"

text \<open>The difference of instants saturates at zero, the division of a duration rounds down.\<close>

definition duration_div :: "nat \<Rightarrow> u32 \<Rightarrow> nat res" where
  "duration_div total_time k = (if k = 0 then Inl DivByZero else Inr (total_time div unat k))"

definition measure_delta :: "CommitTimeline \<Rightarrow> nat res" where
  "measure_delta timeline =
     (let times = sort (hard_times timeline) in
      if length times < 2 then Inr 0
      else let total_time = sum_list (map (\<lambda>(a, b). b - a) (zip times (tl times)))
           in rbind (checked_sub (word_of_nat (length times)) 1) (duration_div total_time))"

definition gain_of :: "CommitTimestamps \<Rightarrow> nat option" where
  "gain_of e =
     (case soft_commit_at e of
        None \<Rightarrow> None
      | Some soft \<Rightarrow> (case hard_commit_at e of None \<Rightarrow> None | Some hard \<Rightarrow> Some (hard - soft)))"

definition measure_pipeline_gain :: "CommitTimeline \<Rightarrow> nat res" where
  "measure_pipeline_gain timeline =
     (let gains = List.map_filter gain_of (om_values timeline) in
      if gains = [] then Inr 0
      else duration_div (sum_list gains) (word_of_nat (length gains)))"

section \<open>The latency of the two paths\<close>

text \<open>
  What the runtime documents: there is a time \<open>tm\<close> of the runtime such that a reading of the clock lies
  between the times before and after it, and a sleep ends no earlier than its duration after it began.
  A punctual runtime in addition delays no single operation by more than \<open>eps\<close>.
\<close>

definition monotone_clock :: "('w \<Rightarrow> nat \<times> 'w) \<Rightarrow> (nat \<Rightarrow> 'w \<Rightarrow> 'w) \<Rightarrow> ('w \<Rightarrow> nat) \<Rightarrow> bool" where
  "monotone_clock clk slp tm \<longleftrightarrow>
     (\<forall>w. tm w \<le> fst (clk w) \<and> fst (clk w) \<le> tm (snd (clk w))) \<and> (\<forall>d w. tm w + d \<le> tm (slp d w))"

definition punctual_clock :: "('w \<Rightarrow> nat \<times> 'w) \<Rightarrow> (nat \<Rightarrow> 'w \<Rightarrow> 'w) \<Rightarrow> ('w \<Rightarrow> nat) \<Rightarrow> nat \<Rightarrow> bool" where
  "punctual_clock clk slp tm eps \<longleftrightarrow> monotone_clock clk slp tm \<and>
     (\<forall>w. tm (snd (clk w)) \<le> tm w + eps) \<and> (\<forall>d w. tm (slp d w) \<le> tm w + d + eps)"

lemma monotone_clock_read:
  assumes "monotone_clock clk slp tm" and "clk w = (t, w')"
  shows "tm w \<le> t" and "t \<le> tm w'"
  using assms by (auto simp: monotone_clock_def dest: spec [of _ w])

lemma monotone_clock_sleep: "monotone_clock clk slp tm \<Longrightarrow> tm w + d \<le> tm (slp d w)"
  by (simp add: monotone_clock_def)

lemma punctual_clock_monotone: "punctual_clock clk slp tm eps \<Longrightarrow> monotone_clock clk slp tm"
  by (simp add: punctual_clock_def)

lemma punctual_clock_read: "punctual_clock clk slp tm eps \<Longrightarrow> clk w = (t, w') \<Longrightarrow> tm w' \<le> tm w + eps"
  by (auto simp: punctual_clock_def dest: spec [of _ w])

lemma punctual_clock_sleep: "punctual_clock clk slp tm eps \<Longrightarrow> tm (slp d w) \<le> tm w + d + eps"
  by (simp add: punctual_clock_def)

lemma unat_checked_mul: "checked_mul a b = Inr c \<Longrightarrow> unat c = unat a * unat b"
  by (auto simp: checked_mul_def unat_mult_lem [symmetric] split: if_splits)

lemma checked_mul_small:
  assumes "3 * unat (delta :: u64) < 2 ^ 64"
  shows "checked_mul 2 delta = Inr (2 * delta)" and "checked_mul 3 delta = Inr (3 * delta)"
    and "from_millis (2 * delta) = 2 * from_millis delta" and "from_millis (3 * delta) = 3 * from_millis delta"
proof -
  show e: "checked_mul 2 delta = Inr (2 * delta)" "checked_mul 3 delta = Inr (3 * delta)" using assms by (simp_all add: checked_mul_def)
  show "from_millis (2 * delta) = 2 * from_millis delta" "from_millis (3 * delta) = 3 * from_millis delta"
    using unat_checked_mul [OF e(1)] unat_checked_mul [OF e(2)] by (simp_all add: from_millis_def)
qed

lemma optimistic_latency:
  assumes d: "3 * unat delta < 2 ^ 64" and c: "monotone_clock clk slp tm"
  obtains opt w' where "measure_optimistic_latency clk slp delta exec w = Inr (opt, w')"
    and "max (2 * from_millis delta + from_millis exec) (3 * from_millis delta) \<le> opt"
    and "\<And>eps. punctual_clock clk slp tm eps \<Longrightarrow>
      opt \<le> max (2 * from_millis delta + from_millis exec) (3 * from_millis delta) + 5 * eps"
proof -
  let ?two = "2 * from_millis delta" and ?three = "3 * from_millis delta" and ?exec = "from_millis exec"
  obtain start w1 where r1: "clk w = (start, w1)" by fastforce
  define w2 where "w2 = slp ?two w1"
  define w3 where "w3 = slp ?exec w2"
  obtain t2 w4 where r2: "clk w3 = (t2, w4)" by fastforce
  define w5 where "w5 = (if t2 - start < ?three then slp (?three - (t2 - start)) w4 else w4)"
  obtain t3 w6 where r3: "clk w5 = (t3, w6)" by fastforce
  note lo = monotone_clock_read [OF c r1] monotone_clock_read [OF c r2] monotone_clock_read [OF c r3]
    monotone_clock_sleep [OF c, of w1 ?two, folded w2_def] monotone_clock_sleep [OF c, of w2 ?exec, folded w3_def]
    monotone_clock_sleep [OF c, of w4 "?three - (t2 - start)"]
  have "measure_optimistic_latency clk slp delta exec w = Inr (t3 - start, w6)"
    using r3 by (simp add: measure_optimistic_latency_def elapsed_since_def checked_mul_small [OF d] r1 r2 Let_def w5_def
        flip: w2_def w3_def split: if_splits)
  moreover have "max (?two + ?exec) ?three \<le> t3 - start"
    using lo by (simp add: w5_def split: if_splits) linarith+
  moreover have "t3 - start \<le> max (?two + ?exec) ?three + 5 * eps" if p: "punctual_clock clk slp tm eps" for eps
    using lo punctual_clock_read [OF p r1] punctual_clock_read [OF p r2] punctual_clock_read [OF p r3]
      punctual_clock_sleep [OF p, of ?two w1, folded w2_def] punctual_clock_sleep [OF p, of ?exec w2, folded w3_def]
      punctual_clock_sleep [OF p, of "?three - (t2 - start)" w4]
    by (simp add: w5_def split: if_splits)
  ultimately show ?thesis using that by blast
qed

lemma baseline_latency:
  assumes d: "3 * unat delta < 2 ^ 64" and c: "monotone_clock clk slp tm"
  obtains base w' where "measure_baseline_latency clk slp delta exec w = Inr (base, w')"
    and "3 * from_millis delta + from_millis exec \<le> base"
    and "\<And>eps. punctual_clock clk slp tm eps \<Longrightarrow> base \<le> 3 * from_millis delta + from_millis exec + 4 * eps"
proof -
  let ?three = "3 * from_millis delta" and ?exec = "from_millis exec"
  obtain start w1 where r1: "clk w = (start, w1)" by fastforce
  define w2 where "w2 = slp ?three w1"
  define w3 where "w3 = slp ?exec w2"
  obtain t2 w4 where r2: "clk w3 = (t2, w4)" by fastforce
  note lo = monotone_clock_read [OF c r1] monotone_clock_read [OF c r2]
    monotone_clock_sleep [OF c, of w1 ?three, folded w2_def] monotone_clock_sleep [OF c, of w2 ?exec, folded w3_def]
  have "measure_baseline_latency clk slp delta exec w = Inr (t2 - start, w4)"
    by (simp add: measure_baseline_latency_def elapsed_since_def checked_mul_small [OF d] r1 r2 Let_def flip: w2_def w3_def)
  moreover have "?three + ?exec \<le> t2 - start" using lo by linarith
  moreover have "t2 - start \<le> ?three + ?exec + 4 * eps" if p: "punctual_clock clk slp tm eps" for eps
    using lo punctual_clock_read [OF p r1] punctual_clock_read [OF p r2]
      punctual_clock_sleep [OF p, of ?three w1, folded w2_def] punctual_clock_sleep [OF p, of ?exec w2, folded w3_def]
    by linarith
  ultimately show ?thesis using that by blast
qed




section \<open>The average commit interval\<close>

lemma sorted_le_last: "sorted xs \<Longrightarrow> y \<in> set xs \<Longrightarrow> y \<le> last xs"
proof (induction xs)
  case (Cons x xs)
  then show ?case by (cases "xs = []") (auto intro: order_trans)
qed simp

lemma sum_of_steps: "sorted (x # xs) \<Longrightarrow> sum_list (map (\<lambda>(a, b). b - a) (zip (x # xs) xs)) = last (x # xs) - (x :: nat)"
proof (induction xs arbitrary: x)
  case (Cons y ys)
  have "y \<le> last (y # ys)" using Cons.prems by (intro sorted_le_last) simp_all
  then show ?case using Cons.IH [of y] Cons.prems by simp
qed simp

lemma unat_word_of_nat: "n < 2 ^ 32 \<Longrightarrow> unat (word_of_nat n :: u32) = n"
  by (simp add: unsigned_of_nat take_bit_nat_eq_self)

lemma checked_sub_length:
  assumes "Suc n < 2 ^ 32"
  shows "checked_sub (word_of_nat (Suc n) :: u32) 1 = Inr (word_of_nat n)"
proof -
  have "unat (word_of_nat (Suc n) :: u32) = Suc n" using assms by (rule unat_word_of_nat)
  then have "(1 :: u32) \<le> word_of_nat (Suc n)" unfolding word_le_nat_alt by (simp del: of_nat_Suc)
  then show ?thesis by (simp add: checked_sub_def)
qed

text \<open>
  The average interval between hard commits depends only on the first and the last of them: the
  intervals between consecutive commits add up.
\<close>

theorem measure_delta_mean:
  assumes "2 \<le> length (hard_times timeline)" and "length (hard_times timeline) < 2 ^ 32"
  shows "measure_delta timeline = Inr ((Max (set (hard_times timeline)) - Min (set (hard_times timeline))) div (length (hard_times timeline) - 1))"
proof -
  obtain x xs where s: "sort (hard_times timeline) = x # xs"
    using assms(1) by (cases "sort (hard_times timeline)") (auto dest: arg_cong [of _ _ length])
  have sorted: "sorted (x # xs)" using s sorted_sort by metis
  have len: "length (hard_times timeline) = Suc (length xs)" using arg_cong [OF s, of length] by simp
  have set: "set (hard_times timeline) = set (x # xs)" using arg_cong [OF s, of set] by simp
  have "Min (set (x # xs)) = x" using sorted by (intro Min_eqI) auto
  moreover have "Max (set (x # xs)) = last (x # xs)" using sorted_le_last [OF sorted] last_in_set
    by (intro Max_eqI) blast+
  moreover have "checked_sub (word_of_nat (length (x # xs)) :: u32) 1 = Inr (word_of_nat (length xs))"
    using checked_sub_length [of "length xs"] assms(2) len by simp
  moreover have "unat (word_of_nat (length xs) :: u32) = length xs" "(word_of_nat (length xs) :: u32) \<noteq> 0"
    using assms len unat_word_of_nat [of "length xs"] by (auto simp del: unat_eq_zero)
  ultimately show ?thesis
    using assms(1) len sum_of_steps [OF sorted] by (simp add: measure_delta_def s set duration_div_def Let_def del: of_nat_Suc)
qed

lemma mean_between:
  fixes xs :: "nat list"
  assumes "xs \<noteq> []" and "\<forall>x \<in> set xs. lo \<le> x" and "\<forall>x \<in> set xs. x \<le> hi"
  shows "lo \<le> sum_list xs div length xs" and "sum_list xs div length xs \<le> hi"
proof -
  have n: "0 < length xs" using assms(1) by simp
  have "length xs * lo \<le> sum_list xs" "sum_list xs \<le> length xs * hi"
    using assms(2,3) by (induction xs) auto
  from this [THEN div_le_mono, of "length xs"]
  show "lo \<le> sum_list xs div length xs" "sum_list xs div length xs \<le> hi"
    using n by simp_all
qed

text \<open>The average head start lies between the least and the greatest head start of a round.\<close>

theorem measure_pipeline_gain_between:
  assumes gains: "gains = List.map_filter gain_of (om_values timeline)" "gains \<noteq> []" "length gains < 2 ^ 32"
    and "\<forall>g \<in> set gains. lo \<le> g" and "\<forall>g \<in> set gains. g \<le> hi"
  shows "\<exists>g. measure_pipeline_gain timeline = Inr g \<and> lo \<le> g \<and> g \<le> hi"
proof -
  have "measure_pipeline_gain timeline = Inr (sum_list gains div length gains)"
    using gains unat_word_of_nat [OF gains(3)]
    by (auto simp: measure_pipeline_gain_def duration_div_def Let_def simp del: unat_eq_zero)
  then show ?thesis using mean_between [OF gains(2) assms(4,5)] by blast
qed

section \<open>The benchmark tests\<close>

definition bench_baseline :: "('w \<Rightarrow> nat \<times> 'w) \<Rightarrow> (nat \<Rightarrow> 'w \<Rightarrow> 'w) \<Rightarrow> 'w \<Rightarrow> bool res" where
  "bench_baseline clk slp w =
     rbind (measure_baseline_latency clk slp 100 50 w) (\<lambda>(elapsed, _).
     let expected = from_millis (3 * 100 + 50) in Inr (elapsed \<ge> expected \<and> elapsed < expected + from_millis 5))"

definition bench_optimistic_faster_than_baseline :: "('w \<Rightarrow> nat \<times> 'w) \<Rightarrow> (nat \<Rightarrow> 'w \<Rightarrow> 'w) \<Rightarrow> 'w \<Rightarrow> bool res" where
  "bench_optimistic_faster_than_baseline clk slp w =
     rbind (measure_optimistic_latency clk slp 100 50 w) (\<lambda>(opt, w).
     rbind (measure_baseline_latency clk slp 100 50 w) (\<lambda>(base, _).
     let gain = base - opt in Inr (opt < base \<and> gain \<ge> from_millis 50 - from_millis 2)))"

text \<open>The waves of the conflict sweep: on a conflict the speculative result is discarded and the wave takes
  as long as the baseline.\<close>

fun sweep_waves :: "('w \<Rightarrow> nat \<times> 'w) \<Rightarrow> (nat \<Rightarrow> 'w \<Rightarrow> 'w) \<Rightarrow> u64 \<Rightarrow> u64 \<Rightarrow> nat \<Rightarrow> nat \<Rightarrow> nat list \<Rightarrow>
    nat \<times> nat \<times> 'w \<Rightarrow> (nat \<times> nat \<times> 'w) res" where
  "sweep_waves clk slp delta_ms exec_ms conflict_pct WAVES [] s = Inr s"
| "sweep_waves clk slp delta_ms exec_ms conflict_pct WAVES (wave # waves) (total_opt, total_base, w) =
     (let has_conflict = wave * 100 div WAVES < conflict_pct in
      rbind (measure_optimistic_latency clk slp delta_ms exec_ms w) (\<lambda>(opt, w).
      rbind (measure_baseline_latency clk slp delta_ms exec_ms w) (\<lambda>(base, w).
      let effective_opt = (if has_conflict then base else opt)
      in sweep_waves clk slp delta_ms exec_ms conflict_pct WAVES waves (total_opt + effective_opt, total_base + base, w))))"

definition conflict_sweep :: "('w \<Rightarrow> nat \<times> 'w) \<Rightarrow> (nat \<Rightarrow> 'w \<Rightarrow> 'w) \<Rightarrow> u64 \<Rightarrow> u64 \<Rightarrow> nat \<Rightarrow> nat \<Rightarrow> 'w \<Rightarrow>
    (nat \<times> nat \<times> 'w) res" where
  "conflict_sweep clk slp delta_ms exec_ms conflict_pct WAVES w =
     rbind (sweep_waves clk slp delta_ms exec_ms conflict_pct WAVES [0 ..< WAVES] (0, 0, w)) (\<lambda>(total_opt, total_base, w).
     Inr (total_opt div WAVES, total_base div WAVES, w))"

definition bench_conflict_sweep :: "('w \<Rightarrow> nat \<times> 'w) \<Rightarrow> (nat \<Rightarrow> 'w \<Rightarrow> 'w) \<Rightarrow> 'w \<Rightarrow> (bool \<times> 'w) res" where
  "bench_conflict_sweep clk slp w =
     rfold (\<lambda>(conflict_pct, min_gain_ms) (ok, w).
       rbind (conflict_sweep clk slp 100 40 conflict_pct 10 w) (\<lambda>(avg_opt, avg_base, w).
       Inr (ok \<and> avg_base - avg_opt \<ge> from_millis min_gain_ms \<and> avg_opt \<le> avg_base, w)))
     [(0, 40), (50, 40 div 2), (100, 0)] (True, w)"

text \<open>
  Whatever share of the waves conflicts, the optimistic path takes on average at most the delays of one
  measurement longer than the baseline.
\<close>

lemma sweep_waves_bound:
  assumes d: "3 * unat delta < 2 ^ 64" and p: "punctual_clock clk slp tm eps"
  shows "\<exists>opt base w'. sweep_waves clk slp delta exec pct W waves (o0, b0, w) = Inr (o0 + opt, b0 + base, w') \<and>
    opt \<le> base + length waves * (5 * eps)"
proof (induction waves arbitrary: o0 b0 w)
  case (Cons x waves)
  note c = punctual_clock_monotone [OF p]
  from optimistic_latency [OF d c, of exec w] obtain o1 w1 where
    o1: "measure_optimistic_latency clk slp delta exec w = Inr (o1, w1)"
    "o1 \<le> max (2 * from_millis delta + from_millis exec) (3 * from_millis delta) + 5 * eps" using p by metis
  from baseline_latency [OF d c, of exec w1] obtain b1 w2 where
    b1: "measure_baseline_latency clk slp delta exec w1 = Inr (b1, w2)" "3 * from_millis delta + from_millis exec \<le> b1" by metis
  let ?o = "if x * 100 div W < pct then b1 else o1"
  obtain opt base w' where ih: "sweep_waves clk slp delta exec pct W waves (o0 + ?o, b0 + b1, w2) = Inr (o0 + ?o + opt, b0 + b1 + base, w')"
    "opt \<le> base + length waves * (5 * eps)" using Cons.IH by blast
  have "?o \<le> b1 + 5 * eps" using o1(2) b1(2) by (simp add: max_def split: if_splits)
  then show ?case using o1(1) b1(1) ih
    by (intro exI [of _ "?o + opt"] exI [of _ "b1 + base"] exI [of _ w']) (simp add: Let_def add.assoc)
qed simp

theorem conflicts_never_slower:
  assumes d: "3 * unat delta < 2 ^ 64" and p: "punctual_clock clk slp tm eps" and W: "0 < W"
  shows "\<exists>opt base w'. conflict_sweep clk slp delta exec pct W w = Inr (opt, base, w') \<and> opt \<le> base + 5 * eps"
proof -
  obtain opt base w' where s: "sweep_waves clk slp delta exec pct W [0 ..< W] (0, 0, w) = Inr (opt, base, w')"
    "opt \<le> base + W * (5 * eps)" using sweep_waves_bound [OF d p, of exec pct W "[0 ..< W]" 0 0 w] by auto
  have "opt div W \<le> base div W + 5 * eps" using div_le_mono [OF s(2), of W] W by simp
  then show ?thesis using s(1) by (simp add: conflict_sweep_def)
qed

text \<open>
  The benchmark tests pass on a runtime without delays, as the paused clock they run on documents.
\<close>

lemma exact_optimistic:
  assumes "3 * unat delta < 2 ^ 64" and "punctual_clock clk slp tm 0"
  shows "\<exists>w'. measure_optimistic_latency clk slp delta exec w =
    Inr (max (2 * from_millis delta + from_millis exec) (3 * from_millis delta), w')"
  using optimistic_latency [OF assms(1) punctual_clock_monotone [OF assms(2)], of exec w] assms(2)
  by (metis add_0_right le_antisym mult_0_right)

lemma exact_baseline:
  assumes "3 * unat delta < 2 ^ 64" and "punctual_clock clk slp tm 0"
  shows "\<exists>w'. measure_baseline_latency clk slp delta exec w = Inr (3 * from_millis delta + from_millis exec, w')"
  using baseline_latency [OF assms(1) punctual_clock_monotone [OF assms(2)], of exec w] assms(2)
  by (metis add_0_right le_antisym mult_0_right)

lemma exact_sweep:
  assumes d: "3 * unat delta < 2 ^ 64" and p: "punctual_clock clk slp tm 0"
  shows "\<exists>w'. sweep_waves clk slp delta exec pct W waves (o0, b0, w) =
    Inr (o0 + sum_list (map (\<lambda>x. if x * 100 div W < pct then 3 * from_millis delta + from_millis exec
           else max (2 * from_millis delta + from_millis exec) (3 * from_millis delta)) waves),
         b0 + length waves * (3 * from_millis delta + from_millis exec), w')"
proof (induction waves arbitrary: o0 b0 w)
  case (Cons x waves)
  from exact_optimistic [OF d p, of exec w] obtain w1 where o1: "measure_optimistic_latency clk slp delta exec w =
    Inr (max (2 * from_millis delta + from_millis exec) (3 * from_millis delta), w1)" by blast
  from exact_baseline [OF d p, of exec w1] obtain w2 where b1: "measure_baseline_latency clk slp delta exec w1 =
    Inr (3 * from_millis delta + from_millis exec, w2)" by blast
  show ?case using Cons.IH [of "o0 + (if x * 100 div W < pct then 3 * from_millis delta + from_millis exec
           else max (2 * from_millis delta + from_millis exec) (3 * from_millis delta))" "b0 + (3 * from_millis delta + from_millis exec)" w2]
    by (auto simp: o1 b1 Let_def add.assoc)
qed simp

lemma exact_conflict_sweep:
  assumes p: "punctual_clock clk slp tm 0"
  shows "\<exists>w'. conflict_sweep clk slp 100 40 pct 10 w =
    Inr (sum_list (map (\<lambda>x. if x * 100 div 10 < pct then 340000000 else 300000000) [0 ..< 10]) div 10, 340000000, w')"
proof -
  have m: "3 * from_millis 100 + from_millis 40 = 340000000" "max (2 * from_millis 100 + from_millis 40) (3 * from_millis 100) = 300000000"
    by (simp_all add: from_millis_def)
  have "\<exists>w'. sweep_waves clk slp 100 40 pct 10 [0 ..< 10] (0, 0, w) =
    Inr (sum_list (map (\<lambda>x. if x * 100 div 10 < pct then 340000000 else 300000000) [0 ..< 10]), 3400000000, w')"
    using exact_sweep [OF _ p, of 100 40 pct 10 "[0 ..< 10]" 0 0 w] unfolding m by (simp del: upt_rec_numeral)
  then show ?thesis by (auto simp: conflict_sweep_def simp del: upt_rec_numeral)
qed

theorem benchmark_tests_pass:
  assumes p: "punctual_clock clk slp tm 0"
  shows "bench_baseline clk slp w = Inr True" and "bench_optimistic_faster_than_baseline clk slp w = Inr True"
    and "\<exists>w'. bench_conflict_sweep clk slp w = Inr (True, w')"
proof -
  show "bench_baseline clk slp w = Inr True"
    using exact_baseline [OF _ p, of 100 50 w] by (auto simp: bench_baseline_def from_millis_def)
  obtain w1 where "measure_optimistic_latency clk slp 100 50 w = Inr (300000000, w1)"
    using exact_optimistic [OF _ p, of 100 50 w] by (auto simp: from_millis_def)
  then show "bench_optimistic_faster_than_baseline clk slp w = Inr True"
    using exact_baseline [OF _ p, of 100 50 w1] by (auto simp: bench_optimistic_faster_than_baseline_def from_millis_def)
  obtain w1 where 1: "conflict_sweep clk slp 100 40 0 10 w = Inr (300000000, 340000000, w1)"
    using exact_conflict_sweep [OF p, of 0 w] by (auto simp: upt_rec)
  obtain w2 where 2: "conflict_sweep clk slp 100 40 50 10 w1 = Inr (320000000, 340000000, w2)"
    using exact_conflict_sweep [OF p, of 50 w1] by (auto simp: upt_rec)
  obtain w3 where 3: "conflict_sweep clk slp 100 40 100 10 w2 = Inr (340000000, 340000000, w3)"
    using exact_conflict_sweep [OF p, of 100 w2] by (auto simp: upt_rec)
  show "\<exists>w'. bench_conflict_sweep clk slp w = Inr (True, w')"
    by (simp add: bench_conflict_sweep_def 1 2 3 from_millis_def)
qed

end
