(* ===== verification/Simulation.thy ===== *)
theory Simulation
  imports Consensus_Tests Node_Runs
begin

text \<open>
  The simulation of \<^verbatim>\<open>crates/consensus/src/sim\<close>, and the latency models of \<^verbatim>\<open>crates/consensus/src/lib.rs\<close>. The
  unbounded channels of the network are the lists of the blocks they hold; the two ends of a channel
  share that list. The random number generator comes from the package \<^verbatim>\<open>rand\<close> and is a parameter; so is
  the receive operation of the bounded broadcast channel of the runtime on which a node sends its events.
  Durations are numbers of nanoseconds.
\<close>

section \<open>Latency models\<close>

datatype LatencyModel = ZeroLatency | UniformLatency (ul_min: nat) (ul_max: nat)

fun delay :: "LatencyModel \<Rightarrow> nat" where
  "delay ZeroLatency = 0"
| "delay (UniformLatency mn mx) = mn + (mx - mn) div 2"

section \<open>The network\<close>

record SimulatedNetwork =
  sn_n :: nat
  sn_inboxes :: "VerifiedBlock list list"
  sn_partitioned :: "(nat \<times> nat) fset"

definition sim_network_new :: "nat \<Rightarrow> SimulatedNetwork res" where
  "sim_network_new n =
     rbind (guard DebugAssert (n > 0)) (\<lambda>_.
     Inr \<lparr>sn_n = n, sn_inboxes = replicate n [], sn_partitioned = {||}\<rparr>)"

definition is_partitioned :: "nat \<Rightarrow> nat \<Rightarrow> SimulatedNetwork \<Rightarrow> bool" where
  "is_partitioned sender to net \<longleftrightarrow> (sender, to) |\<in>| sn_partitioned net"

definition send_to :: "nat \<Rightarrow> VerifiedBlock \<Rightarrow> nat \<Rightarrow> SimulatedNetwork \<Rightarrow> SimulatedNetwork" where
  "send_to sender block to net =
     (if to = sender then net
      else if is_partitioned sender to net then net
      else net\<lparr>sn_inboxes := (sn_inboxes net)[to := sn_inboxes net ! to @ [block]]\<rparr>)"

definition broadcast :: "nat \<Rightarrow> VerifiedBlock \<Rightarrow> SimulatedNetwork \<Rightarrow> SimulatedNetwork res" where
  "broadcast sender block net =
     rbind (guard DebugAssert (sender < sn_n net)) (\<lambda>_.
     Inr (fold (send_to sender block) [0 ..< sn_n net] net))"

definition partition_nodes :: "nat \<Rightarrow> nat \<Rightarrow> SimulatedNetwork \<Rightarrow> SimulatedNetwork res" where
  "partition_nodes a b net =
     rbind (guard DebugAssert (a < sn_n net \<and> b < sn_n net)) (\<lambda>_.
     rbind (guard DebugAssert (a \<noteq> b)) (\<lambda>_.
     Inr (net\<lparr>sn_partitioned := finsert (b, a) (finsert (a, b) (sn_partitioned net))\<rparr>)))"

definition heal :: "nat \<Rightarrow> nat \<Rightarrow> SimulatedNetwork \<Rightarrow> SimulatedNetwork" where
  "heal a b net = net\<lparr>sn_partitioned := sn_partitioned net |-| {|(a, b)|} |-| {|(b, a)|}\<rparr>"

definition drain_inbox :: "nat \<Rightarrow> SimulatedNetwork \<Rightarrow> VerifiedBlock list \<times> SimulatedNetwork" where
  "drain_inbox i net = (sn_inboxes net ! i, net\<lparr>sn_inboxes := (sn_inboxes net)[i := []]\<rparr>)"

section \<open>The clock and the node\<close>

record FakeClock =
  fc_counter :: u64

definition fake_clock_new :: FakeClock where
  "fake_clock_new = \<lparr>fc_counter = 0\<rparr>"

definition now_ms :: "FakeClock \<Rightarrow> (u64 \<times> FakeClock) res" where
  "now_ms clock = rbind (checked_add (fc_counter clock) 1) (\<lambda>c. Inr (c, clock\<lparr>fc_counter := c\<rparr>))"

record 'g SimulatedNode =
  sim_index :: usize
  sim_rng :: 'g
  sim_clock :: FakeClock
  sim_node :: ConsensusNode
  sim_rx :: nat

definition sim_node_new :: "hash \<Rightarrow> (u64 \<Rightarrow> 'g) \<Rightarrow> usize \<Rightarrow> u64 \<Rightarrow> Context \<Rightarrow> 'g SimulatedNode res" where
  "sim_node_new H seed_from_u64 index seed context =
     rbind (guard DebugAssert (is_valid_index (committee context) (ucast index))) (\<lambda>_.
     rbind (node_new H context) (\<lambda>node.
     Inr \<lparr>sim_index = index, sim_rng = seed_from_u64 (seed + index), sim_clock = fake_clock_new, sim_node = node, sim_rx = 0\<rparr>))"

definition build_block :: "hash \<Rightarrow> Round \<Rightarrow> BlockRef list \<Rightarrow> 'g SimulatedNode \<Rightarrow> (VerifiedBlock \<times> 'g SimulatedNode) res" where
  "build_block H rnd ancestors sn =
     rbind (guard DebugAssert (rnd > 0)) (\<lambda>_.
     rbind (guard DebugAssert (ancestors \<noteq> [])) (\<lambda>_.
     rbind (now_ms (sim_clock sn)) (\<lambda>(ts, clock).
     let block = TestBlock_build H (set_timestamp_ms ts (set_ancestors ancestors (TestBlock_new rnd (ucast (sim_index sn)))))
     in rbind (node_accept_block H block (sim_node sn)) (\<lambda>node.
        Inr (block, sn\<lparr>sim_clock := clock, sim_node := node\<rparr>)))))"

definition next_random :: "('g \<Rightarrow> u64 \<times> 'g) \<Rightarrow> 'g SimulatedNode \<Rightarrow> u64 \<times> 'g SimulatedNode" where
  "next_random next_u64 sn = (let (r, g) = next_u64 (sim_rng sn) in (r, sn\<lparr>sim_rng := g\<rparr>))"

text \<open>
  The receiver of the events is a position in the log of everything the node sent. The parameter
  \<open>try_recv\<close> gets the log and the position, and returns the received event, if any, with the new position;
  no event stands for each of the errors: the channel is empty, or the receiver lags behind the
  capacity of the channel and continues at the oldest event that is still held. The loop stops at the
  first error, whichever it is.
\<close>

partial_function (option) recv_while_ok ::
    "('rx \<Rightarrow> 'e option \<times> 'rx) \<Rightarrow> 'rx \<Rightarrow> 'e list \<Rightarrow> ('e list \<times> 'rx) option" where
  "recv_while_ok try_recv rx out =
     (case try_recv rx of
        (Some ev, rx') \<Rightarrow> recv_while_ok try_recv rx' (out @ [ev])
      | (None, rx') \<Rightarrow> Some (out, rx'))"

definition drain_events ::
    "(ConsensusEvent list \<Rightarrow> nat \<Rightarrow> ConsensusEvent option \<times> nat) \<Rightarrow> 'g SimulatedNode \<Rightarrow>
     (ConsensusEvent list \<times> 'g SimulatedNode) option" where
  "drain_events try_recv sn =
     (case recv_while_ok (try_recv (cn_events (sim_node sn))) (sim_rx sn) [] of
        None \<Rightarrow> None
      | Some (out, rx) \<Rightarrow> Some (out, sn\<lparr>sim_rx := rx\<rparr>))"

definition process_inbox :: "hash \<Rightarrow> VerifiedBlock list \<Rightarrow> 'g SimulatedNode \<Rightarrow> 'g SimulatedNode res" where
  "process_inbox H inbox sn =
     rbind (rfold (node_accept_block H) inbox (sim_node sn)) (\<lambda>node. Inr (sn\<lparr>sim_node := node\<rparr>))"

section \<open>What a drain of the events returns\<close>

text \<open>
  The documented behaviour of the receiver: an event it returns is the next one of the log, and an
  error leaves the position where it is, at the end of the log, or moves it forward to an event that
  is still held.
\<close>

definition broadcast_receiver :: "('e list \<Rightarrow> nat \<Rightarrow> 'e option \<times> nat) \<Rightarrow> bool" where
  "broadcast_receiver try_recv \<longleftrightarrow> (\<forall>log rx. rx \<le> length log \<longrightarrow>
     (case try_recv log rx of
        (Some ev, rx') \<Rightarrow> rx < length log \<and> ev = log ! rx \<and> rx' = Suc rx
      | (None, rx') \<Rightarrow> rx \<le> rx' \<and> rx' \<le> length log \<and> (rx' = rx \<longrightarrow> rx = length log)))"

lemma recv_while_ok_segment:
  assumes recv: "broadcast_receiver try_recv" and "rx \<le> length log"
  shows "\<exists>n rx'. recv_while_ok (try_recv log) rx out = Some (out @ take n (drop rx log), rx') \<and>
    rx + n \<le> rx' \<and> rx' \<le> length log \<and> (rx' = rx + n \<longrightarrow> rx' = length log)"
  using assms(2)
proof (induction "length log - rx" arbitrary: rx out rule: less_induct)
  case less
  have step: "case try_recv log rx of (Some ev, rx') \<Rightarrow> rx < length log \<and> ev = log ! rx \<and> rx' = Suc rx
      | (None, rx') \<Rightarrow> rx \<le> rx' \<and> rx' \<le> length log \<and> (rx' = rx \<longrightarrow> rx = length log)"
    by (rule recv [unfolded broadcast_receiver_def, THEN spec, THEN spec, THEN mp, OF less.prems])
  obtain res rx1 where t: "try_recv log rx = (res, rx1)" by fastforce
  show ?case
  proof (cases res)
    case None
    then show ?thesis using step t by (intro exI [of _ 0] exI [of _ rx1]) (simp add: recv_while_ok.simps [of _ rx])
  next
    case (Some ev)
    with step t have 1: "rx < length log" "ev = log ! rx" "rx1 = Suc rx" by simp_all
    obtain n rx' where ih: "recv_while_ok (try_recv log) (Suc rx) (out @ [ev]) = Some ((out @ [ev]) @ take n (drop (Suc rx) log), rx')"
      "Suc rx + n \<le> rx'" "rx' \<le> length log" "rx' = Suc rx + n \<longrightarrow> rx' = length log"
      using less.hyps [of "Suc rx" "out @ [ev]"] 1(1) diff_less_mono2 [OF lessI 1(1)] by auto
    have "take (Suc n) (drop rx log) = ev # take n (drop (Suc rx) log)" using 1 by (simp add: Cons_nth_drop_Suc [symmetric])
    then show ?thesis using ih t Some 1(3)
      by (intro exI [of _ "Suc n"] exI [of _ rx']) (simp add: recv_while_ok.simps [of _ rx])
  qed
qed

text \<open>
  Draining the events of a simulated node ends, with the next events of the node in the order the node
  sent them and without a gap; either these are all the events the node sent, or the drain stopped at a
  lag and the next one continues further on in the log.
\<close>

theorem drain_events_segment:
  assumes "broadcast_receiver try_recv" and "sim_rx sn \<le> length (cn_events (sim_node sn))"
  shows "\<exists>n sn'. drain_events try_recv sn = Some (take n (drop (sim_rx sn) (cn_events (sim_node sn))), sn') \<and>
    sim_node sn' = sim_node sn \<and> sim_rx sn + n \<le> sim_rx sn' \<and> sim_rx sn' \<le> length (cn_events (sim_node sn)) \<and>
    (sim_rx sn' = sim_rx sn + n \<longrightarrow> sim_rx sn' = length (cn_events (sim_node sn)))"
proof -
  obtain n rx where "recv_while_ok (try_recv (cn_events (sim_node sn))) (sim_rx sn) [] =
      Some (take n (drop (sim_rx sn) (cn_events (sim_node sn))), rx)"
    and "sim_rx sn + n \<le> rx" "rx \<le> length (cn_events (sim_node sn))" "rx = sim_rx sn + n \<longrightarrow> rx = length (cn_events (sim_node sn))"
    using recv_while_ok_segment [OF assms, of "[]"] by auto
  then show ?thesis by (intro exI [of _ n] exI [of _ "sn\<lparr>sim_rx := rx\<rparr>"]) (simp add: drain_events_def)
qed

section \<open>What the network delivers\<close>

definition net_ok :: "SimulatedNetwork \<Rightarrow> bool" where
  "net_ok net \<longleftrightarrow> 0 < sn_n net \<and> length (sn_inboxes net) = sn_n net \<and>
     (\<forall>a b. is_partitioned a b net \<longrightarrow> a \<noteq> b \<and> is_partitioned b a net)"

lemma send_to_frame [simp]: "sn_n (send_to sender block to net) = sn_n net" "sn_partitioned (send_to sender block to net) = sn_partitioned net"
  "length (sn_inboxes (send_to sender block to net)) = length (sn_inboxes net)"
  by (simp_all add: send_to_def)

lemma fold_send:
  assumes "distinct ts" and "set ts \<subseteq> {0 ..< length (sn_inboxes net)}"
  shows "fold (send_to sender block) ts net = net\<lparr>sn_inboxes := map (\<lambda>i. sn_inboxes net ! i @
      (if i \<in> set ts \<and> i \<noteq> sender \<and> \<not> is_partitioned sender i net then [block] else [])) [0 ..< length (sn_inboxes net)]\<rparr>"
  using assms
proof (induction ts arbitrary: net)
  case Nil
  have "map (\<lambda>i. sn_inboxes net ! i @ []) [0 ..< length (sn_inboxes net)] = sn_inboxes net" by (simp add: map_nth)
  then show ?case by simp
next
  case (Cons t ts)
  let ?n = "send_to sender block t net"
  have part: "is_partitioned sender i ?n = is_partitioned sender i net" for i by (simp add: is_partitioned_def)
  have box: "sn_inboxes ?n ! i = sn_inboxes net ! i @ (if i = t \<and> i \<noteq> sender \<and> \<not> is_partitioned sender i net then [block] else [])"
    if "i < length (sn_inboxes net)" for i
    using that by (auto simp: send_to_def nth_list_update)
  have rest: "?n\<lparr>sn_inboxes := xs\<rparr> = net\<lparr>sn_inboxes := xs\<rparr>" for xs by (simp add: send_to_def)
  show ?case
    using Cons.IH [of ?n] Cons.prems by (auto simp: part box rest intro!: arg_cong [of _ _ "\<lambda>xs. net\<lparr>sn_inboxes := xs\<rparr>"])
qed

text \<open>
  \<^bold>\<open>C27\<close> A broadcast appends the block to the inbox of every node but the sender that is not
  partitioned from it, and to no other, in the order of the broadcasts; it fails only for a sender that
  does not exist.
\<close>

theorem broadcast_delivers_exactly:
  assumes ok: "net_ok net" and sender: "sender < sn_n net" and i: "i < sn_n net"
  shows "\<exists>net'. broadcast sender block net = Inr net' \<and> net_ok net' \<and> fst (drain_inbox i net') = fst (drain_inbox i net) @
    (if i = sender \<or> is_partitioned sender i net then [] else [block])"
proof -
  have "set [0 ..< sn_n net] \<subseteq> {0 ..< length (sn_inboxes net)}" using ok by (simp add: net_ok_def)
  from fold_send [OF _ this, of sender block] ok sender i show ?thesis
    by (auto simp: broadcast_def net_ok_def drain_inbox_def is_partitioned_def)
qed

text \<open>Partitions are symmetric in every network that is built with the operations, and healing undoes a
  partition.\<close>

theorem partition_heal:
  assumes ok: "net_ok net" and ab: "a < sn_n net" "b < sn_n net" "a \<noteq> b"
  shows "\<exists>net'. partition_nodes a b net = Inr net' \<and> net_ok net' \<and> is_partitioned a b net' \<and> is_partitioned b a net' \<and>
    net_ok (heal a b net') \<and> \<not> is_partitioned a b (heal a b net') \<and>
    (is_partitioned c d (heal a b net') \<longleftrightarrow> is_partitioned c d net \<and> {c, d} \<noteq> {a, b})"
  using ok ab by (auto simp: partition_nodes_def heal_def is_partitioned_def net_ok_def doubleton_eq_iff)

section \<open>Processing an inbox\<close>

text \<open>An inbox in causal order: members' blocks that refer without repetition to blocks of earlier rounds
  that the node has or that come before in the inbox, with few authorities that equivocate.\<close>

fun causal_inbox :: "Committee \<Rightarrow> BlockRef set \<Rightarrow> VerifiedBlock list \<Rightarrow> bool" where
  "causal_inbox c refs [] \<longleftrightarrow> True"
| "causal_inbox c refs (b # bs) \<longleftrightarrow>
     is_valid_index c (vb_author b) \<and> vb_round b \<noteq> - 1 \<and> 0 < vb_round b \<and> distinct (vb_ancestors b) \<and>
     (\<forall>a \<in> set (vb_ancestors b). br_round a < vb_round b \<and> (0 < br_round a \<longrightarrow> a \<in> refs)) \<and>
     (\<forall>rnd > 0. sum (weight c) (forkers (insert (reference b) refs) rnd) \<le> fault_tolerance c) \<and>
     causal_inbox c (insert (reference b) refs) bs"

lemma accept_causal:
  assumes wf: "wf_committee (committee ctx)" and fed: "fed H ctx node" and con: "cn_context node = ctx"
    and inbox: "causal_inbox (committee ctx) (dag_refs (cn_dag_state node)) (b # bs)"
  shows "\<exists>node'. node_accept_block H b node = Inr node' \<and> fed H ctx node' \<and> cn_context node' = ctx \<and>
    dag_refs (cn_dag_state node') = insert (reference b) (dag_refs (cn_dag_state node))"
proof -
  obtain bc where ok: "node_ok bc node" using fed_node_ok [OF wf fed] by blast
  then have com: "dag_committee (cn_dag_state node) = committee ctx" using con by (simp add: node_ok_def Let_def)
  have good: "good_batch (cn_dag_state node) [b]" using inbox by (auto simp: good_batch_def acceptable_def com)
  from ingest_ok [OF ok good, of H] obtain node' where n: "ingest H [b] node = Inr node'"
    "dag_refs (cn_dag_state node') = dag_refs (cn_dag_state node) \<union> reference ` set [b]" by blast
  have run: "node_accept_blocks H [b] node = Inr node'" by (simp add: node_accept_blocks_def n(1))
  have "node_accept_block H b node = Inr node'" using inbox n(1) by (simp add: node_accept_block_def)
  then show ?thesis using fed_batch [OF fed good run] accept_events_prefix [OF run] con n(2) by simp
qed

lemma accept_inbox:
  assumes "wf_committee (committee ctx)" and "fed H ctx node" and "cn_context node = ctx"
    and "causal_inbox (committee ctx) (dag_refs (cn_dag_state node)) inbox"
  shows "\<exists>node'. rfold (node_accept_block H) inbox node = Inr node' \<and> fed H ctx node' \<and>
    dag_refs (cn_dag_state node') = dag_refs (cn_dag_state node) \<union> reference ` set inbox"
  using assms(2-4)
proof (induction inbox arbitrary: node)
  case (Cons b bs)
  from accept_causal [OF assms(1) Cons.prems] obtain n1 where n1: "node_accept_block H b node = Inr n1" "fed H ctx n1"
    "cn_context n1 = ctx" "dag_refs (cn_dag_state n1) = insert (reference b) (dag_refs (cn_dag_state node))" by blast
  from Cons.IH [OF n1(2,3)] Cons.prems(3) n1(1,4) show ?case by auto
qed simp

lemma fed_context: "fed H ctx node \<Longrightarrow> cn_context node = ctx"
proof (induction rule: fed.induct)
  case (fed_new node)
  then show ?case by (auto simp: node_new_def res_simps)
next
  case (fed_batch node bs node')
  then show ?case using accept_events_prefix [of H bs node node'] by simp
qed

text \<open>
  \<^bold>\<open>C26\<close> A simulated node whose inbox is in causal order processes all of it without a panic: every
  block enters its DAG, one at a time.
\<close>

theorem causal_inbox_processed:
  assumes wf: "wf_committee (committee ctx)" and fed: "fed H ctx (sim_node sn)"
    and inbox: "causal_inbox (committee ctx) (dag_refs (cn_dag_state (sim_node sn))) inbox"
  shows "\<exists>sn'. process_inbox H inbox sn = Inr sn' \<and> fed H ctx (sim_node sn') \<and> sim_clock sn' = sim_clock sn \<and>
    dag_refs (cn_dag_state (sim_node sn')) = dag_refs (cn_dag_state (sim_node sn)) \<union> reference ` set inbox"
  using accept_inbox [OF wf fed fed_context [OF fed] inbox] by (auto simp: process_inbox_def)

text \<open>Timestamps of the clock strictly increase; it fails only after the last of the 64-bit values.\<close>

theorem fake_clock_increases:
  assumes "fc_counter clock \<noteq> - 1"
  shows "\<exists>t clock'. now_ms clock = Inr (t, clock') \<and> fc_counter clock < t \<and> fc_counter clock' = t"
  using checked_succ [OF assms] by (auto simp: now_ms_def word_less_nat_alt)

section \<open>A simulation of four nodes\<close>

definition demo_net :: SimulatedNetwork where
  "demo_net = \<lparr>sn_n = 4, sn_inboxes = replicate 4 [], sn_partitioned = {|(0, 1), (1, 0)|}\<rparr>"

lemma demo_net_ok: "net_ok demo_net"
  by (auto simp: net_ok_def demo_net_def is_partitioned_def)

theorem broadcast_delivers_exactly_witness:
  "\<exists>net net'. broadcast 0 (block4 1 0 []) demo_net = Inr net \<and> fst (drain_inbox 2 net) = [block4 1 0 []] \<and>
     broadcast 0 (block4 1 0 []) demo_net = Inr net' \<and> fst (drain_inbox 1 net') = []"
  using broadcast_delivers_exactly [OF demo_net_ok, of 0 2 "block4 1 0 []"] broadcast_delivers_exactly [OF demo_net_ok, of 0 1 "block4 1 0 []"]
  by (auto simp: demo_net_def drain_inbox_def is_partitioned_def)

lemma round_inbox_causal:
  assumes "\<forall>x \<in> refs. 0 < br_round x \<longrightarrow> br_digest x = 0"
    and "\<forall>b \<in> set bs. b \<in> set (full_round 1)"
  shows "causal_inbox committee4 refs bs"
  using assms
proof (induction bs arbitrary: refs)
  case (Cons b bs)
  have b: "b \<in> set (full_round 1)" using Cons.prems(2) by simp
  then have "reference b \<in> set (round_refs 1)" by (simp only: full_round_refs [symmetric] imageI)
  then obtain a where "reference b = BlockRef 1 a 0" by (auto simp: round_refs_iff)
  then have refs: "\<forall>x \<in> insert (reference b) refs. 0 < br_round x \<longrightarrow> br_digest x = 0" using Cons.prems(1) by simp
  have "causal_inbox committee4 (insert (reference b) refs) bs" using Cons.IH [OF refs] Cons.prems(2) by simp
  moreover have "sum (weight committee4) (forkers (insert (reference b) refs) rnd) \<le> fault_tolerance committee4" if "0 < rnd" for rnd
    using zero_digests_honest [OF refs that] by simp
  moreover have "is_valid_index committee4 (vb_author b) \<and> vb_round b \<noteq> - 1 \<and> 0 < vb_round b \<and> distinct (vb_ancestors b) \<and>
     (\<forall>a \<in> set (vb_ancestors b). br_round a < vb_round b \<and> (0 < br_round a \<longrightarrow> a \<in> refs))"
    using b by (auto simp: full_round_def round_refs_def)
  ultimately show ?case by simp
qed simp

theorem causal_inbox_processed_witness:
  "\<exists>sn sn'. sim_node_new H0 id 0 7 ctx4 = Inr sn \<and> process_inbox H0 (full_round 1) sn = Inr sn' \<and> fed H0 ctx4 (sim_node sn')"
proof -
  obtain node where n: "node_new H0 ctx4 = Inr node" using node_new_ok [of ctx4 H0] by auto
  then have d: "cn_dag_state node = genesis4" using genesis4(1) by (auto simp: node_new_def res_simps)
  obtain sn :: "u64 SimulatedNode" where sn: "sim_node_new H0 id 0 7 ctx4 = Inr sn" "sim_node sn = node"
    using n by (auto simp: sim_node_new_def)
  have "\<not> 0 < br_round x" if "x \<in> dag_refs genesis4" for x
    using get_block_above_genesis [OF genesis4(2), of x] genesis4(4) that by (auto simp: dag_refs_def)
  then have "causal_inbox committee4 (dag_refs genesis4) (full_round 1)" by (intro round_inbox_causal) auto
  with causal_inbox_processed [of ctx4 H0 sn "full_round 1"] fed_new [OF n] d sn show ?thesis by auto
qed

end
